(* ===== verification/Prelude.thy ===== *)
theory Prelude
  imports Main "HOL-Library.Word" "HOL-Library.Multiset"
begin

unbundle bit_operations_syntax

text \<open>
  Shared material of the development: the names of the machine types the C++ sources use,
  and the facts about words, byte lists and positional number systems that
  several components rest on.
\<close>

section \<open>Machine types\<close>

type_synonym u8 = "8 word"
type_synonym u16 = "16 word"
type_synonym u32 = "32 word"
type_synonym u64 = "64 word"
type_synonym bytes = "u8 list"

named_theorems word_val \<open>reading machine words as natural numbers\<close>

section \<open>Words\<close>

lemma unat_lt2p: "unat (x :: 'a::len word) < 2 ^ LENGTH('a)"
  by simp

lemma unat_lt8: "unat (x :: u8) < 256"
  using unat_lt2p [of x] by simp

lemma unat_lt16: "unat (x :: u16) < 65536"
  using unat_lt2p [of x] by simp

lemma unat_lt32: "unat (x :: u32) < 4294967296"
  using unat_lt2p [of x] by simp

lemma unat_lt64: "unat (x :: u64) < 18446744073709551616"
  using unat_lt2p [of x] by simp

lemma unat_mod_width [simp]:
  "unat (b :: u8) mod 256 = unat b" "unat (h :: u16) mod 65536 = unat h"
  "unat (x :: u32) mod 4294967296 = unat x"
  "unat (y :: u64) mod 18446744073709551616 = unat y"
  by (simp_all add: unat_lt8 unat_lt16 unat_lt32 unat_lt64)

lemma unat_div_width [simp]:
  "unat (b :: u8) div 256 = 0" "unat (h :: u16) div 65536 = 0"
  "unat (x :: u32) div 4294967296 = 0" "unat (y :: u64) div 18446744073709551616 = 0"
  by (simp_all add: unat_lt8 unat_lt16 unat_lt32 unat_lt64)

lemma unat_ucast: "unat (ucast (x :: 'a::len word) :: 'b::len word) = unat x mod 2 ^ LENGTH('b)"
  by (simp add: unsigned_ucast_eq take_bit_eq_mod)

lemma unat_ucast_up [simp]:
  fixes x :: "'a::len word"
  assumes wider: "LENGTH('a) \<le> LENGTH('b)"
  shows "unat (ucast x :: 'b::len word) = unat x"
  unfolding unat_ucast
  by (rule mod_less) (meson wider le_trans leI not_le one_le_numeral power_increasing unat_lt2p)

lemma unat_ucast_down [word_val]:
  "LENGTH('b) < LENGTH('a) \<Longrightarrow>
   unat (ucast (x :: 'a::len word) :: 'b::len word) = unat x mod 2 ^ LENGTH('b)"
  by (rule unat_ucast)

lemma unat_drop_bit [word_val]: "unat (drop_bit n (x :: 'a::len word)) = unat x div 2 ^ n"
  by (simp add: unat_drop_bit_eq flip: drop_bit_eq_div)

lemma unat_push_bit [word_val]:
  "unat (push_bit n (x :: 'a::len word)) = unat x * 2 ^ n mod 2 ^ LENGTH('a)"
  by (simp add: unsigned_push_bit_eq take_bit_eq_mod flip: push_bit_eq_mult)

lemma unat_and_mask [word_val]:
  "unat ((x :: 'a::len word) AND mask n) = unat x mod 2 ^ n"
  by (simp add: unsigned_take_bit_eq flip: take_bit_eq_mask take_bit_eq_mod)

lemma unat_add_nowrap [word_val]:
  "unat x + unat y < 2 ^ LENGTH('a) \<Longrightarrow> unat (x + y :: 'a::len word) = unat x + unat y"
  using unat_add_lem by blast

lemma unat_mult_nowrap [word_val]:
  "unat x * unat y < 2 ^ LENGTH('a) \<Longrightarrow> unat (x * y :: 'a::len word) = unat x * unat y"
  using unat_mult_lem by blast

lemma or_push_bit_nat:
  assumes "(x :: nat) < 2 ^ n"
  shows "x OR push_bit n y = x + push_bit n y"
proof -
  have "take_bit n x = x" using assms by (simp add: take_bit_nat_eq_self)
  then have "\<not> bit x k" if "n \<le> k" for k using that by (metis bit_take_bit_iff leD)
  then show ?thesis by (intro disjunctive_add [symmetric]) (auto simp: bit_push_bit_iff)
qed

lemma unat_or_high:
  assumes "unat (x :: 'a::len word) < 2 ^ n" "unat y * 2 ^ n < 2 ^ LENGTH('a)"
  shows "unat (x OR push_bit n y) = unat x + unat y * 2 ^ n"
proof -
  have "unat (push_bit n y) = push_bit n (unat y)"
    using assms(2) by (simp add: unat_push_bit push_bit_eq_mult [where 'a = nat])
  then show ?thesis
    using or_push_bit_nat [OF assms(1)]
    by (simp add: unsigned_or_eq push_bit_eq_mult [where 'a = nat])
qed

lemma mod_base_split:
  fixes a B M r :: nat
  assumes "B > 0"
  shows "a mod B + B * ((a div B + r) mod M) = (a + B * r) mod (B * M)"
proof -
  have "(a + B * r) div B = a div B + r"
    using assms by (metis div_mult_self2 add.commute neq0_conv)
  moreover have "(a + B * r) mod B = a mod B" by simp
  ultimately show ?thesis
    by (simp add: mod_mult2_eq add.commute)
qed

section \<open>Positional numbers\<close>

text \<open>Little-endian byte strings as numbers, and numbers as byte strings of a given length.\<close>

fun le_read :: "bytes \<Rightarrow> nat" where
  "le_read [] = 0"
| "le_read (b # bs) = unat b + 256 * le_read bs"

fun le_write :: "nat \<Rightarrow> nat \<Rightarrow> bytes" where
  "le_write 0 n = []"
| "le_write (Suc k) n = of_nat n # le_write k (n div 256)"

lemma length_le_write [simp]: "length (le_write k n) = k"
  by (induction k arbitrary: n) auto

lemma le_read_bound: "le_read bs < 256 ^ length bs"
proof (induction bs)
  case (Cons b bs)
  have "unat b + 256 * le_read bs < 256 * (le_read bs + 1)" using unat_lt8 [of b] by simp
  also have "\<dots> \<le> 256 * 256 ^ length bs" using Cons by simp
  finally show ?case by simp
qed simp

lemma le_read_write: "le_read (le_write k n) = n mod 256 ^ k"
proof (induction k arbitrary: n)
  case (Suc k)
  have "le_read (le_write (Suc k) n) = n mod 256 + 256 * ((n div 256) mod 256 ^ k)"
    by (simp add: Suc unat_of_nat)
  also have "\<dots> = n mod (256 * 256 ^ k)"
    using mod_base_split [of 256 n 0 "256 ^ k"] by simp
  finally show ?case by simp
qed simp

lemma le_write_read: "le_write (length bs) (le_read bs) = bs"
  by (induction bs)
    (simp_all add: word_eq_iff_unsigned [where 'a = nat] unat_of_nat unat_lt8
      del: of_nat_add of_nat_mult)

lemma le_read_inject: "length xs = length ys \<Longrightarrow> le_read xs = le_read ys \<longleftrightarrow> xs = ys"
  by (metis le_write_read)

lemma le_read_append: "le_read (xs @ ys) = le_read xs + 256 ^ length xs * le_read ys"
  by (induction xs) (simp_all add: algebra_simps)

end
