(* ===== verification/Arith256.thy ===== *)
theory Arith256
  imports Prelude
begin

text \<open>
  The 256-bit unsigned integers of \<^verbatim>\<open>src/arith_uint256.h\<close> and \<^verbatim>\<open>src/arith_uint256.cpp\<close>.
  The class \<^verbatim>\<open>base_uint<BITS>\<close> keeps an array \<open>pn\<close> of \<open>WIDTH = BITS/32\<close> limbs, the least
  significant first; here it is the list of its limbs, and \<open>WIDTH\<close> is the length of the list.
  The operators are translated limb by limb, with the 64-bit carries of the code.
  \<open>limbs_val\<close> reads a limb list as a number, and the lemmas show that every operator computes
  the arithmetic operation modulo \<open>2 ^ BITS\<close>.
\<close>

section \<open>The class and its operators\<close>

type_synonym base_uint = "u32 list"

datatype uint_error = Division_by_zero

definition WIDTH :: nat where
  "WIDTH = 8"

definition uint_zero :: base_uint where
  "uint_zero = replicate WIDTH 0"

definition uint_of_u64 :: "u64 \<Rightarrow> base_uint" where
  "uint_of_u64 b = [ucast b, ucast (drop_bit 32 b)] @ replicate (WIDTH - 2) 0"

definition uint_is_zero :: "base_uint \<Rightarrow> bool" where
  "uint_is_zero pn = list_all (\<lambda>x. x = 0) pn"

definition uint_not :: "base_uint \<Rightarrow> base_uint" where
  "uint_not pn = map (\<lambda>x. NOT x) pn"

fun uint_inc :: "base_uint \<Rightarrow> base_uint" where
  "uint_inc [] = []"
| "uint_inc (x # xs) = (if x + 1 = 0 then (x + 1) # uint_inc xs else (x + 1) # xs)"

fun uint_dec :: "base_uint \<Rightarrow> base_uint" where
  "uint_dec [] = []"
| "uint_dec (x # xs) = (if x - 1 = - 1 then (x - 1) # uint_dec xs else (x - 1) # xs)"

definition uint_neg :: "base_uint \<Rightarrow> base_uint" where
  "uint_neg pn = uint_inc (uint_not pn)"

definition uint_xor :: "base_uint \<Rightarrow> base_uint \<Rightarrow> base_uint" where
  "uint_xor a b = map2 (\<lambda>x y. x XOR y) a b"

definition uint_and :: "base_uint \<Rightarrow> base_uint \<Rightarrow> base_uint" where
  "uint_and a b = map2 (\<lambda>x y. x AND y) a b"

definition uint_or :: "base_uint \<Rightarrow> base_uint \<Rightarrow> base_uint" where
  "uint_or a b = map2 (\<lambda>x y. x OR y) a b"

definition uint_xor64 :: "base_uint \<Rightarrow> u64 \<Rightarrow> base_uint" where
  "uint_xor64 pn b = pn[0 := pn ! 0 XOR ucast b, 1 := pn ! 1 XOR ucast (drop_bit 32 b)]"

definition uint_or64 :: "base_uint \<Rightarrow> u64 \<Rightarrow> base_uint" where
  "uint_or64 pn b = pn[0 := pn ! 0 OR ucast b, 1 := pn ! 1 OR ucast (drop_bit 32 b)]"

definition shl_step :: "base_uint \<Rightarrow> nat \<Rightarrow> nat \<Rightarrow> base_uint \<Rightarrow> nat \<Rightarrow> base_uint" where
  "shl_step a k shift pn i =
     (let pn1 = (if i + k + 1 < length a \<and> shift \<noteq> 0
                 then pn[i + k + 1 := pn ! (i + k + 1) OR drop_bit (32 - shift) (a ! i)] else pn)
      in if i + k < length a then pn1[i + k := pn1 ! (i + k) OR push_bit shift (a ! i)] else pn1)"

definition uint_shl :: "base_uint \<Rightarrow> nat \<Rightarrow> base_uint" where
  "uint_shl a shift =
     foldl (shl_step a (shift div 32) (shift mod 32)) (replicate (length a) 0) [0..<length a]"

definition shr_step :: "base_uint \<Rightarrow> nat \<Rightarrow> nat \<Rightarrow> base_uint \<Rightarrow> nat \<Rightarrow> base_uint" where
  "shr_step a k shift pn i =
     (let pn1 = (if int i - int k - 1 \<ge> 0 \<and> shift \<noteq> 0
                 then pn[i - k - 1 := pn ! (i - k - 1) OR push_bit (32 - shift) (a ! i)] else pn)
      in if int i - int k \<ge> 0 then pn1[i - k := pn1 ! (i - k) OR drop_bit shift (a ! i)] else pn1)"

definition uint_shr :: "base_uint \<Rightarrow> nat \<Rightarrow> base_uint" where
  "uint_shr a shift =
     foldl (shr_step a (shift div 32) (shift mod 32)) (replicate (length a) 0) [0..<length a]"

fun add_loop :: "u64 \<Rightarrow> base_uint \<Rightarrow> base_uint \<Rightarrow> base_uint" where
  "add_loop carry (x # xs) (y # ys) =
     (let n = carry + ucast x + ucast y
      in ucast (n AND 0xffffffff) # add_loop (drop_bit 32 n) xs ys)"
| "add_loop carry xs ys = []"

definition uint_add :: "base_uint \<Rightarrow> base_uint \<Rightarrow> base_uint" where
  "uint_add a b = add_loop 0 a b"

definition uint_sub :: "base_uint \<Rightarrow> base_uint \<Rightarrow> base_uint" where
  "uint_sub a b = uint_add a (uint_neg b)"

definition uint_add64 :: "base_uint \<Rightarrow> u64 \<Rightarrow> base_uint" where
  "uint_add64 a b64 = uint_add a (uint_of_u64 b64)"

definition uint_sub64 :: "base_uint \<Rightarrow> u64 \<Rightarrow> base_uint" where
  "uint_sub64 a b64 = uint_add a (uint_neg (uint_of_u64 b64))"

fun mul32_loop :: "u64 \<Rightarrow> u32 \<Rightarrow> base_uint \<Rightarrow> base_uint" where
  "mul32_loop carry b32 [] = []"
| "mul32_loop carry b32 (x # xs) =
     (let n = carry + ucast b32 * ucast x
      in ucast (n AND 0xffffffff) # mul32_loop (drop_bit 32 n) b32 xs)"

definition uint_mul32 :: "base_uint \<Rightarrow> u32 \<Rightarrow> base_uint" where
  "uint_mul32 pn b32 = mul32_loop 0 b32 pn"

text \<open>
  The inner loop of the schoolbook multiplication walks \<open>pn[j..]\<close> and \<open>b[0..]\<close> together; the
  outer loop runs it once for every limb \<open>a[j]\<close>.
\<close>

fun mul_inner :: "u32 \<Rightarrow> u64 \<Rightarrow> base_uint \<Rightarrow> base_uint \<Rightarrow> base_uint" where
  "mul_inner aj carry (p # ps) (y # ys) =
     (let n = carry + ucast p + ucast aj * ucast y
      in ucast (n AND 0xffffffff) # mul_inner aj (drop_bit 32 n) ps ys)"
| "mul_inner aj carry ps ys = ps"

definition mul_row :: "base_uint \<Rightarrow> base_uint \<Rightarrow> base_uint \<Rightarrow> nat \<Rightarrow> base_uint" where
  "mul_row a b pn j = take j pn @ mul_inner (a ! j) 0 (drop j pn) b"

definition uint_mul :: "base_uint \<Rightarrow> base_uint \<Rightarrow> base_uint" where
  "uint_mul a b = foldl (mul_row a b) (replicate (length a) 0) [0..<length a]"

fun cmp_loop :: "base_uint \<Rightarrow> base_uint \<Rightarrow> int" where
  "cmp_loop (x # xs) (y # ys) = (if x < y then - 1 else if x > y then 1 else cmp_loop xs ys)"
| "cmp_loop xs ys = 0"

definition CompareTo :: "base_uint \<Rightarrow> base_uint \<Rightarrow> int" where
  "CompareTo a b = cmp_loop (rev a) (rev b)"

definition EqualTo :: "base_uint \<Rightarrow> u64 \<Rightarrow> bool" where
  "EqualTo pn b =
     (if list_ex (\<lambda>x. x \<noteq> 0) (drop 2 pn) then False
      else if ucast (pn ! 1) \<noteq> drop_bit 32 b then False
      else if ucast (pn ! 0) \<noteq> b AND 0xffffffff then False
      else True)"

fun limb_bits :: "u32 \<Rightarrow> nat \<Rightarrow> nat" where
  "limb_bits x 0 = 1"
| "limb_bits x (Suc n) = (if x AND push_bit (Suc n) 1 \<noteq> 0 then Suc n + 1 else limb_bits x n)"

fun bits_loop :: "base_uint \<Rightarrow> nat" where
  "bits_loop [] = 0"
| "bits_loop (x # xs) = (if x \<noteq> 0 then 32 * length xs + limb_bits x 31 else bits_loop xs)"

definition uint_bits :: "base_uint \<Rightarrow> nat" where
  "uint_bits pn = bits_loop (rev pn)"

definition uint_set_bit :: "nat \<Rightarrow> base_uint \<Rightarrow> base_uint" where
  "uint_set_bit shift pn =
     pn[shift div 32 := pn ! (shift div 32) OR push_bit (shift mod 32) 1]"

text \<open>One call of \<open>div_loop\<close> with \<open>Suc shift\<close> is the iteration of the loop at \<open>shift\<close>.\<close>

fun div_loop :: "nat \<Rightarrow> base_uint \<Rightarrow> base_uint \<Rightarrow> base_uint \<Rightarrow> base_uint" where
  "div_loop 0 num dv quot = quot"
| "div_loop (Suc shift) num dv quot =
     (if CompareTo num dv \<ge> 0
      then div_loop shift (uint_sub num dv) (uint_shr dv 1) (uint_set_bit shift quot)
      else div_loop shift num (uint_shr dv 1) quot)"

definition uint_div :: "base_uint \<Rightarrow> base_uint \<Rightarrow> uint_error + base_uint" where
  "uint_div a b =
     (let num_bits = uint_bits a; div_bits = uint_bits b in
      if div_bits = 0 then Inl Division_by_zero
      else if div_bits > num_bits then Inr (replicate (length a) 0)
      else let shift = num_bits - div_bits
           in Inr (div_loop (Suc shift) a (uint_shl b shift) (replicate (length a) 0)))"

definition GetLow64 :: "base_uint \<Rightarrow> u64" where
  "GetLow64 pn = ucast (pn ! 0) OR push_bit 32 (ucast (pn ! 1))"

section \<open>The compact encoding of difficulty targets\<close>

definition SetCompact :: "u32 \<Rightarrow> base_uint \<times> bool \<times> bool" where
  "SetCompact nCompact =
     (let nSize = unat (drop_bit 24 nCompact);
          nWord0 = nCompact AND 0x007fffff;
          nWord = (if nSize \<le> 3 then drop_bit (8 * (3 - nSize)) nWord0 else nWord0);
          val = (if nSize \<le> 3 then uint_of_u64 (ucast nWord)
                 else uint_shl (uint_of_u64 (ucast nWord)) (8 * (nSize - 3)));
          fNegative = (nWord \<noteq> 0 \<and> nCompact AND 0x00800000 \<noteq> 0);
          fOverflow = (nWord \<noteq> 0 \<and> (nSize > 34 \<or> (nWord > 0xff \<and> nSize > 33)
                                     \<or> (nWord > 0xffff \<and> nSize > 32)))
      in (val, fNegative, fOverflow))"

text \<open>\<open>None\<close> stands for a failed assertion.\<close>

definition GetCompact :: "base_uint \<Rightarrow> bool \<Rightarrow> u32 option" where
  "GetCompact pn fNegative =
     (let nSize0 = (uint_bits pn + 7) div 8;
          nCompact0 = (if nSize0 \<le> 3 then ucast (push_bit (8 * (3 - nSize0)) (GetLow64 pn))
                       else ucast (GetLow64 (uint_shr pn (8 * (nSize0 - 3))))) :: u32;
          carry = (nCompact0 AND 0x00800000 \<noteq> 0);
          nCompact1 = (if carry then drop_bit 8 nCompact0 else nCompact0);
          nSize = (if carry then nSize0 + 1 else nSize0)
      in if nCompact1 AND NOT 0x007fffff \<noteq> 0 then None
         else if \<not> nSize < 256 then None
         else let nCompact2 = nCompact1 OR push_bit 24 (of_nat nSize)
              in Some (nCompact2 OR
                   (if fNegative \<and> nCompact2 AND 0x007fffff \<noteq> 0 then 0x00800000 else 0)))"

section \<open>Limb lists as numbers\<close>

fun limbs_val :: "base_uint \<Rightarrow> nat" where
  "limbs_val [] = 0"
| "limbs_val (x # xs) = unat x + 2 ^ 32 * limbs_val xs"

lemma limbs_val_bound: "limbs_val xs < 2 ^ (32 * length xs)"
proof (induction xs)
  case (Cons x xs)
  have "limbs_val (x # xs) < 2 ^ 32 * (limbs_val xs + 1)" by (simp add: unat_lt32)
  also have "\<dots> \<le> 2 ^ 32 * 2 ^ (32 * length xs)"
    using Cons by (intro mult_le_mono2) simp
  finally show ?case by (simp add: power_add)
qed simp

lemma limbs_val_append: "limbs_val (xs @ ys) = limbs_val xs + 2 ^ (32 * length xs) * limbs_val ys"
  by (induction xs) (simp_all add: algebra_simps power_add)

lemma limbs_val_replicate_0 [simp]: "limbs_val (replicate n 0) = 0"
  by (induction n) simp_all

lemma limbs_val_inject: "length xs = length ys \<Longrightarrow> limbs_val xs = limbs_val ys \<longleftrightarrow> xs = ys"
proof (induction xs ys rule: list_induct2)
  case (Cons x xs y ys)
  have "limbs_val (x # xs) = limbs_val (y # ys) \<longleftrightarrow> unat x = unat y \<and> limbs_val xs = limbs_val ys"
  proof
    assume eq: "limbs_val (x # xs) = limbs_val (y # ys)"
    have "unat x = limbs_val (x # xs) mod 2 ^ 32" and "unat y = limbs_val (y # ys) mod 2 ^ 32"
      by simp_all
    moreover have "limbs_val xs = limbs_val (x # xs) div 2 ^ 32"
      and "limbs_val ys = limbs_val (y # ys) div 2 ^ 32"
      by simp_all
    ultimately show "unat x = unat y \<and> limbs_val xs = limbs_val ys" using eq by metis
  qed simp
  then show ?case using Cons.IH by (simp add: word_eq_iff_unsigned [where 'a = nat])
qed simp

lemma bit_limbs_val:
  "bit (limbs_val xs) n \<longleftrightarrow> n div 32 < length xs \<and> bit (xs ! (n div 32)) (n mod 32)"
proof (induction xs arbitrary: n)
  case (Cons x xs)
  show ?case
  proof (cases "n < 32")
    case True
    have "bit (limbs_val (x # xs)) n \<longleftrightarrow> bit (take_bit 32 (limbs_val (x # xs))) n"
      using True by (simp add: bit_take_bit_iff)
    also have "take_bit 32 (limbs_val (x # xs)) = unat x"
      by (simp add: take_bit_eq_mod)
    finally show ?thesis using True by (simp add: bit_unsigned_iff)
  next
    case False
    have "bit (limbs_val (x # xs)) n \<longleftrightarrow> bit (drop_bit 32 (limbs_val (x # xs))) (n - 32)"
      using False by (simp add: bit_drop_bit_eq)
    also have "drop_bit 32 (limbs_val (x # xs)) = limbs_val xs"
      by (simp add: drop_bit_eq_div)
    finally have "bit (limbs_val (x # xs)) n \<longleftrightarrow>
        (n - 32) div 32 < length xs \<and> bit (xs ! ((n - 32) div 32)) ((n - 32) mod 32)"
      using Cons by simp
    moreover have "n div 32 = Suc ((n - 32) div 32)" and "n mod 32 = (n - 32) mod 32"
      using False by (simp_all add: le_div_geq le_mod_geq)
    ultimately show ?thesis by simp
  qed
qed simp

lemma bit_limbs_val_at:
  "r < 32 \<Longrightarrow> bit (limbs_val xs) (32 * j + r) \<longleftrightarrow> j < length xs \<and> bit (xs ! j) r"
  by (simp add: bit_limbs_val)

lemma limbs_val_of_u64: "limbs_val (uint_of_u64 b) = unat b"
proof -
  have "unat b mod 2 ^ 32 + 2 ^ 32 * (unat b div 2 ^ 32 mod 2 ^ 32) = unat b"
    using mod_base_split [of "2 ^ 32" "unat b" 0 "2 ^ 32"] by simp
  then show ?thesis
    by (simp add: uint_of_u64_def word_val)
qed

lemma length_uint_of_u64 [simp]: "length (uint_of_u64 b) = WIDTH"
  by (simp add: uint_of_u64_def WIDTH_def)

lemma uint_is_zero_iff: "uint_is_zero pn \<longleftrightarrow> limbs_val pn = 0"
  by (induction pn) (simp_all add: uint_is_zero_def unsigned_eq_0_iff)

section \<open>Addition, subtraction and negation\<close>

lemma low32_mask: "(0xffffffff :: u64) = mask 32"
  by (simp add: mask_eq_exp_minus_1)

lemma unat_low32: "unat (ucast ((n :: u64) AND 0xffffffff) :: u32) = unat n mod 2 ^ 32"
  unfolding low32_mask by (simp add: unat_ucast unat_and_mask)

lemma length_add_loop [simp]: "length (add_loop c xs ys) = min (length xs) (length ys)"
  by (induction c xs ys rule: add_loop.induct) (simp_all add: Let_def)

lemma add_loop_val:
  "length xs = length ys \<Longrightarrow> unat c \<le> 1 \<Longrightarrow>
   limbs_val (add_loop c xs ys) = (unat c + limbs_val xs + limbs_val ys) mod 2 ^ (32 * length xs)"
proof (induction c xs ys rule: add_loop.induct)
  case (1 c x xs y ys)
  define n :: u64 where "n = c + ucast x + ucast y"
  have ux: "unat (ucast x :: u64) = unat x" and uy: "unat (ucast y :: u64) = unat y"
    by simp_all
  have b: "unat c + unat x + unat y < 2 ^ 64"
    using 1(3) unat_lt32 [of x] unat_lt32 [of y] by simp
  have "unat (c + ucast x) = unat c + unat x"
    using b by (subst unat_add_nowrap) (simp_all add: ux)
  then have n: "unat n = unat c + unat x + unat y"
    unfolding n_def using b by (subst unat_add_nowrap) (simp_all add: uy)
  have carry: "unat (drop_bit 32 n) \<le> 1"
  proof -
    have "unat n < 2 * 2 ^ 32" using n 1(3) unat_lt32 [of x] unat_lt32 [of y] by simp
    then have "unat n div 2 ^ 32 < 2" by (simp add: less_mult_imp_div_less)
    then show ?thesis by (simp add: unat_drop_bit)
  qed
  have "limbs_val (add_loop c (x # xs) (y # ys)) =
      unat n mod 2 ^ 32 + 2 ^ 32 * limbs_val (add_loop (drop_bit 32 n) xs ys)"
    by (simp add: n_def Let_def unat_low32)
  also have "limbs_val (add_loop (drop_bit 32 n) xs ys) =
      (unat n div 2 ^ 32 + (limbs_val xs + limbs_val ys)) mod 2 ^ (32 * length xs)"
    using 1(1) [OF n_def _ carry] 1(2) by (simp add: unat_drop_bit add.assoc)
  also have "unat n mod 2 ^ 32 + 2 ^ 32 * \<dots> =
      (unat n + 2 ^ 32 * (limbs_val xs + limbs_val ys)) mod (2 ^ 32 * 2 ^ (32 * length xs))"
    by (rule mod_base_split) simp
  finally show ?case
    by (simp add: n power_add algebra_simps)
qed simp_all

lemma length_uint_add [simp]: "length (uint_add a b) = min (length a) (length b)"
  by (simp add: uint_add_def)

lemma uint_add_val:
  "length a = length b \<Longrightarrow>
   limbs_val (uint_add a b) = (limbs_val a + limbs_val b) mod 2 ^ (32 * length a)"
  by (simp add: uint_add_def add_loop_val)

lemma unat_not: "unat (NOT x :: u32) = 2 ^ 32 - 1 - unat x"
proof -
  have "NOT x = - 1 - x" by (simp add: not_eq_complement)
  moreover have "unat (- 1 - x) = unat (- 1 :: u32) - unat x"
    by (rule unat_sub) simp
  ultimately show ?thesis by (simp add: unsigned_minus_1_eq_mask mask_eq_exp_minus_1)
qed

lemma length_uint_not [simp]: "length (uint_not xs) = length xs"
  by (simp add: uint_not_def)

lemma uint_not_val_sum: "limbs_val (uint_not xs) + limbs_val xs + 1 = 2 ^ (32 * length xs)"
proof (induction xs)
  case (Cons x xs)
  have "limbs_val (uint_not (x # xs)) + limbs_val (x # xs) + 1 =
      2 ^ 32 * (limbs_val (uint_not xs) + limbs_val xs + 1)"
    using unat_lt32 [of x] by (simp add: uint_not_def unat_not)
  then show ?case using Cons by (simp add: power_add)
qed (simp add: uint_not_def)

lemma uint_not_val: "limbs_val (uint_not xs) = 2 ^ (32 * length xs) - 1 - limbs_val xs"
  using uint_not_val_sum [of xs] by simp

lemma length_uint_inc [simp]: "length (uint_inc xs) = length xs"
  by (induction xs) simp_all

lemma uint_inc_val: "limbs_val (uint_inc xs) = (limbs_val xs + 1) mod 2 ^ (32 * length xs)"
proof (induction xs)
  case (Cons x xs)
  have step: "unat (x + 1) = (unat x + 1) mod 2 ^ 32"
    by (simp add: unat_word_ariths)
  show ?case
  proof (cases "x + 1 = 0")
    case True
    then have "(unat x + 1) mod 2 ^ 32 = 0" using step by simp
    then have x: "unat x + 1 = 2 ^ 32"
      using unat_lt32 [of x] by (cases "unat x + 1 < 2 ^ 32") simp_all
    have "(limbs_val (x # xs) + 1) mod 2 ^ (32 * length (x # xs)) =
        (2 ^ 32 * (limbs_val xs + 1)) mod (2 ^ 32 * 2 ^ (32 * length xs))"
      using x by (simp add: power_add)
    then show ?thesis using True Cons by (simp only: mod_mult_mult1) simp
  next
    case False
    then have "(unat x + 1) mod 2 ^ 32 \<noteq> 0" using step unat_0_iff by metis
    then have "unat x + 1 \<noteq> 2 ^ 32" by auto
    then have x: "unat (x + 1) = unat x + 1"
      using unat_lt32 [of x] step by simp
    have "limbs_val ((x + 1) # xs) < 2 ^ (32 * length (x # xs))"
      using limbs_val_bound [of "(x + 1) # xs"] by simp
    then show ?thesis using False x by simp
  qed
qed simp

lemma length_uint_neg [simp]: "length (uint_neg xs) = length xs"
  by (simp add: uint_neg_def)

lemma uint_neg_val:
  "limbs_val (uint_neg xs) = (2 ^ (32 * length xs) - limbs_val xs) mod 2 ^ (32 * length xs)"
  using uint_not_val_sum [of xs] by (simp add: uint_neg_def uint_inc_val uint_not_val Suc_diff_Suc)

lemma length_uint_sub [simp]: "length (uint_sub a b) = min (length a) (length b)"
  by (simp add: uint_sub_def)

lemma uint_sub_val:
  assumes "length a = length b"
  shows "limbs_val (uint_sub a b) =
    (limbs_val a + (2 ^ (32 * length a) - limbs_val b)) mod 2 ^ (32 * length a)"
  using assms by (simp add: uint_sub_def uint_add_val uint_neg_val mod_simps)

lemma uint_sub_val_le:
  assumes "length a = length b" and "limbs_val b \<le> limbs_val a"
  shows "limbs_val (uint_sub a b) = limbs_val a - limbs_val b"
proof -
  have "limbs_val a + (2 ^ (32 * length a) - limbs_val b) =
      (limbs_val a - limbs_val b) + 2 ^ (32 * length a)"
    using assms limbs_val_bound [of b] by simp
  then have "limbs_val (uint_sub a b) = (limbs_val a - limbs_val b) mod 2 ^ (32 * length a)"
    by (simp only: uint_sub_val [OF assms(1)] mod_add_self2)
  then show ?thesis
    using limbs_val_bound [of a] by simp
qed

section \<open>Multiplication\<close>

lemma length_mul32_loop [simp]: "length (mul32_loop c b xs) = length xs"
  by (induction c b xs rule: mul32_loop.induct) (simp_all add: Let_def)

text \<open>A product of two limbs plus two limbs fits into 64 bits.\<close>

lemma muladd_bound:
  fixes a b c d :: nat
  assumes "a < 2 ^ 32" "b < 2 ^ 32" "c < 2 ^ 32" "d < 2 ^ 32"
  shows "c + d + a * b < 2 ^ 64"
proof -
  have "a * b \<le> (2 ^ 32 - 1) * (2 ^ 32 - 1)"
    using assms by (intro mult_le_mono) auto
  then show ?thesis using assms by simp
qed

lemma unat_muladd:
  fixes c :: u64 and p a y :: u32
  assumes "unat c < 2 ^ 32"
  shows "unat (c + ucast p + ucast a * ucast y) = unat c + unat p + unat a * unat y"
proof -
  have b: "unat c + unat p + unat a * unat y < 2 ^ 64"
    using assms unat_lt32 by (intro muladd_bound) simp_all
  have m: "unat (ucast a * ucast y :: u64) = unat a * unat y"
    using b by (subst unat_mult_nowrap) simp_all
  have "unat (c + ucast p) = unat c + unat p"
    using b by (subst unat_add_nowrap) simp_all
  then show ?thesis
    using b by (subst unat_add_nowrap) (simp_all add: m)
qed

lemma carry_lt: "unat (drop_bit 32 (n :: u64)) < 2 ^ 32"
  using unat_lt64 [of n] by (simp add: unat_drop_bit less_mult_imp_div_less)

lemma mul32_loop_val:
  "unat c < 2 ^ 32 \<Longrightarrow>
   limbs_val (mul32_loop c b xs) = (unat c + unat b * limbs_val xs) mod 2 ^ (32 * length xs)"
proof (induction c b xs rule: mul32_loop.induct)
  case (2 c b x xs)
  define n :: u64 where "n = c + ucast b * ucast x"
  have n: "unat n = unat c + unat b * unat x"
    using unat_muladd [of c 0 b x] 2(2) by (simp add: n_def)
  have "limbs_val (mul32_loop c b (x # xs)) =
      unat n mod 2 ^ 32 + 2 ^ 32 * ((unat n div 2 ^ 32 + unat b * limbs_val xs) mod 2 ^ (32 * length xs))"
    using 2(1) [OF n_def carry_lt] by (simp add: n_def [symmetric] Let_def unat_low32 unat_drop_bit)
  also have "\<dots> = (unat n + 2 ^ 32 * (unat b * limbs_val xs)) mod (2 ^ 32 * 2 ^ (32 * length xs))"
    by (rule mod_base_split) simp
  finally show ?case by (simp add: n power_add algebra_simps)
qed simp

lemma uint_mul32_val:
  "limbs_val (uint_mul32 a b) = (limbs_val a * unat b) mod 2 ^ (32 * length a)"
  by (simp add: uint_mul32_def mul32_loop_val mult.commute)

lemma length_mul_inner [simp]: "length (mul_inner a c ps ys) = length ps"
  by (induction a c ps ys rule: mul_inner.induct) (simp_all add: Let_def)

lemma mul_inner_val:
  "length ps \<le> length ys \<Longrightarrow> unat c < 2 ^ 32 \<Longrightarrow>
   limbs_val (mul_inner a c ps ys) =
     (unat c + limbs_val ps + unat a * limbs_val ys) mod 2 ^ (32 * length ps)"
proof (induction a c ps ys rule: mul_inner.induct)
  case (1 a c p ps y ys)
  define n :: u64 where "n = c + ucast p + ucast a * ucast y"
  have n: "unat n = unat c + unat p + unat a * unat y"
    using 1(3) by (simp add: n_def unat_muladd)
  have "limbs_val (mul_inner a c (p # ps) (y # ys)) =
      unat n mod 2 ^ 32 + 2 ^ 32 * ((unat n div 2 ^ 32 + (limbs_val ps + unat a * limbs_val ys))
        mod 2 ^ (32 * length ps))"
    using 1(1) [OF n_def _ carry_lt] 1(2)
    by (simp add: n_def [symmetric] Let_def unat_low32 unat_drop_bit)
      (simp add: add.assoc)
  also have "\<dots> = (unat n + 2 ^ 32 * (limbs_val ps + unat a * limbs_val ys))
      mod (2 ^ 32 * 2 ^ (32 * length ps))"
    by (rule mod_base_split) simp
  finally show ?case by (simp add: n power_add algebra_simps)
qed simp_all

lemma length_mul_row [simp]: "j \<le> length pn \<Longrightarrow> length (mul_row a b pn j) = length pn"
  by (simp add: mul_row_def)

lemma mul_row_val:
  assumes "j < length pn" and "length b = length pn"
  shows "limbs_val (mul_row a b pn j) =
    (limbs_val pn + 2 ^ (32 * j) * unat (a ! j) * limbs_val b) mod 2 ^ (32 * length pn)"
proof -
  let ?W = "length pn" and ?d = "drop j pn" and ?t = "take j pn"
  have split: "limbs_val pn = limbs_val ?t + 2 ^ (32 * j) * limbs_val ?d"
    using assms limbs_val_append [of ?t ?d] by simp
  have W: "2 ^ (32 * ?W) = 2 ^ (32 * j) * (2 :: nat) ^ (32 * (?W - j))"
    using assms by (simp flip: power_add distrib_left)
  have lt: "limbs_val ?t < 2 ^ (32 * j)"
    using limbs_val_bound [of ?t] assms by simp
  have "limbs_val (mul_row a b pn j) = limbs_val ?t + 2 ^ (32 * j) *
      ((limbs_val ?d + unat (a ! j) * limbs_val b) mod 2 ^ (32 * (?W - j)))"
    using assms by (simp add: mul_row_def limbs_val_append mul_inner_val)
  also have "\<dots> = (limbs_val ?t + 2 ^ (32 * j) * (limbs_val ?d + unat (a ! j) * limbs_val b))
      mod (2 ^ (32 * j) * 2 ^ (32 * (?W - j)))"
    using mod_base_split [of "2 ^ (32 * j)" "limbs_val ?t"
        "limbs_val ?d + unat (a ! j) * limbs_val b" "2 ^ (32 * (?W - j))"] lt by simp
  finally show ?thesis by (simp only: W split distrib_left add.assoc mult.assoc)
qed

lemma limbs_val_take_Suc:
  "j < length a \<Longrightarrow> limbs_val (take (Suc j) a) = limbs_val (take j a) + 2 ^ (32 * j) * unat (a ! j)"
  by (simp add: take_Suc_conv_app_nth limbs_val_append)

lemma mul_rows_val:
  assumes "length b = length a" and "j \<le> length a"
  shows "length (foldl (mul_row a b) (replicate (length a) 0) [0..<j]) = length a \<and>
    limbs_val (foldl (mul_row a b) (replicate (length a) 0) [0..<j]) =
      limbs_val (take j a) * limbs_val b mod 2 ^ (32 * length a)"
  using assms(2)
proof (induction j)
  case (Suc j)
  let ?pn = "foldl (mul_row a b) (replicate (length a) 0) [0..<j]"
  have len: "length ?pn = length a"
    and val: "limbs_val ?pn = limbs_val (take j a) * limbs_val b mod 2 ^ (32 * length a)"
    using Suc by simp_all
  have "limbs_val (mul_row a b ?pn j) =
      (limbs_val ?pn + 2 ^ (32 * j) * unat (a ! j) * limbs_val b) mod 2 ^ (32 * length a)"
    using mul_row_val [of j ?pn b a] len assms(1) Suc.prems by simp
  also have "\<dots> = limbs_val (take (Suc j) a) * limbs_val b mod 2 ^ (32 * length a)"
    using Suc.prems by (simp add: val limbs_val_take_Suc mod_simps algebra_simps)
  finally show ?case using len Suc.prems by simp
qed simp

lemma length_uint_mul [simp]: "length b = length a \<Longrightarrow> length (uint_mul a b) = length a"
  using mul_rows_val [of b a "length a"] by (simp add: uint_mul_def)

lemma uint_mul_val:
  "length b = length a \<Longrightarrow>
   limbs_val (uint_mul a b) = limbs_val a * limbs_val b mod 2 ^ (32 * length a)"
  using mul_rows_val [of b a "length a"] by (simp add: uint_mul_def)

section \<open>Shifts\<close>

lemma length_shl_step [simp]: "length (shl_step a k s pn i) = length pn"
  by (simp add: shl_step_def Let_def)

lemma length_shl_fold [simp]: "length (foldl (shl_step a k s) pn is) = length pn"
  by (induction "is" arbitrary: pn) simp_all

lemma length_uint_shl [simp]: "length (uint_shl a n) = length a"
  by (simp add: uint_shl_def)

definition shl_limb :: "base_uint \<Rightarrow> nat \<Rightarrow> nat \<Rightarrow> nat \<Rightarrow> nat \<Rightarrow> u32" where
  "shl_limb a k s m j =
     (if k < j \<and> j - k - 1 < m \<and> s \<noteq> 0 then drop_bit (32 - s) (a ! (j - k - 1)) else 0) OR
     (if k \<le> j \<and> j - k < m then push_bit s (a ! (j - k)) else 0)"

lemma shl_step_nth:
  "length pn = length a \<Longrightarrow> i < length a \<Longrightarrow> j < length a \<Longrightarrow>
   shl_step a k s pn i ! j = pn ! j OR
     (if j = i + k + 1 \<and> s \<noteq> 0 then drop_bit (32 - s) (a ! i) else 0) OR
     (if j = i + k then push_bit s (a ! i) else 0)"
  by (auto simp: shl_step_def Let_def nth_list_update)

lemma shl_fold_nth:
  "m \<le> length a \<Longrightarrow> j < length a \<Longrightarrow>
   foldl (shl_step a k s) (replicate (length a) 0) [0..<m] ! j = shl_limb a k s m j"
proof (induction m arbitrary: j)
  case 0
  then show ?case by (simp add: shl_limb_def)
next
  case (Suc m)
  let ?pn = "foldl (shl_step a k s) (replicate (length a) 0) [0..<m]"
  have IH: "\<And>i. i < length a \<Longrightarrow> ?pn ! i = shl_limb a k s m i" using Suc by simp
  have "shl_step a k s ?pn m ! j = shl_limb a k s (Suc m) j"
    using Suc.prems IH [of j] by (subst shl_step_nth) (auto simp: shl_limb_def less_Suc_eq)
  then show ?case by simp
qed

lemma uint_shl_nth: "j < length a \<Longrightarrow> uint_shl a n ! j = shl_limb a (n div 32) (n mod 32) (length a) j"
  by (simp add: uint_shl_def shl_fold_nth)

lemma bit_u32_lt: "bit (x :: u32) n \<Longrightarrow> n < 32"
  using bit_imp_le_length [of x n] by simp

lemma bit_shl_limb:
  assumes "j < length a" and "r < 32"
  shows "bit (shl_limb a (n div 32) (n mod 32) (length a) j) r \<longleftrightarrow>
    n \<le> 32 * j + r \<and> bit (limbs_val a) (32 * j + r - n)"
proof -
  define k s where "k = n div 32" and "s = n mod 32"
  have n: "n = 32 * k + s" and s: "s < 32" by (simp_all add: k_def s_def)
  consider (lo) "j < k" | (eq) "j = k" | (hi) "k < j" by linarith
  then show ?thesis
  proof cases
    case lo
    then show ?thesis using n s assms by (simp add: shl_limb_def)
  next
    case eq
    then show ?thesis using n s assms
      by (auto simp: shl_limb_def bit_push_bit_iff bit_limbs_val)
  next
    case hi
    show ?thesis
    proof (cases "s \<le> r")
      case True
      have "32 * j + r - n = 32 * (j - k) + (r - s)" using hi n True by (simp add: algebra_simps)
      then have "bit (limbs_val a) (32 * j + r - n) \<longleftrightarrow> bit (a ! (j - k)) (r - s)"
        using assms bit_limbs_val_at [of "r - s" a "j - k"] by (simp only:) auto
      moreover have "\<not> bit (drop_bit (32 - s) (a ! (j - k - 1))) r"
        using True s bit_u32_lt [of "a ! (j - k - 1)" "32 - s + r"] by (auto simp: bit_drop_bit_eq)
      ultimately show ?thesis using hi n True assms s
        by (auto simp: shl_limb_def bit_push_bit_iff bit_or_iff)
    next
      case False
      have "32 * j + r - n = 32 * (j - k - 1) + (32 - s + r)" using hi n False s by (simp add: algebra_simps)
      then have "bit (limbs_val a) (32 * j + r - n) \<longleftrightarrow> bit (a ! (j - k - 1)) (32 - s + r)"
        using assms False s bit_limbs_val_at [of "32 - s + r" a "j - k - 1"] by (simp only:) auto
      then show ?thesis using hi n False assms s
        by (auto simp: shl_limb_def bit_push_bit_iff bit_or_iff bit_drop_bit_eq)
    qed
  qed
qed

lemma uint_shl_val: "limbs_val (uint_shl a n) = limbs_val a * 2 ^ n mod 2 ^ (32 * length a)"
proof -
  have "limbs_val (uint_shl a n) = take_bit (32 * length a) (push_bit n (limbs_val a))"
  proof (rule bit_eqI)
    fix m :: nat
    have dm: "32 * (m div 32) + m mod 32 = m" by simp
    show "bit (limbs_val (uint_shl a n)) m \<longleftrightarrow>
        bit (take_bit (32 * length a) (push_bit n (limbs_val a))) m"
    proof (cases "m div 32 < length a")
      case True
      then have "m < 32 * length a" by linarith
      moreover have "bit (limbs_val (uint_shl a n)) m \<longleftrightarrow> n \<le> m \<and> bit (limbs_val a) (m - n)"
        using bit_shl_limb [OF True, of "m mod 32" n] dm True
        by (simp add: bit_limbs_val [of "uint_shl a n"] uint_shl_nth)
      ultimately show ?thesis
        by (simp add: bit_take_bit_iff bit_push_bit_iff)
    next
      case False
      then have "\<not> m < 32 * length a" by linarith
      with False show ?thesis
        by (simp add: bit_limbs_val [of "uint_shl a n"] bit_take_bit_iff)
    qed
  qed
  then show ?thesis by (simp add: take_bit_eq_mod push_bit_eq_mult)
qed

lemma length_shr_step [simp]: "length (shr_step a k s pn i) = length pn"
  by (simp add: shr_step_def Let_def)

lemma length_shr_fold [simp]: "length (foldl (shr_step a k s) pn is) = length pn"
  by (induction "is" arbitrary: pn) simp_all

lemma length_uint_shr [simp]: "length (uint_shr a n) = length a"
  by (simp add: uint_shr_def)

definition shr_limb :: "base_uint \<Rightarrow> nat \<Rightarrow> nat \<Rightarrow> nat \<Rightarrow> nat \<Rightarrow> u32" where
  "shr_limb a k s m j =
     (if j + k < m then drop_bit s (a ! (j + k)) else 0) OR
     (if j + k + 1 < m \<and> s \<noteq> 0 then push_bit (32 - s) (a ! (j + k + 1)) else 0)"

lemma shr_step_nth:
  "length pn = length a \<Longrightarrow> i < length a \<Longrightarrow> j < length a \<Longrightarrow>
   shr_step a k s pn i ! j = pn ! j OR
     (if i = j + k then drop_bit s (a ! i) else 0) OR
     (if i = j + k + 1 \<and> s \<noteq> 0 then push_bit (32 - s) (a ! i) else 0)"
  by (auto simp: shr_step_def Let_def nth_list_update)

lemma shr_fold_nth:
  "m \<le> length a \<Longrightarrow> j < length a \<Longrightarrow>
   foldl (shr_step a k s) (replicate (length a) 0) [0..<m] ! j = shr_limb a k s m j"
proof (induction m arbitrary: j)
  case 0
  then show ?case by (simp add: shr_limb_def)
next
  case (Suc m)
  let ?pn = "foldl (shr_step a k s) (replicate (length a) 0) [0..<m]"
  have IH: "\<And>i. i < length a \<Longrightarrow> ?pn ! i = shr_limb a k s m i" using Suc by simp
  have "shr_step a k s ?pn m ! j = shr_limb a k s (Suc m) j"
    using Suc.prems IH [of j] by (subst shr_step_nth) (auto simp: shr_limb_def less_Suc_eq)
  then show ?case by simp
qed

lemma uint_shr_nth: "j < length a \<Longrightarrow> uint_shr a n ! j = shr_limb a (n div 32) (n mod 32) (length a) j"
  by (simp add: uint_shr_def shr_fold_nth)

lemma bit_shr_limb:
  assumes "j < length a" and "r < 32"
  shows "bit (shr_limb a (n div 32) (n mod 32) (length a) j) r \<longleftrightarrow> bit (limbs_val a) (32 * j + r + n)"
proof -
  define k s where "k = n div 32" and "s = n mod 32"
  have n: "n = 32 * k + s" and s: "s < 32" by (simp_all add: k_def s_def)
  show ?thesis
  proof (cases "r + s < 32")
    case True
    have "32 * j + r + n = 32 * (j + k) + (r + s)" using n by simp
    then have b: "bit (limbs_val a) (32 * j + r + n) \<longleftrightarrow> j + k < length a \<and> bit (a ! (j + k)) (r + s)"
      using True by (simp only: bit_limbs_val_at)
    have "\<not> bit (push_bit (32 - s) (a ! (j + k + 1))) r"
      using True s by (auto simp: bit_push_bit_iff)
    then show ?thesis unfolding b k_def [symmetric] s_def [symmetric]
      by (auto simp: shr_limb_def bit_or_iff bit_drop_bit_eq add.commute)
  next
    case False
    have "32 * j + r + n = 32 * (j + k + 1) + (r + s - 32)" using n False by simp
    then have b: "bit (limbs_val a) (32 * j + r + n) \<longleftrightarrow>
        j + k + 1 < length a \<and> bit (a ! (j + k + 1)) (r + s - 32)"
      using assms s by (simp only: bit_limbs_val_at)
    have "\<not> bit (drop_bit s (a ! (j + k))) r"
      using False bit_u32_lt [of "a ! (j + k)" "s + r"] by (auto simp: bit_drop_bit_eq)
    then show ?thesis unfolding b k_def [symmetric] s_def [symmetric] using False assms s
      by (auto simp: shr_limb_def bit_or_iff bit_push_bit_iff)
  qed
qed

lemma uint_shr_val: "limbs_val (uint_shr a n) = limbs_val a div 2 ^ n"
proof -
  have "limbs_val (uint_shr a n) = drop_bit n (limbs_val a)"
  proof (rule bit_eqI)
    fix m :: nat
    have dm: "32 * (m div 32) + m mod 32 = m" by simp
    show "bit (limbs_val (uint_shr a n)) m \<longleftrightarrow> bit (drop_bit n (limbs_val a)) m"
    proof (cases "m div 32 < length a")
      case True
      then show ?thesis
        using bit_shr_limb [of "m div 32" a "m mod 32" n] dm
        by (simp add: bit_limbs_val [of "uint_shr a n"] uint_shr_nth bit_drop_bit_eq add.commute)
    next
      case False
      then have "\<not> (n + m) div 32 < length a"
        by (meson div_le_mono le_add2 le_trans not_le)
      with False show ?thesis
        by (simp add: bit_limbs_val bit_drop_bit_eq)
    qed
  qed
  then show ?thesis by (simp add: drop_bit_eq_div)
qed

section \<open>Comparison\<close>

lemma cmp_loop_append:
  "length xs = length ys \<Longrightarrow>
   cmp_loop (xs @ us) (ys @ vs) = (if cmp_loop xs ys = 0 then cmp_loop us vs else cmp_loop xs ys)"
  by (induction xs ys rule: list_induct2) auto

lemma limbs_val_less_Cons:
  "limbs_val (x # xs) < limbs_val (y # ys) \<longleftrightarrow>
     limbs_val xs < limbs_val ys \<or> limbs_val xs = limbs_val ys \<and> x < y"
  using unat_lt32 [of x] unat_lt32 [of y] by (auto simp: word_less_nat_alt)

lemma CompareTo_val:
  "length a = length b \<Longrightarrow> CompareTo a b =
     (if limbs_val a < limbs_val b then - 1 else if limbs_val a > limbs_val b then 1 else 0)"
proof (induction a b rule: list_induct2)
  case (Cons x xs y ys)
  have "CompareTo (x # xs) (y # ys) =
      (if CompareTo xs ys = 0 then cmp_loop [x] [y] else CompareTo xs ys)"
    using Cons.hyps by (simp add: CompareTo_def cmp_loop_append)
  then show ?case
    using Cons.IH limbs_val_less_Cons [of x xs y ys] limbs_val_less_Cons [of y ys x xs]
    by auto
qed (simp add: CompareTo_def)

lemma CompareTo_ge: "length a = length b \<Longrightarrow> CompareTo a b \<ge> 0 \<longleftrightarrow> limbs_val b \<le> limbs_val a"
  by (simp add: CompareTo_val)

lemma CompareTo_gt: "length a = length b \<Longrightarrow> CompareTo a b > 0 \<longleftrightarrow> limbs_val b < limbs_val a"
  by (simp add: CompareTo_val)

section \<open>Bit length\<close>

lemma bit_nat_ge: "bit (n :: nat) m \<Longrightarrow> 2 ^ m \<le> n"
  by (auto simp: bit_iff_odd not_less [symmetric])

lemma bit_word_odd: "bit (x :: u32) n \<longleftrightarrow> odd (unat x div 2 ^ n)"
  using bit_iff_odd [of "unat x" n] bit_imp_le_length [of x n]
  by (auto simp: bit_unsigned_iff)

lemma limb_bits_spec:
  "unat x < 2 ^ Suc n \<Longrightarrow> x \<noteq> 0 \<Longrightarrow>
   0 < limb_bits x n \<and> unat x < 2 ^ limb_bits x n \<and> 2 ^ (limb_bits x n - 1) \<le> unat x"
proof (induction n)
  case 0
  then show ?case by (auto simp: unat_gt_0 Suc_le_eq)
next
  case (Suc n)
  show ?case
  proof (cases "bit x (Suc n)")
    case True
    then have "2 ^ Suc n \<le> unat x"
      using bit_nat_ge [of "unat x" "Suc n"] by (simp add: bit_unsigned_iff)
    with True Suc.prems show ?thesis by (simp add: and_exp_eq_0_iff_not_bit del: power_Suc)
  next
    case False
    have "unat x div 2 ^ Suc n < 2"
      using Suc.prems(1) by (simp add: less_mult_imp_div_less del: power_Suc add: power_Suc [of 2 "Suc n"])
    moreover have "even (unat x div 2 ^ Suc n)"
      using False unfolding bit_word_odd by blast
    ultimately have "unat x div 2 ^ Suc n = 0" by (auto simp: less_2_cases_iff)
    then have "unat x < 2 ^ Suc n" by (simp add: div_eq_0_iff)
    with False Suc show ?thesis by (simp add: and_exp_eq_0_iff_not_bit del: power_Suc)
  qed
qed

lemma uint_bits_snoc:
  "uint_bits (xs @ [x]) = (if x \<noteq> 0 then 32 * length xs + limb_bits x 31 else uint_bits xs)"
  by (simp add: uint_bits_def)

lemma uint_bits_spec:
  "limbs_val pn < 2 ^ uint_bits pn \<and>
   (limbs_val pn \<noteq> 0 \<longrightarrow> 0 < uint_bits pn \<and> 2 ^ (uint_bits pn - 1) \<le> limbs_val pn)"
proof (induction pn rule: rev_induct)
  case Nil
  show ?case by (simp add: uint_bits_def)
next
  case (snoc x xs)
  show ?case
  proof (cases "x = 0")
    case True
    with snoc show ?thesis by (simp add: uint_bits_snoc limbs_val_append)
  next
    case False
    define l where "l = limb_bits x 31"
    have l: "0 < l" "unat x < 2 ^ l" "2 ^ (l - 1) \<le> unat x"
      using limb_bits_spec [of x 31] False unat_lt32 [of x] by (simp_all add: l_def)
    have v: "limbs_val (xs @ [x]) = limbs_val xs + 2 ^ (32 * length xs) * unat x"
      by (simp add: limbs_val_append)
    have "limbs_val (xs @ [x]) < 2 ^ (32 * length xs) * (unat x + 1)"
      using v limbs_val_bound [of xs] by simp
    also have "\<dots> \<le> 2 ^ (32 * length xs) * 2 ^ l" using l by (intro mult_le_mono2) simp
    finally have up: "limbs_val (xs @ [x]) < 2 ^ (32 * length xs + l)" by (simp add: power_add)
    have "2 ^ (32 * length xs) * 2 ^ (l - 1) \<le> 2 ^ (32 * length xs) * unat x"
      using l by (intro mult_le_mono2) simp
    then have "2 ^ (32 * length xs + l - 1) \<le> limbs_val (xs @ [x])"
      using l v by (simp flip: power_add)
    with up l False show ?thesis by (simp add: uint_bits_snoc l_def)
  qed
qed

lemma uint_bits_upper: "limbs_val pn < 2 ^ uint_bits pn"
  using uint_bits_spec by blast

lemma uint_bits_lower: "limbs_val pn \<noteq> 0 \<Longrightarrow> 2 ^ (uint_bits pn - 1) \<le> limbs_val pn"
  using uint_bits_spec by blast

lemma uint_bits_0: "uint_bits pn = 0 \<longleftrightarrow> limbs_val pn = 0"
proof
  assume "limbs_val pn = 0"
  then have "pn = replicate (length pn) 0"
    using limbs_val_inject [of pn "replicate (length pn) 0"] by simp
  moreover have "uint_bits (replicate n 0) = 0" for n
    unfolding uint_bits_def rev_replicate by (induction n) simp_all
  ultimately show "uint_bits pn = 0" by metis
qed (use uint_bits_upper [of pn] in simp)

lemma uint_bits_le: "uint_bits pn \<le> 32 * length pn"
proof (cases "limbs_val pn = 0")
  case True
  then show ?thesis using uint_bits_0 [of pn] by simp
next
  case False
  then have "2 ^ (uint_bits pn - 1) < (2 :: nat) ^ (32 * length pn)"
    using uint_bits_lower limbs_val_bound le_less_trans by blast
  then show ?thesis by (simp add: power_less_imp_less_exp)
qed

section \<open>Division\<close>

lemma limbs_val_update:
  "j < length xs \<Longrightarrow>
   limbs_val (xs[j := y]) + 2 ^ (32 * j) * unat (xs ! j) = limbs_val xs + 2 ^ (32 * j) * unat y"
proof (induction xs arbitrary: j)
  case (Cons x xs)
  show ?case
  proof (cases j)
    case (Suc i)
    then have "2 ^ 32 * (limbs_val (xs[i := y]) + 2 ^ (32 * i) * unat (xs ! i)) =
        2 ^ 32 * (limbs_val xs + 2 ^ (32 * i) * unat y)"
      using Cons by simp
    with Suc show ?thesis by (simp add: power_add algebra_simps)
  qed simp
qed simp

lemma unat_or_bit: "\<not> bit (x :: u32) r \<Longrightarrow> r < 32 \<Longrightarrow> unat (x OR push_bit r 1) = unat x + 2 ^ r"
proof -
  assume a: "\<not> bit x r" "r < 32"
  have "unat (push_bit r 1 :: u32) = 2 ^ r" using a(2)
    power_strict_increasing [of r 32 "2 :: nat"] by (simp add: unat_push_bit del: push_bit_of_1)
  moreover have "unat x OR 2 ^ r = unat x + 2 ^ r"
    using a(1) by (intro disjunctive_add [symmetric]) (auto simp: bit_unsigned_iff bit_exp_iff)
  ultimately show ?thesis by (simp add: unsigned_or_eq del: push_bit_of_1)
qed

lemma length_uint_set_bit [simp]: "length (uint_set_bit s q) = length q"
  by (simp add: uint_set_bit_def)

lemma uint_set_bit_val:
  assumes "2 ^ Suc s dvd limbs_val q" and "s < 32 * length q"
  shows "limbs_val (uint_set_bit s q) = limbs_val q + 2 ^ s"
proof -
  let ?j = "s div 32" and ?r = "s mod 32"
  have j: "?j < length q" using assms(2) by (simp add: div_less_iff_less_mult mult.commute)
  have "\<not> bit (limbs_val q) s"
    using assms(1) by (auto simp: bit_iff_odd dvd_def)
  then have "\<not> bit (q ! ?j) ?r" using j by (simp add: bit_limbs_val)
  then have "unat (q ! ?j OR push_bit ?r 1) = unat (q ! ?j) + 2 ^ ?r" by (rule unat_or_bit) simp
  then have "limbs_val (uint_set_bit s q) = limbs_val q + 2 ^ (32 * ?j) * 2 ^ ?r"
    using limbs_val_update [OF j, of "q ! ?j OR push_bit ?r 1"]
    by (simp add: uint_set_bit_def distrib_left)
  also have "(2 :: nat) ^ (32 * ?j) * 2 ^ ?r = 2 ^ s"
    by (simp flip: power_add)
  finally show ?thesis .
qed

lemma div_loop_val:
  assumes "length num = length quot" "length dv = length quot" "0 < d"
    and "limbs_val dv = d * 2 ^ n div 2" "limbs_val num < d * 2 ^ n"
    and "2 ^ n dvd limbs_val quot" "n \<le> 32 * length quot"
  shows "length (div_loop n num dv quot) = length quot \<and>
    limbs_val (div_loop n num dv quot) = limbs_val quot + limbs_val num div d"
  using assms
proof (induction n arbitrary: num dv quot)
  case (Suc s)
  have dv: "limbs_val dv = d * 2 ^ s" using Suc.prems(4) by simp
  have dv': "limbs_val (uint_shr dv 1) = d * 2 ^ s div 2" by (simp add: uint_shr_val dv)
  show ?case
  proof (cases "limbs_val dv \<le> limbs_val num")
    case True
    have num': "limbs_val (uint_sub num dv) = limbs_val num - d * 2 ^ s"
      using True Suc.prems dv by (simp add: uint_sub_val_le)
    have quot': "limbs_val (uint_set_bit s quot) = limbs_val quot + 2 ^ s"
      using Suc.prems by (intro uint_set_bit_val) simp_all
    have "2 ^ s dvd limbs_val quot" using Suc.prems(6) by (meson dvd_trans le_imp_power_dvd lessI less_imp_le)
    then have "length (div_loop s (uint_sub num dv) (uint_shr dv 1) (uint_set_bit s quot)) = length quot \<and>
        limbs_val (div_loop s (uint_sub num dv) (uint_shr dv 1) (uint_set_bit s quot)) =
        limbs_val quot + 2 ^ s + (limbs_val num - d * 2 ^ s) div d"
      using Suc.IH [of "uint_sub num dv" "uint_set_bit s quot" "uint_shr dv 1"] Suc.prems num' quot' dv'
      by simp
    moreover have "limbs_val num div d = 2 ^ s + (limbs_val num - d * 2 ^ s) div d"
    proof -
      have "limbs_val num = (limbs_val num - d * 2 ^ s) + 2 ^ s * d" using True dv by simp
      then show ?thesis using Suc.prems(3) by (metis add.commute div_mult_self3 neq0_conv)
    qed
    ultimately show ?thesis using True Suc.prems by (simp add: CompareTo_ge)
  next
    case False
    have "2 ^ s dvd limbs_val quot" using Suc.prems(6) by (meson dvd_trans le_imp_power_dvd lessI less_imp_le)
    with False show ?thesis
      using Suc.IH [of num quot "uint_shr dv 1"] Suc.prems dv dv' by (simp add: CompareTo_ge)
  qed
qed simp

lemma uint_div_by_zero: "limbs_val b = 0 \<Longrightarrow> uint_div a b = Inl Division_by_zero"
  by (simp add: uint_div_def uint_bits_0)

lemma uint_div_val:
  assumes "length a = length b" and "limbs_val b \<noteq> 0"
  shows "\<exists>q. uint_div a b = Inr q \<and> length q = length a \<and> limbs_val q = limbs_val a div limbs_val b"
proof (cases "uint_bits b > uint_bits a")
  case True
  have "limbs_val a < 2 ^ uint_bits a" by (rule uint_bits_upper)
  also have "\<dots> \<le> 2 ^ (uint_bits b - 1)" using True by (intro power_increasing) auto
  also have "\<dots> \<le> limbs_val b" using assms(2) by (rule uint_bits_lower)
  finally show ?thesis using True assms by (simp add: uint_div_def)
next
  case False
  define s where "s = uint_bits a - uint_bits b"
  have bb: "0 < uint_bits b" using assms(2) uint_bits_0 [of b] by simp
  have s1: "uint_bits b + s = uint_bits a" using False by (simp add: s_def)
  have "limbs_val b * 2 ^ s < 2 ^ uint_bits b * 2 ^ s"
    using uint_bits_upper [of b] by simp
  also have "\<dots> \<le> 2 ^ (32 * length b)"
    using uint_bits_le [of a] s1 assms(1) by (simp flip: power_add)
  finally have dv: "limbs_val (uint_shl b s) = limbs_val b * 2 ^ s"
    by (simp add: uint_shl_val)
  have "2 ^ uint_bits a = 2 ^ (uint_bits b - 1) * (2 :: nat) ^ Suc s"
    using s1 bb by (simp flip: power_add power_Suc)
  also have "\<dots> \<le> limbs_val b * 2 ^ Suc s"
    using uint_bits_lower [OF assms(2)] by (intro mult_le_mono1)
  finally have num: "limbs_val a < limbs_val b * 2 ^ Suc s"
    using uint_bits_upper [of a] by simp
  have "Suc s \<le> 32 * length a" using s1 bb uint_bits_le [of a] by simp
  then have "length (div_loop (Suc s) a (uint_shl b s) (replicate (length a) 0)) = length a \<and>
      limbs_val (div_loop (Suc s) a (uint_shl b s) (replicate (length a) 0)) =
        limbs_val a div limbs_val b"
    using div_loop_val [of a "replicate (length a) 0" "uint_shl b s" "limbs_val b" "Suc s"]
      assms num dv by simp
  moreover have "uint_div a b = Inr (div_loop (Suc s) a (uint_shl b s) (replicate (length a) 0))"
    using False bb by (simp add: uint_div_def s_def Let_def del: div_loop.simps)
  ultimately show ?thesis by blast
qed

lemma GetLow64_val: "2 \<le> length pn \<Longrightarrow> unat (GetLow64 pn) = limbs_val pn mod 2 ^ 64"
proof -
  assume "2 \<le> length pn"
  then obtain x y r where pn: "pn = x # y # r" by (metis Suc_le_length_iff numeral_2_eq_2)
  have hi: "unat (push_bit 32 (ucast y :: u64)) = unat y * 2 ^ 32"
    using unat_lt32 [of y] by (simp add: unat_push_bit)
  have "unat x OR push_bit 32 (unat y) = unat x + push_bit 32 (unat y)"
    using bit_u32_lt [of x]
    by (intro disjunctive_add [symmetric]) (force simp: bit_unsigned_iff bit_push_bit_iff)
  then have low: "unat (GetLow64 pn) = unat x + unat y * 2 ^ 32"
    using hi by (simp add: GetLow64_def pn unsigned_or_eq push_bit_eq_mult)
  have "limbs_val pn = (unat x + unat y * 2 ^ 32) + 2 ^ 64 * limbs_val r"
    by (simp add: pn)
  moreover have "unat x + unat y * 2 ^ 32 < 2 ^ 64"
    using unat_lt32 [of x] unat_lt32 [of y] by simp
  ultimately show ?thesis using low by simp
qed

lemma EqualTo_val: "2 \<le> length pn \<Longrightarrow> EqualTo pn b \<longleftrightarrow> limbs_val pn = unat b"
proof -
  assume "2 \<le> length pn"
  then obtain x y r where pn: "pn = x # y # r" by (metis Suc_le_length_iff numeral_2_eq_2)
  have r: "list_ex (\<lambda>x. x \<noteq> 0) r \<longleftrightarrow> limbs_val r \<noteq> 0"
    unfolding uint_is_zero_iff [symmetric] by (auto simp: uint_is_zero_def list_ex_iff list_all_iff)
  have y: "ucast y \<noteq> drop_bit 32 b \<longleftrightarrow> unat y \<noteq> unat b div 2 ^ 32"
    by (simp add: word_eq_iff_unsigned [where 'a = nat] unat_drop_bit)
  have x: "ucast x \<noteq> b AND 0xffffffff \<longleftrightarrow> unat x \<noteq> unat b mod 2 ^ 32"
    unfolding low32_mask by (simp add: word_eq_iff_unsigned [where 'a = nat] unat_and_mask)
  have "EqualTo pn b \<longleftrightarrow> limbs_val r = 0 \<and> unat y = unat b div 2 ^ 32 \<and> unat x = unat b mod 2 ^ 32"
    using r x y by (simp add: EqualTo_def pn)
  also have "\<dots> \<longleftrightarrow> limbs_val pn = unat b"
  proof
    assume "limbs_val r = 0 \<and> unat y = unat b div 2 ^ 32 \<and> unat x = unat b mod 2 ^ 32"
    then show "limbs_val pn = unat b" by (simp add: pn)
  next
    assume eq: "limbs_val pn = unat b"
    have "limbs_val r = 0"
      using eq unat_lt64 [of b] by (cases "limbs_val r") (simp_all add: pn)
    then have b: "unat b = unat x + 2 ^ 32 * unat y" using eq by (simp add: pn)
    show "limbs_val r = 0 \<and> unat y = unat b div 2 ^ 32 \<and> unat x = unat b mod 2 ^ 32"
      unfolding b using \<open>limbs_val r = 0\<close> by simp
  qed
  finally show ?thesis .
qed

section \<open>The compact encoding\<close>

definition compact_size :: "u32 \<Rightarrow> nat" where
  "compact_size c = unat c div 2 ^ 24"

definition compact_mant :: "u32 \<Rightarrow> nat" where
  "compact_mant c = unat c mod 2 ^ 23"

text \<open>The number a compact encoding denotes, before it is cut to 256 bits.\<close>

definition compact_val :: "u32 \<Rightarrow> nat" where
  "compact_val c =
     (if compact_size c \<le> 3 then compact_mant c div 256 ^ (3 - compact_size c)
      else compact_mant c * 256 ^ (compact_size c - 3))"

lemma compact_size_lt: "compact_size c < 256"
  using unat_lt32 [of c] by (simp add: compact_size_def less_mult_imp_div_less)

lemma compact_mant_lt: "compact_mant c < 2 ^ 23"
  by (simp add: compact_mant_def)

lemma mask23: "(0x007fffff :: u32) = mask 23"
  by (simp add: mask_eq_exp_minus_1)

lemma pow256: "(256 :: nat) ^ n = 2 ^ (8 * n)"
  by (simp add: power_mult)

lemma SetCompact_val:
  "limbs_val (fst (SetCompact c)) = compact_val c mod 2 ^ 256"
proof -
  have m: "unat (c AND 0x007fffff) = compact_mant c"
    unfolding mask23 by (simp add: unat_and_mask compact_mant_def)
  have sz: "unat (drop_bit 24 c) = compact_size c"
    by (simp add: unat_drop_bit compact_size_def)
  have m': "unat (drop_bit k (c AND 0x007fffff)) = compact_mant c div 2 ^ k" for k
    by (simp add: unat_drop_bit m del: drop_bit_and)
  show ?thesis
  proof (cases "compact_size c \<le> 3")
    case True
    have "compact_mant c div 256 ^ (3 - compact_size c) < 2 ^ 23"
      using compact_mant_lt [of c] by (meson div_le_dividend le_less_trans)
    moreover have "(2 :: nat) ^ 23 \<le> 2 ^ 256" by (intro power_increasing) simp_all
    ultimately have "compact_mant c div 256 ^ (3 - compact_size c) < 2 ^ 256"
      by (rule less_le_trans)
    with True show ?thesis
      by (simp add: SetCompact_def Let_def sz m' limbs_val_of_u64 compact_val_def pow256
          del: drop_bit_and)
  next
    case False
    then show ?thesis
      by (simp add: SetCompact_def Let_def sz m limbs_val_of_u64 uint_shl_val compact_val_def pow256
          WIDTH_def)
  qed
qed

lemma length_SetCompact [simp]: "length (fst (SetCompact c)) = WIDTH"
  by (simp add: SetCompact_def Let_def)

lemma SetCompact_overflow: "snd (snd (SetCompact c)) \<longleftrightarrow> 2 ^ 256 \<le> compact_val c"
proof -
  define n w where "n = compact_size c" and "w = compact_mant c"
  have m: "unat (c AND 0x007fffff) = w"
    unfolding mask23 by (simp add: unat_and_mask compact_mant_def w_def)
  have sz: "unat (drop_bit 24 c) = n"
    by (simp add: unat_drop_bit compact_size_def n_def)
  have w: "w < 256 ^ 3" using compact_mant_lt [of c] by (simp add: w_def)
  have p: "(2 :: nat) ^ 256 = 256 ^ 32" by (simp add: pow256)
  consider "n \<le> 3" | "3 < n" "n \<le> 32" | "n = 33" | "n = 34" | "35 \<le> n" by linarith
  then show ?thesis
  proof cases
    case 1
    have "w div 256 ^ (3 - n) < 256 ^ 3" using w by (meson div_le_dividend le_less_trans)
    moreover have "(256 :: nat) ^ 3 \<le> 256 ^ 32" by (intro power_increasing) simp_all
    ultimately have "\<not> 2 ^ 256 \<le> compact_val c"
      using 1 p by (simp add: compact_val_def flip: n_def w_def)
    with 1 show ?thesis by (simp add: SetCompact_def Let_def sz)
  next
    case 2
    have "w * 256 ^ (n - 3) < 256 ^ 3 * 256 ^ (n - 3)" using w by simp
    also have "\<dots> \<le> 256 ^ 32" unfolding power_add [symmetric] using 2 by (intro power_increasing) simp_all
    finally have "\<not> 2 ^ 256 \<le> compact_val c"
      using 2 p by (simp add: compact_val_def flip: n_def w_def)
    with 2 show ?thesis by (simp add: SetCompact_def Let_def sz)
  next
    case 3
    have "2 ^ 256 \<le> compact_val c \<longleftrightarrow> 65536 \<le> w"
      unfolding p using 3 by (simp add: compact_val_def flip: n_def w_def)
    with 3 show ?thesis
      by (auto simp: SetCompact_def Let_def sz word_less_nat_alt m unat_eq_zero [symmetric]
          simp flip: unat_0_iff)
  next
    case 4
    have "2 ^ 256 \<le> compact_val c \<longleftrightarrow> 256 \<le> w"
      unfolding p using 4 by (simp add: compact_val_def flip: n_def w_def)
    with 4 show ?thesis
      by (auto simp: SetCompact_def Let_def sz word_less_nat_alt m simp flip: unat_0_iff)
  next
    case 5
    have "(256 :: nat) ^ 32 \<le> 256 ^ (n - 3)" using 5 by (intro power_increasing) simp_all
    then have "2 ^ 256 \<le> compact_val c \<longleftrightarrow> w \<noteq> 0"
      unfolding p using 5 by (cases "w = 0") (auto simp: compact_val_def simp flip: n_def w_def
          intro: order_trans)
    with 5 show ?thesis
      by (auto simp: SetCompact_def Let_def sz m simp flip: unat_0_iff)
  qed
qed

definition nbytes :: "base_uint \<Rightarrow> nat" where
  "nbytes a = (uint_bits a + 7) div 8"

lemma nbytes_upper: "limbs_val a < 256 ^ nbytes a"
proof -
  have "uint_bits a \<le> 8 * nbytes a" by (simp add: nbytes_def)
  then have "(2 :: nat) ^ uint_bits a \<le> 256 ^ nbytes a"
    unfolding pow256 by (intro power_increasing) simp_all
  then show ?thesis using uint_bits_upper [of a] by linarith
qed

lemma nbytes_lower: "limbs_val a \<noteq> 0 \<Longrightarrow> 0 < nbytes a \<and> 256 ^ (nbytes a - 1) \<le> limbs_val a"
proof -
  assume a: "limbs_val a \<noteq> 0"
  then have b: "0 < uint_bits a" using uint_bits_0 [of a] by simp
  then have n: "8 * (nbytes a - 1) \<le> uint_bits a - 1" "0 < nbytes a"
    by (simp_all add: nbytes_def)
  then have "(256 :: nat) ^ (nbytes a - 1) \<le> 2 ^ (uint_bits a - 1)"
    unfolding pow256 by (intro power_increasing) simp_all
  then show ?thesis using uint_bits_lower [OF a] n by linarith
qed

lemma nbytes_unique:
  assumes "0 < n" "256 ^ (n - 1) \<le> limbs_val a" "limbs_val a < 256 ^ n"
  shows "nbytes a = n"
proof -
  have a: "limbs_val a \<noteq> 0" using assms(2) by (cases "limbs_val a = 0") simp_all
  have "(256 :: nat) ^ (n - 1) < 256 ^ nbytes a" "(256 :: nat) ^ (nbytes a - 1) < 256 ^ n"
    using assms nbytes_upper [of a] nbytes_lower [OF a] by (meson le_less_trans)+
  then have "n - 1 < nbytes a" "nbytes a - 1 < n"
    by simp_all
  then show ?thesis using assms(1) by simp
qed

lemma nbytes_le: "length a = WIDTH \<Longrightarrow> nbytes a \<le> 32"
  using uint_bits_le [of a] by (simp add: nbytes_def WIDTH_def)

text \<open>The mantissa of three bytes that the encoder starts from, and the encoding as numbers.\<close>

definition top3 :: "base_uint \<Rightarrow> nat" where
  "top3 a = (if nbytes a \<le> 3 then limbs_val a * 256 ^ (3 - nbytes a)
             else limbs_val a div 256 ^ (nbytes a - 3))"

lemma top3_lt: "top3 a < 2 ^ 24"
proof (cases "nbytes a \<le> 3")
  case True
  have "limbs_val a * 256 ^ (3 - nbytes a) < 256 ^ nbytes a * 256 ^ (3 - nbytes a)"
    using nbytes_upper [of a] by simp
  with True show ?thesis by (simp add: top3_def flip: power_add)
next
  case False
  have "limbs_val a < 256 ^ 3 * 256 ^ (nbytes a - 3)"
    unfolding power_add [symmetric] using nbytes_upper [of a] False by simp
  with False show ?thesis by (simp add: top3_def less_mult_imp_div_less)
qed

lemma top3_ge: "limbs_val a \<noteq> 0 \<Longrightarrow> 2 ^ 16 \<le> top3 a"
proof -
  assume "limbs_val a \<noteq> 0"
  note low = nbytes_lower [OF this]
  show ?thesis
  proof (cases "nbytes a \<le> 3")
    case True
    have "(256 :: nat) ^ 2 = 256 ^ (nbytes a - 1) * 256 ^ (3 - nbytes a)"
      using True low by (simp flip: power_add)
    also have "\<dots> \<le> limbs_val a * 256 ^ (3 - nbytes a)" using low by (intro mult_le_mono1) simp
    finally show ?thesis using True by (simp add: top3_def)
  next
    case False
    have "2 + (nbytes a - 3) = nbytes a - 1" using False by simp
    then have "256 ^ 2 * 256 ^ (nbytes a - 3) \<le> limbs_val a"
      using low by (simp only: power_add [symmetric])
    then have "256 ^ 2 \<le> limbs_val a div 256 ^ (nbytes a - 3)"
      by (metis div_le_mono nonzero_mult_div_cancel_right power_not_zero zero_neq_numeral)
    with False show ?thesis by (simp add: top3_def)
  qed
qed

lemma and_not_mask23:
  assumes "unat (x :: u32) < 2 ^ 23"
  shows "x AND NOT 0x007fffff = 0"
proof -
  have "x AND mask 23 = x"
    using assms by (simp add: word_eq_iff_unsigned [where 'a = nat] unat_and_mask)
  then have "x AND NOT (mask 23) = (x AND mask 23) AND NOT (mask 23)" by simp
  also have "\<dots> = 0" by (simp add: and.assoc)
  finally show ?thesis unfolding mask23 .
qed

lemma bit23_iff: "unat (x :: u32) < 2 ^ 24 \<Longrightarrow> x AND 0x00800000 \<noteq> 0 \<longleftrightarrow> 2 ^ 23 \<le> unat x"
proof -
  assume x: "unat x < 2 ^ 24"
  have "x AND 2 ^ 23 \<noteq> 0 \<longleftrightarrow> bit x 23" using and_exp_eq_0_iff_not_bit [of x 23] by simp
  also have "\<dots> \<longleftrightarrow> odd (unat x div 2 ^ 23)"
    by (rule bit_word_odd)
  also have "\<dots> \<longleftrightarrow> 2 ^ 23 \<le> unat x"
  proof -
    have "unat x div 2 ^ 23 < 2" using x by (simp add: less_mult_imp_div_less)
    moreover have "unat x div 2 ^ 23 = 0 \<longleftrightarrow> unat x < 2 ^ 23" by (simp add: div_eq_0_iff)
    ultimately show ?thesis by (auto simp: less_2_cases_iff)
  qed
  finally show ?thesis by simp
qed

lemma unat_or_size:
  assumes "unat (x :: u32) < 2 ^ 24" "n < 256"
  shows "unat (x OR push_bit 24 (of_nat n)) = unat x + n * 2 ^ 24"
proof -
  have hi: "unat (push_bit 24 (of_nat n :: u32)) = push_bit 24 n"
    unfolding unat_push_bit using assms(2) by (simp add: unat_of_nat push_bit_eq_mult)
  have "\<not> bit (unat x) k" if "24 \<le> k" for k
  proof
    assume "bit (unat x) k"
    then have "2 ^ k \<le> unat x" by (rule bit_nat_ge)
    moreover have "(2 :: nat) ^ 24 \<le> 2 ^ k" using that by (intro power_increasing) simp_all
    ultimately show False using assms(1) by linarith
  qed
  then have "unat x OR push_bit 24 n = unat x + push_bit 24 n"
    by (intro disjunctive_add [symmetric]) (auto simp: bit_push_bit_iff)
  then show ?thesis using hi by (simp add: unsigned_or_eq push_bit_eq_mult)
qed

lemma GetCompact_val:
  assumes "length a = WIDTH"
  shows "\<exists>c. GetCompact a False = Some c \<and>
    unat c = (if 2 ^ 23 \<le> top3 a then top3 a div 256 + (nbytes a + 1) * 2 ^ 24
              else top3 a + nbytes a * 2 ^ 24)"
proof -
  define c0 :: u32 where
    "c0 = (if nbytes a \<le> 3 then ucast (push_bit (8 * (3 - nbytes a)) (GetLow64 a))
           else ucast (GetLow64 (uint_shr a (8 * (nbytes a - 3)))))"
  have c0: "unat c0 = top3 a"
  proof (cases "nbytes a \<le> 3")
    case True
    have "limbs_val a < 256 ^ 3"
      using nbytes_upper [of a] power_increasing [OF True, of "256 :: nat"] by simp
    then have low: "unat (GetLow64 a) = limbs_val a"
      using assms by (simp add: GetLow64_val WIDTH_def)
    have "limbs_val a * 256 ^ (3 - nbytes a) < 2 ^ 24"
      using top3_lt [of a] True by (simp add: top3_def)
    then show ?thesis using True
      by (simp add: c0_def top3_def unat_ucast_down unat_push_bit low pow256)
  next
    case False
    then have t: "limbs_val a div 2 ^ (8 * (nbytes a - 3)) < 2 ^ 24"
      using top3_lt [of a] by (simp add: top3_def pow256)
    then show ?thesis using False assms
      by (simp add: c0_def top3_def unat_ucast_down GetLow64_val WIDTH_def uint_shr_val pow256)
  qed
  have carry: "c0 AND 0x00800000 \<noteq> 0 \<longleftrightarrow> 2 ^ 23 \<le> top3 a"
    using bit23_iff [of c0] top3_lt [of a] c0 by simp
  define c1 n where "c1 = (if 2 ^ 23 \<le> top3 a then drop_bit 8 c0 else c0)"
    and "n = (if 2 ^ 23 \<le> top3 a then nbytes a + 1 else nbytes a)"
  have u1: "unat c1 = (if 2 ^ 23 \<le> top3 a then top3 a div 256 else top3 a)"
    by (simp add: c1_def unat_drop_bit c0)
  then have l1: "unat c1 < 2 ^ 23" using top3_lt [of a] by auto
  have n: "n < 256" using nbytes_le [OF assms] by (simp add: n_def)
  have "GetCompact a False = Some (c1 OR push_bit 24 (of_nat n))"
    using and_not_mask23 [OF l1] n carry
    unfolding GetCompact_def Let_def nbytes_def [symmetric] c0_def [symmetric] c1_def n_def
    by (cases "2 ^ 23 \<le> top3 a") simp_all
  moreover have "unat (c1 OR push_bit 24 (of_nat n)) = unat c1 + n * 2 ^ 24"
    using l1 n by (intro unat_or_size) simp_all
  ultimately show ?thesis using u1 by (auto simp: n_def)
qed

lemma compact_fields:
  assumes "unat c = m + n * 2 ^ 24" "m < 2 ^ 23"
  shows "compact_size c = n" "compact_mant c = m" "c AND 0x00800000 = 0"
proof -
  show "compact_size c = n" using assms by (simp add: compact_size_def)
  have "m + n * 2 ^ 24 = m + 2 ^ 23 * (2 * n)" by simp
  then have c: "unat c = m + 2 ^ 23 * (2 * n)" using assms(1) by simp
  show "compact_mant c = m" unfolding compact_mant_def c mod_mult_self2 using assms(2) by simp
  have "unat c div 2 ^ 23 = 2 * n" unfolding c using assms(2) by (subst div_mult_self2) simp_all
  then have "\<not> bit c 23" unfolding bit_word_odd by simp
  then show "c AND 0x00800000 = 0" using and_exp_eq_0_iff_not_bit [of c 23] by simp
qed

text \<open>The number of low bytes that the compact encoding of \<open>a\<close> drops.\<close>

definition compact_drop :: "base_uint \<Rightarrow> nat" where
  "compact_drop a = (if 2 ^ 23 \<le> top3 a then nbytes a - 2 else nbytes a - 3)"

lemma top3_shift:
  "(if 2 ^ 23 \<le> top3 a then top3 a div 256 else top3 a) =
   (if nbytes a + (if 2 ^ 23 \<le> top3 a then 1 else 0) \<le> 3
    then limbs_val a * 256 ^ (3 - (nbytes a + (if 2 ^ 23 \<le> top3 a then 1 else 0)))
    else limbs_val a div 256 ^ compact_drop a)"
proof (cases "2 ^ 23 \<le> top3 a")
  case False
  then show ?thesis
    by (cases "nbytes a \<le> 3") (simp_all add: top3_def compact_drop_def)
next
  case True
  consider "nbytes a \<le> 2" | "nbytes a = 3" | "3 < nbytes a" by linarith
  then show ?thesis
  proof cases
    case 1
    then have "3 - nbytes a = Suc (2 - nbytes a)" by simp
    then have "top3 a div 256 = limbs_val a * 256 ^ (2 - nbytes a)"
      using 1 by (simp add: top3_def)
    with True 1 show ?thesis by simp
  next
    case 2
    with True show ?thesis by (simp add: top3_def compact_drop_def)
  next
    case 3
    then have "nbytes a - 2 = Suc (nbytes a - 3)" by simp
    then have "top3 a div 256 = limbs_val a div 256 ^ (nbytes a - 2)"
      using 3 by (simp add: top3_def div_mult2_eq [symmetric] mult.commute)
    with True 3 show ?thesis by (simp add: compact_drop_def)
  qed
qed

lemma GetCompact_fields:
  assumes "length a = WIDTH" "GetCompact a False = Some c"
  shows "compact_size c = nbytes a + (if 2 ^ 23 \<le> top3 a then 1 else 0)"
    and "compact_mant c = (if 2 ^ 23 \<le> top3 a then top3 a div 256 else top3 a)"
    and "c AND 0x00800000 = 0"
proof -
  let ?m = "if 2 ^ 23 \<le> top3 a then top3 a div 256 else top3 a"
  let ?n = "nbytes a + (if 2 ^ 23 \<le> top3 a then 1 else 0)"
  have "unat c = ?m + ?n * 2 ^ 24" using GetCompact_val [OF assms(1)] assms(2) by auto
  moreover have "?m < 2 ^ 23" using top3_lt [of a] by auto
  ultimately show "compact_size c = ?n" "compact_mant c = ?m" "c AND 0x00800000 = 0"
    by (rule compact_fields)+
qed

lemma compact_val_GetCompact:
  assumes "length a = WIDTH" "GetCompact a False = Some c"
  shows "compact_val c = limbs_val a div 256 ^ compact_drop a * 256 ^ compact_drop a"
proof -
  note f = GetCompact_fields(1,2) [OF assms]
  define n where "n = compact_size c"
  have m: "compact_mant c = (if n \<le> 3 then limbs_val a * 256 ^ (3 - n)
      else limbs_val a div 256 ^ compact_drop a)"
    unfolding f(2) top3_shift n_def f(1) by (rule refl)
  have d: "compact_drop a = n - 3" unfolding n_def f(1) compact_drop_def by simp
  show ?thesis
  proof (cases "n \<le> 3")
    case True
    with m d show ?thesis by (simp add: compact_val_def flip: n_def)
  next
    case False
    with m d show ?thesis by (simp add: compact_val_def flip: n_def)
  qed
qed

lemma compact_roundtrip:
  assumes "length a = WIDTH" "GetCompact a False = Some c"
  shows "limbs_val (fst (SetCompact c)) = limbs_val a div 256 ^ compact_drop a * 256 ^ compact_drop a"
    and "\<not> fst (snd (SetCompact c))" and "\<not> snd (snd (SetCompact c))"
proof -
  let ?y = "limbs_val a div 256 ^ compact_drop a * 256 ^ compact_drop a"
  have y: "?y < 2 ^ 256"
    using limbs_val_bound [of a] assms(1)
    by (intro le_less_trans [OF div_times_less_eq_dividend]) (simp add: WIDTH_def)
  then show "limbs_val (fst (SetCompact c)) = ?y"
    by (simp add: SetCompact_val compact_val_GetCompact [OF assms])
  show "\<not> snd (snd (SetCompact c))"
    using y by (simp add: SetCompact_overflow compact_val_GetCompact [OF assms])
  show "\<not> fst (snd (SetCompact c))"
    using GetCompact_fields(3) [OF assms] by (simp add: SetCompact_def Let_def)
qed

lemma compact_precision:
  "limbs_val a div 256 ^ compact_drop a * 256 ^ compact_drop a \<le> limbs_val a"
  "2 ^ 15 * (limbs_val a - limbs_val a div 256 ^ compact_drop a * 256 ^ compact_drop a) \<le> limbs_val a"
proof -
  define k x where "k = compact_drop a" and "x = limbs_val a"
  show "limbs_val a div 256 ^ compact_drop a * 256 ^ compact_drop a \<le> limbs_val a"
    by (rule div_times_less_eq_dividend)
  have "2 ^ 15 * (x - x div 256 ^ k * 256 ^ k) \<le> x"
  proof (cases "k = 0")
    case False
    then have n: "3 \<le> nbytes a" and n3: "\<not> 2 ^ 23 \<le> top3 a \<Longrightarrow> 3 < nbytes a"
      by (auto simp: k_def compact_drop_def split: if_splits)
    then have "x \<noteq> 0" using uint_bits_0 [of a] by (auto simp: x_def nbytes_def)
    then have "2 ^ 16 \<le> top3 a" using top3_ge x_def by blast
    then have "2 ^ 15 \<le> (if 2 ^ 23 \<le> top3 a then top3 a div 256 else top3 a)"
      by (auto simp: less_eq_div_iff_mult_less_eq)
    then have m: "2 ^ 15 \<le> x div 256 ^ k"
      unfolding top3_shift k_def x_def using n n3 by (auto split: if_splits)
    have "x - x div 256 ^ k * 256 ^ k < 256 ^ k"
      by (simp add: minus_div_mult_eq_mod)
    then have "2 ^ 15 * (x - x div 256 ^ k * 256 ^ k) \<le> x div 256 ^ k * 256 ^ k"
      using m by (intro mult_le_mono) simp_all
    also have "\<dots> \<le> x" by (rule div_times_less_eq_dividend)
    finally show ?thesis .
  qed simp
  then show "2 ^ 15 * (limbs_val a - limbs_val a div 256 ^ compact_drop a * 256 ^ compact_drop a)
      \<le> limbs_val a" by (simp add: k_def x_def)
qed

text \<open>Decoding and encoding again gives the same compact value: the encoder is canonical.\<close>

lemma nbytes_compact:
  assumes "limbs_val b = limbs_val a div 256 ^ compact_drop a * 256 ^ compact_drop a"
  shows "nbytes b = nbytes a"
proof (cases "limbs_val a = 0")
  case True
  with assms show ?thesis using uint_bits_0 [of a] uint_bits_0 [of b] by (simp add: nbytes_def)
next
  case False
  define k where "k = compact_drop a"
  note low = nbytes_lower [OF False]
  have k: "k \<le> nbytes a - 1" unfolding k_def compact_drop_def by auto
  have "256 ^ (nbytes a - 1) = (256 :: nat) ^ (nbytes a - 1 - k) * 256 ^ k"
    using k by (simp flip: power_add)
  also have "\<dots> \<le> limbs_val a div 256 ^ k * 256 ^ k"
  proof (rule mult_le_mono1)
    have "(256 :: nat) ^ (nbytes a - 1 - k) * 256 ^ k \<le> limbs_val a"
      using low le_add_diff_inverse2 [OF k] by (simp only: power_add [symmetric])
    then show "256 ^ (nbytes a - 1 - k) \<le> limbs_val a div 256 ^ k"
      by (simp add: less_eq_div_iff_mult_less_eq)
  qed
  finally have "256 ^ (nbytes a - 1) \<le> limbs_val b" using assms by (simp add: k_def)
  moreover have "limbs_val b < 256 ^ nbytes a"
    unfolding assms by (rule le_less_trans [OF div_times_less_eq_dividend nbytes_upper])
  ultimately show ?thesis using low by (intro nbytes_unique) simp_all
qed

lemma top3_compact:
  assumes "limbs_val b = limbs_val a div 256 ^ compact_drop a * 256 ^ compact_drop a"
  shows "top3 b = (if 2 ^ 23 \<le> top3 a then top3 a div 256 * 256 else top3 a)"
proof -
  note n = nbytes_compact [OF assms]
  consider "2 ^ 23 \<le> top3 a" "nbytes a \<le> 2" | "2 ^ 23 \<le> top3 a" "nbytes a = 3"
    | "2 ^ 23 \<le> top3 a" "3 < nbytes a"
    | "\<not> 2 ^ 23 \<le> top3 a" "nbytes a \<le> 3" | "\<not> 2 ^ 23 \<le> top3 a" "3 < nbytes a"
    by linarith
  then show ?thesis
  proof cases
    case 1
    then have e: "3 - nbytes a = Suc (2 - nbytes a)" "limbs_val b = limbs_val a"
      using assms by (simp_all add: compact_drop_def)
    then have "top3 b = top3 a" "top3 a = limbs_val a * 256 ^ (2 - nbytes a) * 256"
      using 1 by (simp_all add: top3_def n)
    with 1 show ?thesis by simp
  next
    case 2
    then have "top3 b = limbs_val b" "top3 a = limbs_val a" by (simp_all add: top3_def n)
    with 2 show ?thesis using assms by (simp add: compact_drop_def)
  next
    case 3
    define j where "j = nbytes a - 3"
    have j: "nbytes a - 2 = Suc j" using 3 by (simp add: j_def)
    have d: "limbs_val a div 256 ^ Suc j = top3 a div 256"
      using 3 by (simp add: top3_def j_def div_mult2_eq [symmetric] mult.commute)
    have "limbs_val b = (top3 a div 256 * 256) * 256 ^ j"
      using assms 3 d by (simp add: compact_drop_def j)
    then have "top3 b = top3 a div 256 * 256" using 3 by (simp add: top3_def n j_def [symmetric])
    with 3 show ?thesis by simp
  next
    case 4
    then have "limbs_val b = limbs_val a" using assms by (simp add: compact_drop_def)
    with 4 show ?thesis by (simp add: top3_def n)
  next
    case 5
    then have "limbs_val b = top3 a * 256 ^ (nbytes a - 3)"
      using assms by (simp add: compact_drop_def top3_def)
    with 5 have "top3 b = top3 a" by (simp add: top3_def [of b] n)
    with 5 show ?thesis by simp
  qed
qed

lemma compact_canonical:
  assumes "length a = WIDTH" "GetCompact a False = Some c"
  shows "GetCompact (fst (SetCompact c)) False = Some c"
proof -
  let ?b = "fst (SetCompact c)"
  note v = compact_roundtrip(1) [OF assms]
  have t: "top3 ?b = (if 2 ^ 23 \<le> top3 a then top3 a div 256 * 256 else top3 a)"
    by (rule top3_compact [OF v])
  have carry: "2 ^ 23 \<le> top3 ?b \<longleftrightarrow> 2 ^ 23 \<le> top3 a"
    unfolding t by (auto simp: less_eq_div_iff_mult_less_eq dest: div_le_mono [where k = 256])
  obtain c' where c': "GetCompact ?b False = Some c'"
    and u': "unat c' = (if 2 ^ 23 \<le> top3 ?b then top3 ?b div 256 + (nbytes ?b + 1) * 2 ^ 24
              else top3 ?b + nbytes ?b * 2 ^ 24)"
    using GetCompact_val [of ?b] by auto
  have "unat c = (if 2 ^ 23 \<le> top3 a then top3 a div 256 + (nbytes a + 1) * 2 ^ 24
              else top3 a + nbytes a * 2 ^ 24)"
    using GetCompact_val [OF assms(1)] assms(2) by auto
  moreover have "unat c' = \<dots>"
    unfolding u' carry nbytes_compact [OF v] by (simp add: t)
  ultimately have "c' = c" by (simp add: word_eq_iff_unsigned [where 'a = nat])
  with c' show ?thesis by simp
qed

section \<open>Properties\<close>

text \<open>
  C18: long division of 256-bit numbers. \<open>operator/=\<close> throws exactly when the divisor is zero, and
  otherwise its shift-and-subtract loop ends with the quotient of the two values.
\<close>

theorem division_correct:
  assumes "length a = WIDTH" "length b = WIDTH"
  shows "case uint_div a b of
      Inl e \<Rightarrow> e = Division_by_zero \<and> limbs_val b = 0
    | Inr q \<Rightarrow> limbs_val b \<noteq> 0 \<and> length q = WIDTH \<and> limbs_val q = limbs_val a div limbs_val b"
  using uint_div_by_zero [of b a] uint_div_val [of a b] assms by (cases "limbs_val b = 0") auto

theorem division_correct_witness:
  "case uint_div (uint_of_u64 100) (uint_of_u64 7) of
      Inl e \<Rightarrow> False | Inr q \<Rightarrow> limbs_val q = 14"
  using division_correct [of "uint_of_u64 100" "uint_of_u64 7"]
  by (simp add: limbs_val_of_u64 split: sum.splits)

text \<open>
  C19: the word-by-word arithmetic is arithmetic modulo \<open>2^256\<close>: addition, subtraction,
  multiplication and both shifts compute the result on the values, wrapped.
\<close>

theorem arithmetic_wraps:
  assumes "length a = WIDTH" "length b = WIDTH"
  shows "limbs_val (uint_add a b) = (limbs_val a + limbs_val b) mod 2 ^ 256 \<and>
    limbs_val (uint_sub a b) = (limbs_val a + (2 ^ 256 - limbs_val b)) mod 2 ^ 256 \<and>
    limbs_val (uint_mul a b) = limbs_val a * limbs_val b mod 2 ^ 256 \<and>
    limbs_val (uint_shl a n) = limbs_val a * 2 ^ n mod 2 ^ 256 \<and>
    limbs_val (uint_shr a n) = limbs_val a div 2 ^ n"
  using assms uint_add_val [of a b] uint_sub_val [of a b] uint_mul_val [of b a] uint_shl_val [of a n]
    uint_shr_val [of a n]
  by (simp add: WIDTH_def)

theorem arithmetic_wraps_witness:
  "limbs_val (uint_mul (uint_not uint_zero) (uint_of_u64 2)) = 2 ^ 256 - 2"
proof -
  have "uint_is_zero uint_zero" by (simp add: uint_is_zero_def uint_zero_def list_all_iff)
  then have "limbs_val (uint_not uint_zero) = 2 ^ 256 - 1"
    using uint_not_val [of uint_zero] by (simp add: uint_is_zero_iff WIDTH_def uint_zero_def)
  then show ?thesis
    using arithmetic_wraps [of "uint_not uint_zero" "uint_of_u64 2" 1]
    by (simp add: limbs_val_of_u64 uint_zero_def)
qed

text \<open>
  C20: a compact target that \<open>GetCompact\<close> wrote decodes without a sign and without overflow, to the
  number with its lowest digits cut: never above the original, and off by less than one part in
  \<open>2^15\<close>; encoding the decoded number again gives the same code.
\<close>

theorem compact_encoding:
  assumes "length a = WIDTH" "GetCompact a False = Some c"
  defines "d \<equiv> SetCompact c"
  shows "\<not> fst (snd d) \<and> \<not> snd (snd d) \<and> limbs_val (fst d) \<le> limbs_val a \<and>
    2 ^ 15 * (limbs_val a - limbs_val (fst d)) \<le> limbs_val a \<and> GetCompact (fst d) False = Some c"
  using compact_roundtrip [OF assms(1,2)] compact_precision [of a] compact_canonical [OF assms(1,2)]
  by (simp add: d_def)

theorem compact_encoding_witness:
  "GetCompact (uint_of_u64 0x123456789) False = Some 0x05012345 \<and>
   GetCompact (fst (SetCompact 0x05012345)) False = Some 0x05012345"
proof -
  have "GetCompact (uint_of_u64 0x123456789) False = Some 0x05012345" by code_simp
  then show ?thesis using compact_encoding [of "uint_of_u64 0x123456789"] by simp
qed

text \<open>
  \<open>SetCompact\<close> decodes the compact form \<open>mantissa * 256^(size - 3)\<close>: the overflow flag is set
  exactly when that number does not fit in 256 bits, and without overflow the result has that value.
\<close>

theorem compact_decoding:
  "snd (snd (SetCompact c)) = (2 ^ 256 \<le> compact_val c) \<and>
   limbs_val (fst (SetCompact c)) = compact_val c mod 2 ^ 256"
  by (simp add: SetCompact_overflow SetCompact_val)

end
