(* ===== verification/Uint256.thy ===== *)
theory Uint256
  imports Arith256
begin

text \<open>
  The opaque blobs of \<^verbatim>\<open>src/uint256.h\<close> and \<^verbatim>\<open>src/uint256.cpp\<close>, the byte-order helpers of
  \<^verbatim>\<open>src/crypto/common.h\<close>, and the conversions between blobs and \<^verbatim>\<open>arith_uint256\<close>.
  A blob of \<open>BITS\<close> bits is the list of its \<open>BITS/8\<close> bytes. The lemmas show that the
  conversions are inverse to each other and that a printed blob parses back to itself.
\<close>

section \<open>Byte order\<close>

definition ReadLE16 :: "bytes \<Rightarrow> u16" where
  "ReadLE16 p = of_nat (le_read (take 2 p))"

definition ReadLE32 :: "bytes \<Rightarrow> u32" where
  "ReadLE32 p = of_nat (le_read (take 4 p))"

definition ReadLE64 :: "bytes \<Rightarrow> u64" where
  "ReadLE64 p = of_nat (le_read (take 8 p))"

definition WriteLE16 :: "u16 \<Rightarrow> bytes" where
  "WriteLE16 x = le_write 2 (unat x)"

definition WriteLE32 :: "u32 \<Rightarrow> bytes" where
  "WriteLE32 x = le_write 4 (unat x)"

definition WriteLE64 :: "u64 \<Rightarrow> bytes" where
  "WriteLE64 x = le_write 8 (unat x)"

definition ReadBE32 :: "bytes \<Rightarrow> u32" where
  "ReadBE32 p = of_nat (le_read (rev (take 4 p)))"

definition ReadBE64 :: "bytes \<Rightarrow> u64" where
  "ReadBE64 p = of_nat (le_read (rev (take 8 p)))"

definition WriteBE32 :: "u32 \<Rightarrow> bytes" where
  "WriteBE32 x = rev (le_write 4 (unat x))"

definition WriteBE64 :: "u64 \<Rightarrow> bytes" where
  "WriteBE64 x = rev (le_write 8 (unat x))"

lemma length_WriteLE [simp]:
  "length (WriteLE16 h) = 2" "length (WriteLE32 x) = 4" "length (WriteLE64 y) = 8"
  by (simp_all add: WriteLE16_def WriteLE32_def WriteLE64_def)

lemma length_WriteBE [simp]: "length (WriteBE32 x) = 4" "length (WriteBE64 y) = 8"
  by (simp_all add: WriteBE32_def WriteBE64_def)

lemma ReadLE_WriteLE [simp]:
  "ReadLE16 (WriteLE16 h @ r) = h" "ReadLE32 (WriteLE32 x @ r) = x" "ReadLE64 (WriteLE64 y @ r) = y"
  by (simp_all add: ReadLE16_def WriteLE16_def ReadLE32_def WriteLE32_def ReadLE64_def
      WriteLE64_def le_read_write)

lemma WriteLE_ReadLE:
  "2 \<le> length p \<Longrightarrow> WriteLE16 (ReadLE16 p) = take 2 p"
  "4 \<le> length p \<Longrightarrow> WriteLE32 (ReadLE32 p) = take 4 p"
  "8 \<le> length p \<Longrightarrow> WriteLE64 (ReadLE64 p) = take 8 p"
  using le_read_bound [of "take 2 p"] le_write_read [of "take 2 p"]
    le_read_bound [of "take 4 p"] le_write_read [of "take 4 p"]
    le_read_bound [of "take 8 p"] le_write_read [of "take 8 p"]
  by (simp_all add: ReadLE16_def WriteLE16_def ReadLE32_def WriteLE32_def ReadLE64_def
      WriteLE64_def unat_of_nat min_absorb2)

lemma ReadBE_WriteBE [simp]:
  "ReadBE32 (WriteBE32 x @ r) = x" "ReadBE64 (WriteBE64 y @ r) = y"
  by (simp_all add: ReadBE32_def WriteBE32_def ReadBE64_def WriteBE64_def le_read_write)

section \<open>Blobs\<close>

type_synonym uint256 = bytes
type_synonym uint160 = bytes

definition uint256_null :: uint256 where
  "uint256_null = replicate 32 0"

definition IsNull :: "bytes \<Rightarrow> bool" where
  "IsNull data = list_all (\<lambda>b. b = 0) data"

fun memcmp_less :: "bytes \<Rightarrow> bytes \<Rightarrow> bool" where
  "memcmp_less (x # xs) (y # ys) = (if x = y then memcmp_less xs ys else x < y)"
| "memcmp_less xs ys = False"

definition uint256_of_vector :: "bytes \<Rightarrow> uint256 option" where
  "uint256_of_vector vch = (if length vch = 32 then Some vch else None)"

definition GetCheapHash :: "uint256 \<Rightarrow> u64" where
  "GetCheapHash data = ReadLE64 data"

definition rotl32 :: "nat \<Rightarrow> u32 \<Rightarrow> u32" where
  "rotl32 n x = push_bit n x OR drop_bit (32 - n) x"

definition HashMix :: "u32 \<Rightarrow> u32 \<Rightarrow> u32 \<Rightarrow> u32 \<times> u32 \<times> u32" where
  "HashMix a b c =
     (let a = a - c; a = a XOR rotl32 4 c; c = c + b;
          b = b - a; b = b XOR rotl32 6 a; a = a + c;
          c = c - b; c = c XOR rotl32 8 b; b = b + a;
          a = a - c; a = a XOR rotl32 16 c; c = c + b;
          b = b - a; b = b XOR rotl32 19 a; a = a + c;
          c = c - b; c = c XOR rotl32 4 b; b = b + a
      in (a, b, c))"

definition HashFinal :: "u32 \<Rightarrow> u32 \<Rightarrow> u32 \<Rightarrow> u32 \<times> u32 \<times> u32" where
  "HashFinal a b c =
     (let c = c XOR b; c = c - rotl32 14 b;
          a = a XOR c; a = a - rotl32 11 c;
          b = b XOR a; b = b - rotl32 25 a;
          c = c XOR b; c = c - rotl32 16 b;
          a = a XOR c; a = a - rotl32 4 c;
          b = b XOR a; b = b - rotl32 14 a;
          c = c XOR b; c = c - rotl32 24 b
      in (a, b, c))"

definition GetHash :: "uint256 \<Rightarrow> uint256 \<Rightarrow> u64" where
  "GetHash data salt =
     (let pn = (\<lambda>i. ReadLE32 (drop (4 * i) data)); salt_pn = (\<lambda>i. ReadLE32 (drop (4 * i) salt));
          s = 0xdeadbeef + 32;
          a = s + (pn 0 XOR salt_pn 0); b = s + (pn 1 XOR salt_pn 1); c = s + (pn 2 XOR salt_pn 2);
          (a, b, c) = HashMix a b c;
          a = a + (pn 3 XOR salt_pn 3); b = b + (pn 4 XOR salt_pn 4); c = c + (pn 5 XOR salt_pn 5);
          (a, b, c) = HashMix a b c;
          a = a + (pn 6 XOR salt_pn 6); b = b + (pn 7 XOR salt_pn 7);
          (a, b, c) = HashFinal a b c
      in push_bit 32 (ucast b) OR ucast c)"

lemma memcmp_less_irrefl: "\<not> memcmp_less x x"
  by (induction x) auto

lemma memcmp_less_total:
  "length x = length y \<Longrightarrow> memcmp_less x y \<or> x = y \<or> memcmp_less y x"
  by (induction x y rule: list_induct2) auto

lemma memcmp_less_trans:
  "memcmp_less x y \<Longrightarrow> memcmp_less y z \<Longrightarrow> memcmp_less x z"
proof (induction x y arbitrary: z rule: memcmp_less.induct)
  case (1 x xs y ys)
  then show ?case by (cases z) (auto split: if_splits)
qed auto

section \<open>Conversion to and from the arithmetic type\<close>

definition ArithToUint256 :: "base_uint \<Rightarrow> uint256" where
  "ArithToUint256 a = concat (map WriteLE32 a)"

fun UintToArith_loop :: "nat \<Rightarrow> bytes \<Rightarrow> base_uint" where
  "UintToArith_loop 0 d = []"
| "UintToArith_loop (Suc n) d = ReadLE32 d # UintToArith_loop n (drop 4 d)"

definition UintToArith256 :: "uint256 \<Rightarrow> base_uint" where
  "UintToArith256 a = UintToArith_loop WIDTH a"

lemma length_concat_WriteLE32: "length (concat (map WriteLE32 a)) = 4 * length a"
  by (induction a) simp_all

lemma UintToArith_loop_inverse: "UintToArith_loop (length a) (concat (map WriteLE32 a) @ r) = a"
  by (induction a) simp_all

lemma length_UintToArith256 [simp]: "length (UintToArith256 a) = WIDTH"
proof -
  have "length (UintToArith_loop n d) = n" for n d
    by (induction n arbitrary: d) simp_all
  then show ?thesis by (simp add: UintToArith256_def)
qed

lemma concat_WriteLE32_inverse:
  "length d = 4 * n \<Longrightarrow> concat (map WriteLE32 (UintToArith_loop n d)) = d"
  by (induction n arbitrary: d) (simp_all add: WriteLE_ReadLE)

lemma UintToArith256_ArithToUint256:
  "length a = WIDTH \<Longrightarrow> UintToArith256 (ArithToUint256 a) = a"
  using UintToArith_loop_inverse [of a "[]"] by (simp add: UintToArith256_def ArithToUint256_def)

lemma ArithToUint256_UintToArith256:
  "length d = 32 \<Longrightarrow> ArithToUint256 (UintToArith256 d) = d"
  by (simp add: UintToArith256_def ArithToUint256_def concat_WriteLE32_inverse WIDTH_def)

lemma le_read_concat_WriteLE32: "le_read (concat (map WriteLE32 a)) = limbs_val a"
proof (induction a)
  case (Cons x a)
  have "le_read (WriteLE32 x) = unat x"
    by (simp add: WriteLE32_def le_read_write)
  with Cons show ?case by (simp add: le_read_append)
qed simp

text \<open>A blob read as an arithmetic value is its little-endian number.\<close>

lemma UintToArith256_val: "length d = 32 \<Longrightarrow> limbs_val (UintToArith256 d) = le_read d"
  using le_read_concat_WriteLE32 [of "UintToArith256 d"] ArithToUint256_UintToArith256 [of d]
  by (simp add: ArithToUint256_def)

section \<open>Hexadecimal\<close>

definition isspace :: "char \<Rightarrow> bool" where
  "isspace c = (let n = (of_char c :: nat) in n = 32 \<or> (9 \<le> n \<and> n \<le> 13))"

definition HexDigit :: "char \<Rightarrow> int" where
  "HexDigit c =
     (let n = (of_char c :: int) in
      if 48 \<le> n \<and> n \<le> 57 then n - 48
      else if 65 \<le> n \<and> n \<le> 70 then n - 55
      else if 97 \<le> n \<and> n \<le> 102 then n - 87
      else - 1)"

definition hexmap :: string where
  "hexmap = ''0123456789abcdef''"

text \<open>The two characters that \<^verbatim>\<open>%02x\<close> prints.\<close>

definition hex2 :: "u8 \<Rightarrow> string" where
  "hex2 b = [hexmap ! unat (drop_bit 4 b), hexmap ! unat (b AND 15)]"

definition GetHex :: "bytes \<Rightarrow> string" where
  "GetHex data = concat (map hex2 (rev data))"

fun SetHex_loop :: "nat \<Rightarrow> string \<Rightarrow> bytes" where
  "SetHex_loop 0 cs = []"
| "SetHex_loop (Suc n) [] = replicate (Suc n) 0"
| "SetHex_loop (Suc n) [c] = of_int (HexDigit c) # replicate n 0"
| "SetHex_loop (Suc n) (c # d # cs) =
     (of_int (HexDigit c) OR push_bit 4 (of_int (HexDigit d))) # SetHex_loop n cs"

definition SetHex :: "nat \<Rightarrow> string \<Rightarrow> bytes" where
  "SetHex width psz =
     (let psz1 = dropWhile isspace psz;
          psz2 = (case psz1 of c # d # r \<Rightarrow> if c = CHR ''0'' \<and> (d = CHR ''x'' \<or> d = CHR ''X'') then r else psz1
                  | _ \<Rightarrow> psz1);
          digits = takeWhile (\<lambda>c. HexDigit c \<noteq> - 1) psz2
      in SetHex_loop width (rev digits))"

lemma hexmap_all:
  "list_all (\<lambda>n. HexDigit (hexmap ! n) = int n \<and> \<not> isspace (hexmap ! n)) [0..<16]"
  by code_simp

lemma hexmap_digit: "n < 16 \<Longrightarrow> HexDigit (hexmap ! n) = int n"
  and hexmap_nospace: "n < 16 \<Longrightarrow> \<not> isspace (hexmap ! n)"
  using hexmap_all by (simp_all add: list_all_iff)

lemma mask4: "(15 :: u8) = mask 4"
  by (simp add: mask_eq_exp_minus_1)

lemma nibbles_lt: "unat (drop_bit 4 (b :: u8)) < 16" "unat (b AND 15) < 16"
  using unat_lt8 [of b] by (simp_all add: unat_drop_bit less_mult_imp_div_less mask4 unat_and_mask)

lemma nibbles_join: "(b AND 15) OR push_bit 4 (drop_bit 4 b) = (b :: u8)"
proof -
  have "b AND 15 = take_bit 4 b" by (simp only: mask4 take_bit_eq_mask)
  then show ?thesis by (auto intro!: bit_eqI simp: bit_simps)
qed

lemma SetHex_loop_rev_hex:
  "SetHex_loop (length d) (rev (concat (map hex2 (rev d)))) = d"
proof (induction d)
  case (Cons b d)
  have "rev (concat (map hex2 (rev (b # d)))) =
      hexmap ! unat (b AND 15) # hexmap ! unat (drop_bit 4 b) # rev (concat (map hex2 (rev d)))"
    by (simp add: hex2_def)
  moreover have "of_int (HexDigit (hexmap ! unat (b AND 15))) OR
      push_bit 4 (of_int (HexDigit (hexmap ! unat (drop_bit 4 b)))) = b"
    using nibbles_join [of b] by (simp only: hexmap_digit nibbles_lt of_nat_unat of_int_uint ucast_id)
  ultimately show ?case using Cons by simp
qed simp

lemma GetHex_digits: "c \<in> set (GetHex d) \<Longrightarrow> HexDigit c \<noteq> - 1 \<and> \<not> isspace c"
proof -
  assume "c \<in> set (GetHex d)"
  then obtain n where "n < 16" "c = hexmap ! n"
    using nibbles_lt by (auto simp: GetHex_def hex2_def)
  then show ?thesis by (simp add: hexmap_digit hexmap_nospace)
qed

lemma HexDigit_x: "HexDigit CHR ''x'' = - 1" "HexDigit CHR ''X'' = - 1"
  by (simp_all add: HexDigit_def)

text \<open>A blob printed by \<open>GetHex\<close> is parsed back by \<open>SetHex\<close>.\<close>

lemma SetHex_GetHex: "SetHex (length d) (GetHex d) = d"
proof -
  have "dropWhile isspace (GetHex d) = GetHex d"
    using GetHex_digits [of "hd (GetHex d)" d] by (cases "GetHex d") (auto simp: dropWhile_eq_self_iff)
  moreover have "(case GetHex d of c # e # r \<Rightarrow> if c = CHR ''0'' \<and> (e = CHR ''x'' \<or> e = CHR ''X'')
      then r else GetHex d | _ \<Rightarrow> GetHex d) = GetHex d"
    using GetHex_digits [of _ d] HexDigit_x by (auto split: list.split)
  moreover have "takeWhile (\<lambda>c. HexDigit c \<noteq> - 1) (GetHex d) = GetHex d"
    using GetHex_digits by simp
  ultimately have "SetHex (length d) (GetHex d) = SetHex_loop (length d) (rev (GetHex d))"
    unfolding SetHex_def Let_def by (simp only:)
  then show ?thesis by (simp add: GetHex_def SetHex_loop_rev_hex)
qed

section \<open>Properties\<close>

text \<open>
  C21: the conversions between the opaque 32-byte hashes and the 256-bit integers are inverse to each
  other, and the integer is the little-endian value of the bytes.
\<close>

theorem hash_integer_conversion:
  assumes "length a = WIDTH" "length d = 32"
  shows "UintToArith256 (ArithToUint256 a) = a \<and> ArithToUint256 (UintToArith256 d) = d \<and>
    limbs_val (UintToArith256 d) = le_read d"
  using assms by (simp add: UintToArith256_ArithToUint256 ArithToUint256_UintToArith256 UintToArith256_val)

theorem hash_integer_conversion_witness:
  "limbs_val (UintToArith256 (7 # replicate 31 0)) = 7 \<and>
   UintToArith256 (ArithToUint256 (uint_of_u64 258)) = uint_of_u64 258"
proof -
  have z: "le_read (replicate n 0) = 0" for n by (induction n) simp_all
  show ?thesis
    using hash_integer_conversion [of "uint_of_u64 258" "7 # replicate 31 0"] by (simp add: z)
qed

text \<open>
  \<open>SetHex\<close> reads back what \<open>GetHex\<close> prints, for a hash of any width; the printed text has two
  hexadecimal digits for each byte.
\<close>

theorem hex_roundtrip:
  "SetHex (length d) (GetHex d) = d \<and> length (GetHex d) = 2 * length d \<and>
   list_all (\<lambda>c. HexDigit c \<noteq> - 1) (GetHex d)"
proof -
  have "length (concat (map hex2 ds)) = 2 * length ds" for ds by (induction ds) (simp_all add: hex2_def)
  then have "length (GetHex d) = 2 * length d" by (simp add: GetHex_def)
  then show ?thesis using GetHex_digits [of _ d] by (auto simp: SetHex_GetHex list_all_iff)
qed

end
