(* ===== verification/Serialize.thy ===== *)
theory Serialize
  imports Uint256 "HOL-Library.Monad_Syntax"
begin

text \<open>
  The serialization of \<^verbatim>\<open>serialize.h\<close>. Writing yields the bytes appended to the stream; reading takes
  the bytes that are left and yields the value and the rest, or nothing when the code throws
  \<open>ios_base::failure\<close>. The locale \<open>codec\<close> is the contract of a pair of such operations: what is
  written reads back. In a \<open>canonical_codec\<close> also nothing else reads as the same value. The
  contract passes from the elements to vectors and arrays; it is interpreted on the integers,
  compact sizes, variable-length integers and byte vectors.
\<close>

section \<open>Integers\<close>

definition stream_read :: "nat \<Rightarrow> bytes \<Rightarrow> (bytes \<times> bytes) option" where
  "stream_read n s = (if length s < n then None else Some (take n s, drop n s))"

definition ser_writedata8 :: "u8 \<Rightarrow> bytes" where "ser_writedata8 obj = [obj]"
definition ser_writedata16 :: "u16 \<Rightarrow> bytes" where "ser_writedata16 obj = WriteLE16 obj"
definition ser_writedata32 :: "u32 \<Rightarrow> bytes" where "ser_writedata32 obj = WriteLE32 obj"
definition ser_writedata64 :: "u64 \<Rightarrow> bytes" where "ser_writedata64 obj = WriteLE64 obj"

definition ser_readdata8 :: "bytes \<Rightarrow> (u8 \<times> bytes) option" where
  "ser_readdata8 s = do { (b, s') \<leftarrow> stream_read 1 s; Some (hd b, s') }"

definition ser_readdata16 :: "bytes \<Rightarrow> (u16 \<times> bytes) option" where
  "ser_readdata16 s = do { (b, s') \<leftarrow> stream_read 2 s; Some (ReadLE16 b, s') }"

definition ser_readdata32 :: "bytes \<Rightarrow> (u32 \<times> bytes) option" where
  "ser_readdata32 s = do { (b, s') \<leftarrow> stream_read 4 s; Some (ReadLE32 b, s') }"

definition ser_readdata64 :: "bytes \<Rightarrow> (u64 \<times> bytes) option" where
  "ser_readdata64 s = do { (b, s') \<leftarrow> stream_read 8 s; Some (ReadLE64 b, s') }"

text \<open>Signed integers are written as their unsigned representatives.\<close>

definition put_int32 :: "int \<Rightarrow> bytes" where "put_int32 a = ser_writedata32 (of_int a)"
definition put_int64 :: "int \<Rightarrow> bytes" where "put_int64 a = ser_writedata64 (of_int a)"

definition get_int32 :: "bytes \<Rightarrow> (int \<times> bytes) option" where
  "get_int32 s = do { (a, s') \<leftarrow> ser_readdata32 s; Some (sint a, s') }"

definition get_int64 :: "bytes \<Rightarrow> (int \<times> bytes) option" where
  "get_int64 s = do { (a, s') \<leftarrow> ser_readdata64 s; Some (sint a, s') }"

section \<open>Compact sizes\<close>

definition MAX_SIZE :: u64 where "MAX_SIZE = 0x02000000"

definition GetSizeOfCompactSize :: "u64 \<Rightarrow> nat" where
  "GetSizeOfCompactSize nSize =
     (if nSize < 253 then 1 else if nSize \<le> 0xFFFF then 3 else if nSize \<le> 0xFFFFFFFF then 5 else 9)"

definition WriteCompactSize :: "u64 \<Rightarrow> bytes" where
  "WriteCompactSize nSize =
     (if nSize < 253 then ser_writedata8 (ucast nSize)
      else if nSize \<le> 0xFFFF then ser_writedata8 253 @ ser_writedata16 (ucast nSize)
      else if nSize \<le> 0xFFFFFFFF then ser_writedata8 254 @ ser_writedata32 (ucast nSize)
      else ser_writedata8 255 @ ser_writedata64 nSize)"

definition ReadCompactSize :: "bytes \<Rightarrow> (u64 \<times> bytes) option" where
  "ReadCompactSize s = do {
     (chSize, s1) \<leftarrow> ser_readdata8 s;
     (nSizeRet, s2) \<leftarrow>
       (if chSize < 253 then Some (ucast chSize, s1)
        else if chSize = 253 then do {
          (n, s') \<leftarrow> ser_readdata16 s1; if (ucast n :: u64) < 253 then None else Some (ucast n, s') }
        else if chSize = 254 then do {
          (n, s') \<leftarrow> ser_readdata32 s1; if (ucast n :: u64) < 0x10000 then None else Some (ucast n, s') }
        else do {
          (n, s') \<leftarrow> ser_readdata64 s1; if n < 0x100000000 then None else Some (n, s') });
     if nSizeRet > MAX_SIZE then None else Some (nSizeRet, s2) }"

section \<open>Variable-length integers\<close>

lemma varint_next:
  assumes "\<not> n \<le> (0x7F :: u64)"
  shows "unat (drop_bit 7 n - 1) = unat n div 128 - 1" "unat (drop_bit 7 n - 1) < unat n"
proof -
  have n: "unat n > 127" using assms by (simp add: word_le_nat_alt)
  then have "0 < unat n div 128" by (simp add: div_greater_zero_iff)
  moreover have d: "unat (drop_bit 7 n) = unat n div 128" by (simp add: unat_drop_bit)
  ultimately have "drop_bit 7 n \<noteq> 0" by auto
  then show e: "unat (drop_bit 7 n - 1) = unat n div 128 - 1" by (simp add: unat_minus_one d)
  show "unat (drop_bit 7 n - 1) < unat n" unfolding e using n by simp
qed

text \<open>The digits as they are stored in \<open>tmp\<close>, the last one first; they are written in reverse.\<close>

function varint_tmp :: "bool \<Rightarrow> u64 \<Rightarrow> bytes" where
  "varint_tmp later n =
     (ucast (n AND 0x7F) OR (if later then 0x80 else 0x00)) #
       (if n \<le> 0x7F then [] else varint_tmp True (drop_bit 7 n - 1))"
  by auto
termination
  by (relation "measure (\<lambda>(later, n). unat n)") (auto simp: varint_next(2))

declare varint_tmp.simps [simp del]

definition WriteVarInt :: "u64 \<Rightarrow> bytes" where
  "WriteVarInt n = rev (varint_tmp False n)"

function GetSizeOfVarInt :: "u64 \<Rightarrow> nat" where
  "GetSizeOfVarInt n = 1 + (if n \<le> 0x7F then 0 else GetSizeOfVarInt (drop_bit 7 n - 1))"
  by auto
termination
  by (relation "measure unat") (auto simp: varint_next(2))

declare GetSizeOfVarInt.simps [simp del]

text \<open>The width of the integer type is a parameter of the template; the loop drops what does not fit.\<close>

fun ReadVarInt_loop :: "'a::len word \<Rightarrow> bytes \<Rightarrow> ('a word \<times> bytes) option" where
  "ReadVarInt_loop n [] = None"
| "ReadVarInt_loop n (chData # s) =
     (let n' = push_bit 7 n OR ucast (chData AND 0x7F)
      in if chData AND 0x80 \<noteq> 0 then ReadVarInt_loop (n' + 1) s else Some (n', s))"

definition ReadVarInt :: "bytes \<Rightarrow> (u64 \<times> bytes) option" where
  "ReadVarInt s = ReadVarInt_loop 0 s"

definition ReadVarInt32 :: "bytes \<Rightarrow> (u32 \<times> bytes) option" where
  "ReadVarInt32 s = ReadVarInt_loop 0 s"

text \<open>
  For the signed type \<open>int\<close> every negative number is at most \<open>0x7F\<close>, so the loop ends at once and only
  its seven lowest bits are written.
\<close>

definition WriteVarInt_int :: "int \<Rightarrow> bytes" where
  "WriteVarInt_int n = (if n < 0 then ser_writedata8 (of_int n AND 0x7F) else WriteVarInt (of_int n))"

definition ReadVarInt_int :: "bytes \<Rightarrow> (int \<times> bytes) option" where
  "ReadVarInt_int s = do { (n, s') \<leftarrow> ReadVarInt32 s; Some (sint n, s') }"

section \<open>Byte vectors, vectors and arrays\<close>

definition put_blob :: "bytes \<Rightarrow> bytes" where "put_blob v = v"

definition put_byte_vector :: "bytes \<Rightarrow> bytes" where
  "put_byte_vector v = WriteCompactSize (of_nat (length v)) @ v"

definition get_byte_vector :: "bytes \<Rightarrow> (bytes \<times> bytes) option" where
  "get_byte_vector s = do { (nSize, s1) \<leftarrow> ReadCompactSize s; stream_read (unat nSize) s1 }"

fun get_array :: "(bytes \<Rightarrow> ('a \<times> bytes) option) \<Rightarrow> nat \<Rightarrow> bytes \<Rightarrow> ('a list \<times> bytes) option" where
  "get_array get 0 s = Some ([], s)"
| "get_array get (Suc n) s = do { (x, s1) \<leftarrow> get s; (xs, s2) \<leftarrow> get_array get n s1; Some (x # xs, s2) }"

definition put_array :: "('a \<Rightarrow> bytes) \<Rightarrow> 'a list \<Rightarrow> bytes" where
  "put_array put xs = concat (map put xs)"

definition put_vector :: "('a \<Rightarrow> bytes) \<Rightarrow> 'a list \<Rightarrow> bytes" where
  "put_vector put v = WriteCompactSize (of_nat (length v)) @ concat (map put v)"

definition get_vector :: "(bytes \<Rightarrow> ('a \<times> bytes) option) \<Rightarrow> bytes \<Rightarrow> ('a list \<times> bytes) option" where
  "get_vector get s = do { (nSize, s1) \<leftarrow> ReadCompactSize s; get_array get (unat nSize) s1 }"

section \<open>The contract\<close>

locale codec =
  fixes put :: "'a \<Rightarrow> bytes" and get :: "bytes \<Rightarrow> ('a \<times> bytes) option" and valid :: "'a \<Rightarrow> bool"
  assumes get_put: "valid x \<Longrightarrow> get (put x @ s) = Some (x, s)"
begin

lemma put_prefix_free: "valid x \<Longrightarrow> valid y \<Longrightarrow> put x @ s = put y @ s' \<Longrightarrow> x = y \<and> s = s'"
  by (metis get_put option.inject prod.inject)

lemma put_inject: "valid x \<Longrightarrow> valid y \<Longrightarrow> put x = put y \<Longrightarrow> x = y"
  using put_prefix_free [of x y "[]" "[]"] by simp

lemma get_array_put: "\<forall>x \<in> set xs. valid x \<Longrightarrow> get_array get (length xs) (concat (map put xs) @ s) = Some (xs, s)"
  by (induction xs) (simp_all add: get_put)

end

locale canonical_codec = codec +
  assumes put_get: "get s = Some (x, s') \<Longrightarrow> valid x \<and> s = put x @ s'"
begin

lemma get_iff: "get s = Some (x, s') \<longleftrightarrow> valid x \<and> s = put x @ s'"
  using get_put put_get by blast

lemma get_array_iff:
  "get_array get n s = Some (xs, s') \<longleftrightarrow> length xs = n \<and> (\<forall>x \<in> set xs. valid x) \<and> s = concat (map put xs) @ s'"
proof (induction n arbitrary: s xs)
  case (Suc n)
  show ?case by (cases xs) (auto simp: Suc get_iff bind_eq_Some_conv)
qed auto

end

section \<open>Integers read back\<close>

lemma stream_read_iff: "stream_read n s = Some (b, s') \<longleftrightarrow> length b = n \<and> s = b @ s'"
  by (auto simp: stream_read_def)

lemma ser_readdata8_iff: "ser_readdata8 s = Some (x, s') \<longleftrightarrow> s = x # s'"
  by (cases s) (auto simp: ser_readdata8_def stream_read_def)

lemma ser_readdata_iff:
  "ser_readdata16 s = Some (h, s') \<longleftrightarrow> s = WriteLE16 h @ s'"
  "ser_readdata32 s = Some (x, s') \<longleftrightarrow> s = WriteLE32 x @ s'"
  "ser_readdata64 s = Some (y, s') \<longleftrightarrow> s = WriteLE64 y @ s'"
  using WriteLE_ReadLE [of "take 2 s"] WriteLE_ReadLE [of "take 4 s"] WriteLE_ReadLE [of "take 8 s"]
    ReadLE_WriteLE(1) [of h "[]"] ReadLE_WriteLE(2) [of x "[]"] ReadLE_WriteLE(3) [of y "[]"]
  by (auto simp: ser_readdata16_def ser_readdata32_def ser_readdata64_def stream_read_def)

interpretation c8: canonical_codec ser_writedata8 ser_readdata8 "\<lambda>_. True"
  by unfold_locales (auto simp: ser_writedata8_def ser_readdata8_iff)

interpretation c16: canonical_codec ser_writedata16 ser_readdata16 "\<lambda>_. True"
  by unfold_locales (auto simp: ser_writedata16_def ser_readdata_iff)

interpretation c32: canonical_codec ser_writedata32 ser_readdata32 "\<lambda>_. True"
  by unfold_locales (auto simp: ser_writedata32_def ser_readdata_iff)

interpretation c64: canonical_codec ser_writedata64 ser_readdata64 "\<lambda>_. True"
  by unfold_locales (auto simp: ser_writedata64_def ser_readdata_iff)

definition int32_range :: "int \<Rightarrow> bool" where "int32_range a \<longleftrightarrow> - (2 ^ 31) \<le> a \<and> a < 2 ^ 31"
definition int64_range :: "int \<Rightarrow> bool" where "int64_range a \<longleftrightarrow> - (2 ^ 63) \<le> a \<and> a < 2 ^ 63"

lemma sint_of_int:
  "int32_range a \<Longrightarrow> sint (of_int a :: u32) = a" "int64_range a \<Longrightarrow> sint (of_int a :: u64) = a"
  "int32_range (sint (x :: u32))" "int64_range (sint (y :: u64))"
  using sint_range_size [of x] sint_range_size [of y]
  by (auto simp: int32_range_def int64_range_def sint_sbintrunc' signed_take_bit_int_eq_self word_size)

interpretation ci32: canonical_codec put_int32 get_int32 int32_range
  by unfold_locales
     (auto simp: put_int32_def get_int32_def c32.get_put c32.get_iff sint_of_int bind_eq_Some_conv)

interpretation ci64: canonical_codec put_int64 get_int64 int64_range
  by unfold_locales
     (auto simp: put_int64_def get_int64_def c64.get_put c64.get_iff sint_of_int bind_eq_Some_conv)

section \<open>Sizes and variable-length integers read back\<close>

lemma compact_size_cases:
  fixes n :: u64
  obtains "n < 253" | "253 \<le> n" "n \<le> 0xFFFF" | "0xFFFF < n" "n \<le> 0xFFFFFFFF" | "0xFFFFFFFF < n"
  by (metis not_le)

lemma ReadCompactSize_put:
  assumes "n \<le> MAX_SIZE"
  shows "ReadCompactSize (WriteCompactSize n @ s) = Some (n, s)"
proof -
  have n: "n \<le> 0xFFFFFFFF" using assms by (simp add: MAX_SIZE_def word_le_nat_alt)
  have u: "unat (ucast n :: u8) = unat n mod 256" "unat (ucast n :: u16) = unat n mod 65536"
    "unat (ucast n :: u32) = unat n mod 4294967296" by (simp_all add: unat_ucast)
  consider "n < 253" | "253 \<le> n" "n \<le> 0xFFFF" | "0xFFFF < n" using not_le by blast
  then show ?thesis
  proof cases
    case 1
    then have c: "(ucast n :: u8) < 253" "(ucast (ucast n :: u8) :: u64) = n"
      using u by (simp_all add: word_less_nat_alt word_unat_eq_iff)
    show ?thesis using 1 assms by (simp add: WriteCompactSize_def ReadCompactSize_def c8.get_put c not_less)
  next
    case 2
    then have c: "(ucast (ucast n :: u16) :: u64) = n"
      using u by (simp add: word_less_nat_alt word_le_nat_alt word_unat_eq_iff)
    show ?thesis using 2 assms
      by (simp add: WriteCompactSize_def ReadCompactSize_def c8.get_put c16.get_put c not_less leD)
  next
    case 3
    then have c: "\<not> n < 253" "\<not> n \<le> 0xFFFF" "\<not> n < 0x10000" "(ucast (ucast n :: u32) :: u64) = n"
      using u n by (simp_all add: word_less_nat_alt word_le_nat_alt word_unat_eq_iff)
    show ?thesis using n assms
      by (simp add: WriteCompactSize_def ReadCompactSize_def c8.get_put c32.get_put c)
  qed
qed

lemma ReadCompactSize_canonical:
  assumes "ReadCompactSize s = Some (n, s')"
  shows "n \<le> MAX_SIZE \<and> s = WriteCompactSize n @ s'"
proof -
  obtain ch s1 where ch: "s = ch # s1" and ok: "n \<le> MAX_SIZE"
    using assms by (auto simp: ReadCompactSize_def bind_eq_Some_conv ser_readdata8_iff not_less split: if_splits)
  consider "ch < 253" | "ch = 253" | "ch = 254" | "ch = 255"
    using unat_lt8 [of ch] by (fastforce simp: word_less_nat_alt word_unat_eq_iff)
  then have "s = WriteCompactSize n @ s'"
  proof cases
    case 1
    then have n: "n = ucast ch" "s' = s1"
      using assms ch by (auto simp: ReadCompactSize_def ser_readdata8_iff bind_eq_Some_conv split: if_splits)
    moreover have "(ucast ch :: u64) < 253" "(ucast (ucast ch :: u64) :: u8) = ch"
      using 1 by (simp_all add: word_less_nat_alt word_unat_eq_iff unat_ucast)
    ultimately show ?thesis using ch by (simp add: WriteCompactSize_def ser_writedata8_def)
  next
    case 2
    then obtain h where h: "n = ucast h" "s1 = WriteLE16 h @ s'" "\<not> (ucast h :: u64) < 253"
      using assms ch by (auto simp: ReadCompactSize_def ser_readdata8_iff ser_readdata_iff bind_eq_Some_conv split: if_splits)
    moreover have "(ucast h :: u64) \<le> 0xFFFF" "(ucast (ucast h :: u64) :: u16) = h"
      using unat_lt16 [of h] by (simp_all add: word_le_nat_alt word_unat_eq_iff unat_ucast)
    ultimately show ?thesis using ch 2 by (simp add: WriteCompactSize_def ser_writedata8_def ser_writedata16_def)
  next
    case 3
    then obtain x where h: "n = ucast x" "s1 = WriteLE32 x @ s'" "\<not> (ucast x :: u64) < 0x10000"
      using assms ch by (auto simp: ReadCompactSize_def ser_readdata8_iff ser_readdata_iff bind_eq_Some_conv split: if_splits)
    moreover have "(ucast x :: u64) \<le> 0xFFFFFFFF" "(ucast (ucast x :: u64) :: u32) = x"
      using unat_lt32 [of x] by (simp_all add: word_le_nat_alt word_unat_eq_iff unat_ucast)
    moreover have "\<not> (ucast x :: u64) \<le> 0xFFFF" "\<not> (ucast x :: u64) < 253"
      using h(3) by (simp_all add: word_le_nat_alt word_less_nat_alt)
    ultimately show ?thesis using ch 3 by (simp add: WriteCompactSize_def ser_writedata8_def ser_writedata32_def)
  next
    case 4
    then have "\<not> n < 0x100000000"
      using assms ch by (auto simp: ReadCompactSize_def ser_readdata8_iff ser_readdata_iff bind_eq_Some_conv split: if_splits)
    then show ?thesis using ok by (simp add: MAX_SIZE_def word_less_nat_alt word_le_nat_alt)
  qed
  then show ?thesis using ok by simp
qed

interpretation ccs: canonical_codec WriteCompactSize ReadCompactSize "\<lambda>n. n \<le> MAX_SIZE"
  by unfold_locales (simp_all add: ReadCompactSize_put ReadCompactSize_canonical)

lemma GetSizeOfCompactSize_length: "GetSizeOfCompactSize n = length (WriteCompactSize n)"
  by (simp add: GetSizeOfCompactSize_def WriteCompactSize_def ser_writedata8_def ser_writedata16_def
      ser_writedata32_def ser_writedata64_def)

text \<open>One digit of a variable-length integer.\<close>

lemma varint_digit:
  "ucast ((ucast (n AND 0x7F) OR (if later then 0x80 else 0) :: u8) AND 0x7F) = (n AND 0x7F :: u64)"
  "((ucast (n AND 0x7F) OR (if later then 0x80 else 0) :: u8) AND 0x80 \<noteq> 0) = later"
  "push_bit 7 (drop_bit 7 n) OR (n AND 0x7F) = n"
proof -
  have m8: "(0x7F :: u8) = mask 7" and m64: "(0x7F :: u64) = mask 7" by (simp_all add: mask_eq_exp_minus_1)
  have h: "bit (0x80 :: u8) k \<longleftrightarrow> k = 7" for k
    using bit_exp_iff [of 7 k, where 'a = "8 word"] by auto
  have h': "bit (0x80 :: int) k \<longleftrightarrow> k = 7" for k
    using bit_exp_iff [of 7 k, where 'a = int] by auto
  show "ucast ((ucast (n AND 0x7F) OR (if later then 0x80 else 0) :: u8) AND 0x7F) = (n AND 0x7F :: u64)"
    unfolding m8 m64 by (rule bit_word_eqI) (auto simp: bit_simps h h')
  show "((ucast (n AND 0x7F) OR (if later then 0x80 else 0) :: u8) AND 0x80 \<noteq> 0) = later"
    using and_exp_eq_0_iff_not_bit [of "ucast (n AND 0x7F) OR (if later then 0x80 else 0) :: u8" 7]
    by (cases later) (simp_all add: m64 bit_simps h h')
  show "push_bit 7 (drop_bit 7 n) OR (n AND 0x7F) = n"
    unfolding m64 by (rule bit_word_eqI) (auto simp: bit_simps)
qed

lemma ReadVarInt_later: "ReadVarInt_loop 0 (rev (varint_tmp True n) @ s) = ReadVarInt_loop (n + 1) s"
proof (induction n arbitrary: s rule: varint_tmp.induct [of "\<lambda>_ n. P n" for P, simplified])
  case (1 n)
  show ?case
  proof (cases "n \<le> 0x7F")
    case True
    then have "drop_bit 7 n = 0" by (simp add: word_unat_eq_iff unat_drop_bit word_le_nat_alt)
    then have "n AND 0x7F = n" using varint_digit(3) [of n] by simp
    then show ?thesis using True varint_digit(1,2) [of n True] varint_digit(3) [of n]
      by (simp add: varint_tmp.simps [of True n] Let_def)
  next
    case False
    then show ?thesis using 1 varint_digit(1,2) [of n True] varint_digit(3) [of n]
      by (simp add: varint_tmp.simps [of True n] Let_def)
  qed
qed

interpretation cvi: codec WriteVarInt ReadVarInt "\<lambda>_. True"
proof
  fix n :: u64 and s
  have d: "push_bit 7 (drop_bit 7 n) OR (n AND 0x7F) = n" by (rule varint_digit(3))
  show "ReadVarInt (WriteVarInt n @ s) = Some (n, s)"
  proof (cases "n \<le> 0x7F")
    case True
    then have "drop_bit 7 n = 0" by (simp add: word_unat_eq_iff unat_drop_bit word_le_nat_alt)
    then have "n AND 0x7F = n" using d by simp
    then show ?thesis using True varint_digit(1,2) [of n False]
      by (simp add: WriteVarInt_def ReadVarInt_def varint_tmp.simps [of False n] Let_def)
  next
    case False
    then show ?thesis using varint_digit(1,2) [of n False] d
      by (simp add: WriteVarInt_def ReadVarInt_def varint_tmp.simps [of False n] ReadVarInt_later Let_def)
  qed
qed

lemma ReadVarInt_loop_ucast:
  fixes n :: u64
  shows "ReadVarInt_loop (ucast n :: u32) s = map_option (\<lambda>(n, s). (ucast n, s)) (ReadVarInt_loop n s)"
proof (induction n s rule: ReadVarInt_loop.induct)
  case (2 n chData s)
  have e: "push_bit 7 (ucast n :: u32) OR ucast (chData AND 0x7F) = ucast (push_bit 7 n OR ucast (chData AND 0x7F))"
    by (rule bit_word_eqI) (auto simp: bit_simps)
  have "(ucast m + 1 :: u32) = ucast (m + 1)" for m :: u64
    by (simp only: word_uint_eq_iff unsigned_ucast_eq uint_word_ariths take_bit_eq_mod)
       (simp add: mod_mod_cancel mod_simps)
  then show ?case using 2 by (simp add: Let_def e)
qed simp

lemma ucast_up_down: "ucast (ucast n :: u64) = (n :: u32)"
  by (rule bit_word_eqI) (simp add: bit_simps)

interpretation cvi32: codec "\<lambda>n. WriteVarInt (ucast (n :: u32))" ReadVarInt32 "\<lambda>_. True"
proof
  fix n :: u32 and s
  show "ReadVarInt32 (WriteVarInt (ucast n) @ s) = Some (n, s)"
    using ReadVarInt_loop_ucast [of 0 "WriteVarInt (ucast n) @ s"] cvi.get_put [of "ucast n" s] ucast_up_down
    by (simp add: ReadVarInt32_def ReadVarInt_def)
qed

interpretation cvii: codec WriteVarInt_int ReadVarInt_int "\<lambda>n. 0 \<le> n \<and> n < 2 ^ 31"
proof
  fix n :: int and s assume n: "0 \<le> n \<and> n < 2 ^ 31"
  then have u: "uint (of_int n :: u32) = n" "uint (of_int n :: u64) = n"
    by (simp_all add: uint_word_of_int_eq take_bit_int_eq_self)
  have "(of_int n :: u64) = ucast (of_int n :: u32)"
    using n by (simp add: word_uint_eq_iff u unsigned_ucast_eq take_bit_int_eq_self)
  moreover have "sint (of_int n :: u32) = n"
    using n by (simp add: sint_of_int int32_range_def)
  ultimately show "ReadVarInt_int (WriteVarInt_int n @ s) = Some (n, s)"
    using n cvi32.get_put [of "of_int n" s] by (simp add: WriteVarInt_int_def ReadVarInt_int_def)
qed

lemma GetSizeOfVarInt_length: "GetSizeOfVarInt n = length (varint_tmp later n)"
proof (induction n arbitrary: later rule: GetSizeOfVarInt.induct)
  case (1 n)
  show ?case
    using 1 [of True] by (simp add: GetSizeOfVarInt.simps [of n] varint_tmp.simps [of later n])
qed

lemma varint_length: "unat n < 128 ^ k \<Longrightarrow> 0 < k \<Longrightarrow> GetSizeOfVarInt n \<le> k"
proof (induction n arbitrary: k rule: GetSizeOfVarInt.induct)
  case (1 n)
  show ?case
  proof (cases "n \<le> 0x7F")
    case True
    then show ?thesis using "1.prems"(2) by (simp add: GetSizeOfVarInt.simps [of n] Suc_leI)
  next
    case False
    then have n: "unat n \<ge> 128" by (simp add: word_le_nat_alt)
    then have "k \<noteq> 1" using "1.prems"(1) by auto
    then obtain j where k: "k = Suc j" "0 < j" using "1.prems"(2) by (cases k) auto
    have "unat n div 128 < 128 ^ j" using "1.prems"(1) k(1) by (simp add: less_mult_imp_div_less mult.commute)
    then have "unat (drop_bit 7 n - 1) < 128 ^ j" using varint_next(1) [OF False] by simp
    then have "GetSizeOfVarInt (drop_bit 7 n - 1) \<le> j" using "1.IH" [OF False _ k(2)] by simp
    then show ?thesis using False k by (simp add: GetSizeOfVarInt.simps [of n])
  qed
qed

section \<open>Vectors read back\<close>

definition valid_bytes :: "bytes \<Rightarrow> bool" where
  "valid_bytes v \<longleftrightarrow> length v \<le> unat MAX_SIZE"

lemma MAX_SIZE_of_nat:
  "n \<le> unat MAX_SIZE \<Longrightarrow> unat (of_nat n :: u64) = n" "n \<le> unat MAX_SIZE \<Longrightarrow> (of_nat n :: u64) \<le> MAX_SIZE"
  by (simp_all add: MAX_SIZE_def unat_of_nat word_le_nat_alt)

interpretation cblob: canonical_codec put_blob "stream_read n" "\<lambda>v. length v = n" for n
  by unfold_locales (auto simp: put_blob_def stream_read_iff)

interpretation cbytes: canonical_codec put_byte_vector get_byte_vector valid_bytes
  by unfold_locales
     (auto simp: put_byte_vector_def get_byte_vector_def valid_bytes_def ccs.get_iff stream_read_iff
       bind_eq_Some_conv MAX_SIZE_of_nat ccs.get_put word_le_nat_alt)

definition valid_vector :: "('a \<Rightarrow> bool) \<Rightarrow> 'a list \<Rightarrow> bool" where
  "valid_vector valid v \<longleftrightarrow> length v \<le> unat MAX_SIZE \<and> (\<forall>x \<in> set v. valid x)"

definition valid_array :: "nat \<Rightarrow> ('a \<Rightarrow> bool) \<Rightarrow> 'a list \<Rightarrow> bool" where
  "valid_array n valid v \<longleftrightarrow> length v = n \<and> (\<forall>x \<in> set v. valid x)"

context codec
begin

lemma plain_vector_codec: "codec (put_vector put) (get_vector get) (valid_vector valid)"
  by unfold_locales
     (auto simp: put_vector_def get_vector_def valid_vector_def ccs.get_put get_array_put
       bind_eq_Some_conv MAX_SIZE_of_nat word_le_nat_alt)

end

context canonical_codec
begin

lemma array_codec: "canonical_codec (put_array put) (get_array get n) (valid_array n valid)"
  by unfold_locales (auto simp: get_array_iff valid_array_def put_array_def get_array_put)

lemma vector_codec: "canonical_codec (put_vector put) (get_vector get) (valid_vector valid)"
  by unfold_locales
     (auto simp: put_vector_def get_vector_def valid_vector_def ccs.get_iff ccs.get_put get_array_iff
       get_array_put bind_eq_Some_conv MAX_SIZE_of_nat word_le_nat_alt)

end

section \<open>Properties\<close>

text \<open>
  C30: Compact sizes have exactly one encoding. Reading accepts a size of at most 32 MiB from its own
  encoding and from nothing else, and \<open>GetSizeOfCompactSize\<close> is the number of bytes written.
\<close>

theorem compact_size_encoding:
  "(ReadCompactSize s = Some (n, s') \<longleftrightarrow> n \<le> MAX_SIZE \<and> s = WriteCompactSize n @ s') \<and>
   GetSizeOfCompactSize m = length (WriteCompactSize m)"
  by (simp add: ccs.get_iff GetSizeOfCompactSize_length)

text \<open>
  A variable-length integer reads back as it was written, its size is the one
  \<open>GetSizeOfVarInt\<close> computes, and its digits never overrun the ten bytes of the buffer
  \<open>WriteVarInt\<close> keeps them in.
\<close>

theorem varint_encoding:
  "ReadVarInt (WriteVarInt n @ s) = Some (n, s) \<and> length (WriteVarInt n) = GetSizeOfVarInt n \<and>
   length (varint_tmp False n) \<le> (8 * 8 + 6) div 7"
proof -
  have "unat n < 128 ^ 10" using unat_lt64 [of n] by simp
  then have "GetSizeOfVarInt n \<le> 10" by (rule varint_length) simp
  then show ?thesis
    using cvi.get_put [of n s] by (simp add: WriteVarInt_def flip: GetSizeOfVarInt_length)
qed

end
