(* ===== verification/Script.thy ===== *)
theory Script
  imports Uint256
begin

text \<open>
  Scripts: \<^verbatim>\<open>src/script/script.h\<close> and \<^verbatim>\<open>src/script/script.cpp\<close>. A script is the byte
  string the class \<^verbatim>\<open>CScript\<close> derives from; an iterator into it is the rest of the bytes. Script numbers
  hold an \<^verbatim>\<open>int64_t\<close>, here an integer; \<open>set_vch\<close> and \<open>serialize\<close> keep the 64-bit words of the code.
\<close>

section \<open>Limits and opcodes\<close>

definition MAX_SCRIPT_ELEMENT_SIZE :: nat where "MAX_SCRIPT_ELEMENT_SIZE = 520"
definition MAX_SCRIPT_SIZE :: nat where "MAX_SCRIPT_SIZE = 10000"
definition LOCKTIME_THRESHOLD :: int where "LOCKTIME_THRESHOLD = 500000000"

text \<open>The enumeration \<^verbatim>\<open>opcodetype\<close>; every byte is cast to it, named or not.\<close>

type_synonym opcodetype = u8

abbreviation (input) OP_0 :: opcodetype where "OP_0 \<equiv> 0x00"
abbreviation (input) OP_FALSE :: opcodetype where "OP_FALSE \<equiv> 0x00"
abbreviation (input) OP_PUSHDATA1 :: opcodetype where "OP_PUSHDATA1 \<equiv> 0x4c"
abbreviation (input) OP_PUSHDATA2 :: opcodetype where "OP_PUSHDATA2 \<equiv> 0x4d"
abbreviation (input) OP_PUSHDATA4 :: opcodetype where "OP_PUSHDATA4 \<equiv> 0x4e"
abbreviation (input) OP_1NEGATE :: opcodetype where "OP_1NEGATE \<equiv> 0x4f"
abbreviation (input) OP_RESERVED :: opcodetype where "OP_RESERVED \<equiv> 0x50"
abbreviation (input) OP_1 :: opcodetype where "OP_1 \<equiv> 0x51"
abbreviation (input) OP_TRUE :: opcodetype where "OP_TRUE \<equiv> 0x51"
abbreviation (input) OP_2 :: opcodetype where "OP_2 \<equiv> 0x52"
abbreviation (input) OP_3 :: opcodetype where "OP_3 \<equiv> 0x53"
abbreviation (input) OP_4 :: opcodetype where "OP_4 \<equiv> 0x54"
abbreviation (input) OP_5 :: opcodetype where "OP_5 \<equiv> 0x55"
abbreviation (input) OP_6 :: opcodetype where "OP_6 \<equiv> 0x56"
abbreviation (input) OP_7 :: opcodetype where "OP_7 \<equiv> 0x57"
abbreviation (input) OP_8 :: opcodetype where "OP_8 \<equiv> 0x58"
abbreviation (input) OP_9 :: opcodetype where "OP_9 \<equiv> 0x59"
abbreviation (input) OP_10 :: opcodetype where "OP_10 \<equiv> 0x5a"
abbreviation (input) OP_11 :: opcodetype where "OP_11 \<equiv> 0x5b"
abbreviation (input) OP_12 :: opcodetype where "OP_12 \<equiv> 0x5c"
abbreviation (input) OP_13 :: opcodetype where "OP_13 \<equiv> 0x5d"
abbreviation (input) OP_14 :: opcodetype where "OP_14 \<equiv> 0x5e"
abbreviation (input) OP_15 :: opcodetype where "OP_15 \<equiv> 0x5f"
abbreviation (input) OP_16 :: opcodetype where "OP_16 \<equiv> 0x60"
abbreviation (input) OP_NOP :: opcodetype where "OP_NOP \<equiv> 0x61"
abbreviation (input) OP_VER :: opcodetype where "OP_VER \<equiv> 0x62"
abbreviation (input) OP_IF :: opcodetype where "OP_IF \<equiv> 0x63"
abbreviation (input) OP_NOTIF :: opcodetype where "OP_NOTIF \<equiv> 0x64"
abbreviation (input) OP_VERIF :: opcodetype where "OP_VERIF \<equiv> 0x65"
abbreviation (input) OP_VERNOTIF :: opcodetype where "OP_VERNOTIF \<equiv> 0x66"
abbreviation (input) OP_ELSE :: opcodetype where "OP_ELSE \<equiv> 0x67"
abbreviation (input) OP_ENDIF :: opcodetype where "OP_ENDIF \<equiv> 0x68"
abbreviation (input) OP_VERIFY :: opcodetype where "OP_VERIFY \<equiv> 0x69"
abbreviation (input) OP_RETURN :: opcodetype where "OP_RETURN \<equiv> 0x6a"
abbreviation (input) OP_TOALTSTACK :: opcodetype where "OP_TOALTSTACK \<equiv> 0x6b"
abbreviation (input) OP_FROMALTSTACK :: opcodetype where "OP_FROMALTSTACK \<equiv> 0x6c"
abbreviation (input) OP_2DROP :: opcodetype where "OP_2DROP \<equiv> 0x6d"
abbreviation (input) OP_2DUP :: opcodetype where "OP_2DUP \<equiv> 0x6e"
abbreviation (input) OP_3DUP :: opcodetype where "OP_3DUP \<equiv> 0x6f"
abbreviation (input) OP_2OVER :: opcodetype where "OP_2OVER \<equiv> 0x70"
abbreviation (input) OP_2ROT :: opcodetype where "OP_2ROT \<equiv> 0x71"
abbreviation (input) OP_2SWAP :: opcodetype where "OP_2SWAP \<equiv> 0x72"
abbreviation (input) OP_IFDUP :: opcodetype where "OP_IFDUP \<equiv> 0x73"
abbreviation (input) OP_DEPTH :: opcodetype where "OP_DEPTH \<equiv> 0x74"
abbreviation (input) OP_DROP :: opcodetype where "OP_DROP \<equiv> 0x75"
abbreviation (input) OP_DUP :: opcodetype where "OP_DUP \<equiv> 0x76"
abbreviation (input) OP_NIP :: opcodetype where "OP_NIP \<equiv> 0x77"
abbreviation (input) OP_OVER :: opcodetype where "OP_OVER \<equiv> 0x78"
abbreviation (input) OP_PICK :: opcodetype where "OP_PICK \<equiv> 0x79"
abbreviation (input) OP_ROLL :: opcodetype where "OP_ROLL \<equiv> 0x7a"
abbreviation (input) OP_ROT :: opcodetype where "OP_ROT \<equiv> 0x7b"
abbreviation (input) OP_SWAP :: opcodetype where "OP_SWAP \<equiv> 0x7c"
abbreviation (input) OP_TUCK :: opcodetype where "OP_TUCK \<equiv> 0x7d"
abbreviation (input) OP_CAT :: opcodetype where "OP_CAT \<equiv> 0x7e"
abbreviation (input) OP_SUBSTR :: opcodetype where "OP_SUBSTR \<equiv> 0x7f"
abbreviation (input) OP_LEFT :: opcodetype where "OP_LEFT \<equiv> 0x80"
abbreviation (input) OP_RIGHT :: opcodetype where "OP_RIGHT \<equiv> 0x81"
abbreviation (input) OP_SIZE :: opcodetype where "OP_SIZE \<equiv> 0x82"
abbreviation (input) OP_INVERT :: opcodetype where "OP_INVERT \<equiv> 0x83"
abbreviation (input) OP_AND :: opcodetype where "OP_AND \<equiv> 0x84"
abbreviation (input) OP_OR :: opcodetype where "OP_OR \<equiv> 0x85"
abbreviation (input) OP_XOR :: opcodetype where "OP_XOR \<equiv> 0x86"
abbreviation (input) OP_EQUAL :: opcodetype where "OP_EQUAL \<equiv> 0x87"
abbreviation (input) OP_EQUALVERIFY :: opcodetype where "OP_EQUALVERIFY \<equiv> 0x88"
abbreviation (input) OP_RESERVED1 :: opcodetype where "OP_RESERVED1 \<equiv> 0x89"
abbreviation (input) OP_RESERVED2 :: opcodetype where "OP_RESERVED2 \<equiv> 0x8a"
abbreviation (input) OP_1ADD :: opcodetype where "OP_1ADD \<equiv> 0x8b"
abbreviation (input) OP_1SUB :: opcodetype where "OP_1SUB \<equiv> 0x8c"
abbreviation (input) OP_2MUL :: opcodetype where "OP_2MUL \<equiv> 0x8d"
abbreviation (input) OP_2DIV :: opcodetype where "OP_2DIV \<equiv> 0x8e"
abbreviation (input) OP_NEGATE :: opcodetype where "OP_NEGATE \<equiv> 0x8f"
abbreviation (input) OP_ABS :: opcodetype where "OP_ABS \<equiv> 0x90"
abbreviation (input) OP_NOT :: opcodetype where "OP_NOT \<equiv> 0x91"
abbreviation (input) OP_0NOTEQUAL :: opcodetype where "OP_0NOTEQUAL \<equiv> 0x92"
abbreviation (input) OP_ADD :: opcodetype where "OP_ADD \<equiv> 0x93"
abbreviation (input) OP_SUB :: opcodetype where "OP_SUB \<equiv> 0x94"
abbreviation (input) OP_MUL :: opcodetype where "OP_MUL \<equiv> 0x95"
abbreviation (input) OP_DIV :: opcodetype where "OP_DIV \<equiv> 0x96"
abbreviation (input) OP_MOD :: opcodetype where "OP_MOD \<equiv> 0x97"
abbreviation (input) OP_LSHIFT :: opcodetype where "OP_LSHIFT \<equiv> 0x98"
abbreviation (input) OP_RSHIFT :: opcodetype where "OP_RSHIFT \<equiv> 0x99"
abbreviation (input) OP_BOOLAND :: opcodetype where "OP_BOOLAND \<equiv> 0x9a"
abbreviation (input) OP_BOOLOR :: opcodetype where "OP_BOOLOR \<equiv> 0x9b"
abbreviation (input) OP_NUMEQUAL :: opcodetype where "OP_NUMEQUAL \<equiv> 0x9c"
abbreviation (input) OP_NUMEQUALVERIFY :: opcodetype where "OP_NUMEQUALVERIFY \<equiv> 0x9d"
abbreviation (input) OP_NUMNOTEQUAL :: opcodetype where "OP_NUMNOTEQUAL \<equiv> 0x9e"
abbreviation (input) OP_LESSTHAN :: opcodetype where "OP_LESSTHAN \<equiv> 0x9f"
abbreviation (input) OP_GREATERTHAN :: opcodetype where "OP_GREATERTHAN \<equiv> 0xa0"
abbreviation (input) OP_LESSTHANOREQUAL :: opcodetype where "OP_LESSTHANOREQUAL \<equiv> 0xa1"
abbreviation (input) OP_GREATERTHANOREQUAL :: opcodetype where "OP_GREATERTHANOREQUAL \<equiv> 0xa2"
abbreviation (input) OP_MIN :: opcodetype where "OP_MIN \<equiv> 0xa3"
abbreviation (input) OP_MAX :: opcodetype where "OP_MAX \<equiv> 0xa4"
abbreviation (input) OP_WITHIN :: opcodetype where "OP_WITHIN \<equiv> 0xa5"
abbreviation (input) OP_RIPEMD160 :: opcodetype where "OP_RIPEMD160 \<equiv> 0xa6"
abbreviation (input) OP_SHA1 :: opcodetype where "OP_SHA1 \<equiv> 0xa7"
abbreviation (input) OP_SHA256 :: opcodetype where "OP_SHA256 \<equiv> 0xa8"
abbreviation (input) OP_HASH160 :: opcodetype where "OP_HASH160 \<equiv> 0xa9"
abbreviation (input) OP_HASH256 :: opcodetype where "OP_HASH256 \<equiv> 0xaa"
abbreviation (input) OP_CODESEPARATOR :: opcodetype where "OP_CODESEPARATOR \<equiv> 0xab"
abbreviation (input) OP_CHECKSIG :: opcodetype where "OP_CHECKSIG \<equiv> 0xac"
abbreviation (input) OP_CHECKSIGVERIFY :: opcodetype where "OP_CHECKSIGVERIFY \<equiv> 0xad"
abbreviation (input) OP_CHECKMULTISIG :: opcodetype where "OP_CHECKMULTISIG \<equiv> 0xae"
abbreviation (input) OP_CHECKMULTISIGVERIFY :: opcodetype where "OP_CHECKMULTISIGVERIFY \<equiv> 0xaf"
abbreviation (input) OP_NOP1 :: opcodetype where "OP_NOP1 \<equiv> 0xb0"
abbreviation (input) OP_NOP2 :: opcodetype where "OP_NOP2 \<equiv> 0xb1"
abbreviation (input) OP_CHECKLOCKTIMEVERIFY :: opcodetype where "OP_CHECKLOCKTIMEVERIFY \<equiv> 0xb1"
abbreviation (input) OP_NOP3 :: opcodetype where "OP_NOP3 \<equiv> 0xb2"
abbreviation (input) OP_NOP4 :: opcodetype where "OP_NOP4 \<equiv> 0xb3"
abbreviation (input) OP_NOP5 :: opcodetype where "OP_NOP5 \<equiv> 0xb4"
abbreviation (input) OP_NOP6 :: opcodetype where "OP_NOP6 \<equiv> 0xb5"
abbreviation (input) OP_NOP7 :: opcodetype where "OP_NOP7 \<equiv> 0xb6"
abbreviation (input) OP_NOP8 :: opcodetype where "OP_NOP8 \<equiv> 0xb7"
abbreviation (input) OP_NOP9 :: opcodetype where "OP_NOP9 \<equiv> 0xb8"
abbreviation (input) OP_NOP10 :: opcodetype where "OP_NOP10 \<equiv> 0xb9"
abbreviation (input) OP_SMALLDATA :: opcodetype where "OP_SMALLDATA \<equiv> 0xf9"
abbreviation (input) OP_SMALLINTEGER :: opcodetype where "OP_SMALLINTEGER \<equiv> 0xfa"
abbreviation (input) OP_PUBKEYS :: opcodetype where "OP_PUBKEYS \<equiv> 0xfb"
abbreviation (input) OP_PUBKEYHASH :: opcodetype where "OP_PUBKEYHASH \<equiv> 0xfd"
abbreviation (input) OP_PUBKEY :: opcodetype where "OP_PUBKEY \<equiv> 0xfe"
abbreviation (input) OP_INVALIDOPCODE :: opcodetype where "OP_INVALIDOPCODE \<equiv> 0xff"

definition op_names :: "(opcodetype \<times> string) list" where
  "op_names = [(OP_0, ''0''), (OP_PUSHDATA1, ''OP_PUSHDATA1''), (OP_PUSHDATA2, ''OP_PUSHDATA2''),
     (OP_PUSHDATA4, ''OP_PUSHDATA4''), (OP_1NEGATE, ''-1''), (OP_RESERVED, ''OP_RESERVED''),
     (OP_1, ''1''), (OP_2, ''2''), (OP_3, ''3''), (OP_4, ''4''), (OP_5, ''5''), (OP_6, ''6''),
     (OP_7, ''7''), (OP_8, ''8''), (OP_9, ''9''), (OP_10, ''10''), (OP_11, ''11''),
     (OP_12, ''12''), (OP_13, ''13''), (OP_14, ''14''), (OP_15, ''15''), (OP_16, ''16''),
     (OP_NOP, ''OP_NOP''), (OP_VER, ''OP_VER''), (OP_IF, ''OP_IF''), (OP_NOTIF, ''OP_NOTIF''),
     (OP_VERIF, ''OP_VERIF''), (OP_VERNOTIF, ''OP_VERNOTIF''), (OP_ELSE, ''OP_ELSE''),
     (OP_ENDIF, ''OP_ENDIF''), (OP_VERIFY, ''OP_VERIFY''), (OP_RETURN, ''OP_RETURN''),
     (OP_TOALTSTACK, ''OP_TOALTSTACK''), (OP_FROMALTSTACK, ''OP_FROMALTSTACK''),
     (OP_2DROP, ''OP_2DROP''), (OP_2DUP, ''OP_2DUP''), (OP_3DUP, ''OP_3DUP''),
     (OP_2OVER, ''OP_2OVER''), (OP_2ROT, ''OP_2ROT''), (OP_2SWAP, ''OP_2SWAP''),
     (OP_IFDUP, ''OP_IFDUP''), (OP_DEPTH, ''OP_DEPTH''), (OP_DROP, ''OP_DROP''),
     (OP_DUP, ''OP_DUP''), (OP_NIP, ''OP_NIP''), (OP_OVER, ''OP_OVER''), (OP_PICK, ''OP_PICK''),
     (OP_ROLL, ''OP_ROLL''), (OP_ROT, ''OP_ROT''), (OP_SWAP, ''OP_SWAP''),
     (OP_TUCK, ''OP_TUCK''), (OP_CAT, ''OP_CAT''), (OP_SUBSTR, ''OP_SUBSTR''),
     (OP_LEFT, ''OP_LEFT''), (OP_RIGHT, ''OP_RIGHT''), (OP_SIZE, ''OP_SIZE''),
     (OP_INVERT, ''OP_INVERT''), (OP_AND, ''OP_AND''), (OP_OR, ''OP_OR''), (OP_XOR, ''OP_XOR''),
     (OP_EQUAL, ''OP_EQUAL''), (OP_EQUALVERIFY, ''OP_EQUALVERIFY''),
     (OP_RESERVED1, ''OP_RESERVED1''), (OP_RESERVED2, ''OP_RESERVED2''), (OP_1ADD, ''OP_1ADD''),
     (OP_1SUB, ''OP_1SUB''), (OP_2MUL, ''OP_2MUL''), (OP_2DIV, ''OP_2DIV''),
     (OP_NEGATE, ''OP_NEGATE''), (OP_ABS, ''OP_ABS''), (OP_NOT, ''OP_NOT''),
     (OP_0NOTEQUAL, ''OP_0NOTEQUAL''), (OP_ADD, ''OP_ADD''), (OP_SUB, ''OP_SUB''),
     (OP_MUL, ''OP_MUL''), (OP_DIV, ''OP_DIV''), (OP_MOD, ''OP_MOD''),
     (OP_LSHIFT, ''OP_LSHIFT''), (OP_RSHIFT, ''OP_RSHIFT''), (OP_BOOLAND, ''OP_BOOLAND''),
     (OP_BOOLOR, ''OP_BOOLOR''), (OP_NUMEQUAL, ''OP_NUMEQUAL''),
     (OP_NUMEQUALVERIFY, ''OP_NUMEQUALVERIFY''), (OP_NUMNOTEQUAL, ''OP_NUMNOTEQUAL''),
     (OP_LESSTHAN, ''OP_LESSTHAN''), (OP_GREATERTHAN, ''OP_GREATERTHAN''),
     (OP_LESSTHANOREQUAL, ''OP_LESSTHANOREQUAL''),
     (OP_GREATERTHANOREQUAL, ''OP_GREATERTHANOREQUAL''), (OP_MIN, ''OP_MIN''),
     (OP_MAX, ''OP_MAX''), (OP_WITHIN, ''OP_WITHIN''), (OP_RIPEMD160, ''OP_RIPEMD160''),
     (OP_SHA1, ''OP_SHA1''), (OP_SHA256, ''OP_SHA256''), (OP_HASH160, ''OP_HASH160''),
     (OP_HASH256, ''OP_HASH256''), (OP_CODESEPARATOR, ''OP_CODESEPARATOR''),
     (OP_CHECKSIG, ''OP_CHECKSIG''), (OP_CHECKSIGVERIFY, ''OP_CHECKSIGVERIFY''),
     (OP_CHECKMULTISIG, ''OP_CHECKMULTISIG''),
     (OP_CHECKMULTISIGVERIFY, ''OP_CHECKMULTISIGVERIFY''), (OP_NOP1, ''OP_NOP1''),
     (OP_NOP2, ''OP_NOP2''), (OP_NOP3, ''OP_NOP3''), (OP_NOP4, ''OP_NOP4''),
     (OP_NOP5, ''OP_NOP5''), (OP_NOP6, ''OP_NOP6''), (OP_NOP7, ''OP_NOP7''),
     (OP_NOP8, ''OP_NOP8''), (OP_NOP9, ''OP_NOP9''), (OP_NOP10, ''OP_NOP10''),
     (OP_INVALIDOPCODE, ''OP_INVALIDOPCODE'')]"
definition GetOpName :: "opcodetype \<Rightarrow> string" where
  "GetOpName opcode = (case map_of op_names opcode of Some s \<Rightarrow> s | None \<Rightarrow> ''OP_UNKNOWN'')"

section \<open>Script numbers\<close>

datatype scriptnum_error = Script_number_overflow | Non_minimally_encoded

definition nDefaultMaxNumSize :: nat where "nDefaultMaxNumSize = 4"

fun set_vch_loop :: "nat \<Rightarrow> bytes \<Rightarrow> u64 \<Rightarrow> u64" where
  "set_vch_loop i [] result = result"
| "set_vch_loop i (b # vch) result = set_vch_loop (Suc i) vch (result OR push_bit (8 * i) (ucast b))"

definition set_vch :: "bytes \<Rightarrow> int" where
  "set_vch vch =
     (if vch = [] then 0
      else let result = set_vch_loop 0 vch 0
           in if last vch AND 0x80 \<noteq> 0
              then - sint (result AND NOT (push_bit (8 * (length vch - 1)) 0x80))
              else sint result)"

definition CScriptNum :: "bytes \<Rightarrow> bool \<Rightarrow> nat \<Rightarrow> scriptnum_error + int" where
  "CScriptNum vch fRequireMinimal nMaxNumSize =
     (if length vch > nMaxNumSize then Inl Script_number_overflow
      else if fRequireMinimal \<and> length vch > 0 \<and> last vch AND 0x7f = 0 \<and>
              (length vch \<le> 1 \<or> vch ! (length vch - 2) AND 0x80 = 0)
      then Inl Non_minimally_encoded
      else Inr (set_vch vch))"

function ser_loop :: "u64 \<Rightarrow> bytes" where
  "ser_loop absvalue = (if absvalue = 0 then [] else ucast (absvalue AND 0xff) # ser_loop (drop_bit 8 absvalue))"
  by auto
termination
proof (relation "measure unat")
  show "(drop_bit 8 w, w) \<in> measure unat" if "w \<noteq> 0" for w :: u64
    using that by (simp add: unat_drop_bit unat_gt_0)
qed simp

declare ser_loop.simps [simp del]

definition serialize :: "int \<Rightarrow> bytes" where
  "serialize value =
     (if value = 0 then []
      else let neg = value < 0;
               result = ser_loop (of_int (if neg then - value else value))
           in if last result AND 0x80 \<noteq> 0 then result @ [if neg then 0x80 else 0]
              else if neg then butlast result @ [last result OR 0x80]
              else result)"

definition getint :: "int \<Rightarrow> int" where
  "getint m_value = (if m_value > 2 ^ 31 - 1 then 2 ^ 31 - 1
     else if m_value < - (2 ^ 31) then - (2 ^ 31) else m_value)"

section \<open>Building and reading scripts\<close>

definition push_opcode :: "bytes \<Rightarrow> opcodetype \<Rightarrow> bytes" where
  "push_opcode script opcode = script @ [opcode]"

definition push_data :: "bytes \<Rightarrow> bytes \<Rightarrow> bytes" where
  "push_data script b =
     (let s1 = (if length b < unat OP_PUSHDATA1 then script @ [of_nat (length b)]
                else if length b \<le> 0xff then script @ [OP_PUSHDATA1] @ [of_nat (length b)]
                else if length b \<le> 0xffff then script @ [OP_PUSHDATA2] @ WriteLE16 (of_nat (length b))
                else script @ [OP_PUSHDATA4] @ WriteLE32 (of_nat (length b)))
      in s1 @ b)"

definition push_int64 :: "bytes \<Rightarrow> int \<Rightarrow> bytes" where
  "push_int64 script n =
     (if n = - 1 \<or> (n \<ge> 1 \<and> n \<le> 16) then script @ [of_int (n + (uint OP_1 - 1))]
      else if n = 0 then script @ [OP_0]
      else push_data script (serialize n))"

definition GetOp2 :: "bytes \<Rightarrow> (opcodetype \<times> bytes \<times> bytes) option" where
  "GetOp2 pc =
     (case pc of [] \<Rightarrow> None
      | opcode # pc1 \<Rightarrow>
         if opcode \<le> OP_PUSHDATA4 then
           (case (if opcode < OP_PUSHDATA1 then Some (unat opcode, pc1)
                  else if opcode = OP_PUSHDATA1 then
                    (case pc1 of [] \<Rightarrow> None | n # pc2 \<Rightarrow> Some (unat n, pc2))
                  else if opcode = OP_PUSHDATA2 then
                    (if length pc1 < 2 then None else Some (unat (ReadLE16 pc1), drop 2 pc1))
                  else
                    (if length pc1 < 4 then None else Some (unat (ReadLE32 pc1), drop 4 pc1))) of
              None \<Rightarrow> None
            | Some (nSize, pc2) \<Rightarrow>
                if length pc2 < nSize then None
                else Some (opcode, take nSize pc2, drop nSize pc2))
         else Some (opcode, [], pc1))"

definition DecodeOP_N :: "opcodetype \<Rightarrow> int option" where
  "DecodeOP_N opcode =
     (if opcode = OP_0 then Some 0
      else if \<not> (opcode \<ge> OP_1 \<and> opcode \<le> OP_16) then None
      else Some (uint opcode - (uint OP_1 - 1)))"

definition EncodeOP_N :: "int \<Rightarrow> opcodetype option" where
  "EncodeOP_N n =
     (if \<not> (n \<ge> 0 \<and> n \<le> 16) then None
      else if n = 0 then Some OP_0
      else Some (of_int (uint OP_1 + n - 1)))"

lemma GetOp2_shorter: "GetOp2 pc = Some (opcode, vch, rest) \<Longrightarrow> length rest < length pc"
  by (auto simp: GetOp2_def split: list.splits if_splits)

section \<open>Classifying scripts\<close>

function GetSigOpCount_loop :: "bool \<Rightarrow> bytes \<Rightarrow> opcodetype \<Rightarrow> u32 \<Rightarrow> u32" where
  "GetSigOpCount_loop fAccurate pc lastOpcode n =
     (case GetOp2 pc of None \<Rightarrow> n
      | Some (opcode, _, pc') \<Rightarrow>
          GetSigOpCount_loop fAccurate pc' opcode
            (if opcode = OP_CHECKSIG \<or> opcode = OP_CHECKSIGVERIFY then n + 1
             else if opcode = OP_CHECKMULTISIG \<or> opcode = OP_CHECKMULTISIGVERIFY then
               (if fAccurate \<and> lastOpcode \<ge> OP_1 \<and> lastOpcode \<le> OP_16
                then n + of_int (the (DecodeOP_N lastOpcode)) else n + 20)
             else n))"
  by auto
termination
  by (relation "measure (length \<circ> fst \<circ> snd)") (auto dest: GetOp2_shorter)

declare GetSigOpCount_loop.simps [simp del]

definition GetSigOpCount :: "bool \<Rightarrow> bytes \<Rightarrow> u32" where
  "GetSigOpCount fAccurate script = GetSigOpCount_loop fAccurate script OP_INVALIDOPCODE 0"

definition IsPayToScriptHash :: "bytes \<Rightarrow> bool" where
  "IsPayToScriptHash script \<longleftrightarrow>
     length script = 23 \<and> script ! 0 = OP_HASH160 \<and> script ! 1 = 0x14 \<and> script ! 22 = OP_EQUAL"

function last_push :: "bytes \<Rightarrow> bytes \<Rightarrow> bytes option" where
  "last_push pc data =
     (if pc = [] then Some data
      else case GetOp2 pc of None \<Rightarrow> None
           | Some (opcode, vch, pc') \<Rightarrow> if opcode > OP_16 then None else last_push pc' vch)"
  by auto
termination
  by (relation "measure (length \<circ> fst)") (auto dest: GetOp2_shorter)

declare last_push.simps [simp del]

definition GetSigOpCount_P2SH :: "bytes \<Rightarrow> bytes \<Rightarrow> u32" where
  "GetSigOpCount_P2SH script scriptSig =
     (if \<not> IsPayToScriptHash script then GetSigOpCount True script
      else case last_push scriptSig [] of None \<Rightarrow> 0
           | Some data \<Rightarrow> GetSigOpCount True data)"

function IsPushOnly :: "bytes \<Rightarrow> bool" where
  "IsPushOnly pc =
     (if pc = [] then True
      else case GetOp2 pc of None \<Rightarrow> False
           | Some (opcode, _, pc') \<Rightarrow> if opcode > OP_16 then False else IsPushOnly pc')"
  by auto
termination
  by (relation "measure length") (auto dest: GetOp2_shorter)

declare IsPushOnly.simps [simp del]

definition IsUnspendable :: "bytes \<Rightarrow> bool" where
  "IsUnspendable script \<longleftrightarrow>
     (length script > 0 \<and> hd script = OP_RETURN) \<or> length script > MAX_SCRIPT_SIZE"

section \<open>Bytes with a sign bit\<close>

lemma sign_bit: "(b :: u8) AND 0x80 \<noteq> 0 \<longleftrightarrow> 128 \<le> unat b"
proof -
  have "b AND 0x80 = 0 \<longleftrightarrow> \<not> bit b 7" using and_exp_eq_0_iff_not_bit [of b 7] by simp
  moreover have "bit b 7 \<longleftrightarrow> bit (unat b) 7" by (simp add: bit_unsigned_iff)
  moreover have "bit (unat b) 7 \<longleftrightarrow> 128 \<le> unat b"
  proof -
    have "unat b div 128 < 2" using unat_lt8 [of b] by simp
    then have "odd (unat b div 128) \<longleftrightarrow> unat b div 128 = 1" by (auto simp: less_2_cases_iff)
    also have "\<dots> \<longleftrightarrow> 128 \<le> unat b" using unat_lt8 [of b] by linarith
    finally show ?thesis by (simp add: bit_iff_odd)
  qed
  ultimately show ?thesis by blast
qed

lemma magnitude_bits: "unat ((b :: u8) AND 0x7f) = unat b mod 128"
  using unat_and_mask [of b 7] by (simp add: mask_eq_exp_minus_1)

lemma set_sign_bit: "unat (b :: u8) < 128 \<Longrightarrow> unat (b OR 0x80) = unat b + 128"
proof -
  assume b: "unat b < 128"
  then have "b AND 0x80 = 0" using sign_bit [of b] by auto
  then have "b OR 0x80 = b + 0x80" by (simp add: disjunctive_add_eq_or)
  then show ?thesis using b unat_add_nowrap [of b "0x80 :: u8"] by simp
qed

section \<open>Encoding numbers\<close>

text \<open>The number a byte string encodes: magnitude little-endian, the top bit of the last byte its sign.\<close>

definition script_num :: "bytes \<Rightarrow> int" where
  "script_num vch =
     (if vch = [] then 0
      else let m = int (le_read (butlast vch @ [last vch AND 0x7f]))
           in if 128 \<le> unat (last vch) then - m else m)"

lemma set_vch_loop_val:
  "unat acc < 256 ^ i \<Longrightarrow> i + length vch \<le> 8 \<Longrightarrow>
   unat (set_vch_loop i vch acc) = unat acc + 256 ^ i * le_read vch"
proof (induction i vch acc rule: set_vch_loop.induct)
  case (2 i b vch acc)
  have b: "unat (ucast b :: u64) = unat b" by simp
  have p: "(256 :: nat) ^ i = 2 ^ (8 * i)" by (simp add: power_mult)
  have "unat b * 2 ^ (8 * i) < 256 * 2 ^ (8 * i)" using unat_lt8 [of b] by simp
  also have "\<dots> = 2 ^ (8 * i + 8)" by (simp add: power_add)
  also have "\<dots> \<le> 2 ^ 64" using 2(3) by (intro power_increasing) simp_all
  finally have s: "unat (acc OR push_bit (8 * i) (ucast b)) = unat acc + unat b * 256 ^ i"
    using unat_or_high [of acc "8 * i" "ucast b"] 2(2) b p by simp
  have "unat b * 256 ^ i + 256 ^ i \<le> 256 * 256 ^ i"
    using unat_lt8 [of b] by (metis Suc_leI add.commute mult_Suc mult_le_mono1)
  then have "unat (acc OR push_bit (8 * i) (ucast b)) < 256 ^ Suc i"
    unfolding s power_Suc using 2(2) by linarith
  from 2(1) [OF this] show ?case using s 2(3) by (simp add: algebra_simps)
qed simp

lemma sint_small: "unat (x :: u64) < 2 ^ 63 \<Longrightarrow> sint x = int (unat x)"
proof -
  assume "unat x < 2 ^ 63"
  then have "uint x < 2 ^ 63" unfolding unat_eq_nat_uint by (subst (asm) nat_less_iff) simp_all
  then have "signed_take_bit 63 (uint x) = uint x"
    by (intro signed_take_bit_int_eq_self) (simp_all add: order_trans [OF _ uint_ge_0])
  then show ?thesis by (simp add: sint_uint)
qed

lemma clear_high_bit:
  assumes "unat (x :: u64) < 2 ^ k"
  shows "(x OR push_bit k 1) AND NOT (push_bit k 1) = x"
proof -
  have "take_bit k x = x" using assms by (simp add: word_eq_iff_unsigned [where 'a = nat] unsigned_take_bit_eq take_bit_nat_eq_self)
  then have "\<not> bit x k" by (metis bit_take_bit_iff less_irrefl)
  then show ?thesis
    by (intro bit_eqI) (auto simp: bit_and_iff bit_or_iff bit_not_iff bit_exp_iff)
qed

lemma set_vch_script_num:
  assumes "length vch \<le> 8"
  shows "set_vch vch = script_num vch"
proof (cases "vch = []")
  case False
  define xs l where "xs = butlast vch" and "l = last vch"
  have v: "vch = xs @ [l]" using False by (simp add: xs_def l_def)
  let ?r = "set_vch_loop 0 vch 0" and ?n = "8 * length xs"
  have p: "(256 :: nat) ^ length xs = 2 ^ ?n" by (simp add: power_mult)
  have n: "?n + 8 \<le> 64" using assms v by simp
  have r: "unat ?r = le_read xs + 2 ^ ?n * unat l"
    using set_vch_loop_val [of 0 0 vch] assms p by (simp add: v le_read_append)
  have xs: "le_read xs < 2 ^ ?n" using le_read_bound [of xs] p by simp
  show ?thesis
  proof (cases "128 \<le> unat l")
    case True
    define m where "m = le_read xs + 2 ^ ?n * (unat l - 128)"
    have "le_read xs + 2 ^ ?n * (unat l - 128) < 2 ^ ?n * (unat l - 128 + 1)" using xs by simp
    also have "\<dots> \<le> 2 ^ ?n * 128" using unat_lt8 [of l] by (intro mult_le_mono2) simp
    also have "\<dots> = 2 ^ (?n + 7)" by (simp add: power_add)
    finally have m: "m < 2 ^ (?n + 7)" unfolding m_def .
    also have "(2 :: nat) ^ (?n + 7) \<le> 2 ^ 63" using n by (intro power_increasing) simp_all
    finally have m63: "m < 2 ^ 63" .
    have ux: "unat (of_nat m :: u64) = m" using m63 by (simp add: unat_of_nat)
    have "(2 :: nat) ^ (?n + 7) < 2 ^ 64" using n by (intro power_strict_increasing) simp_all
    then have "unat (of_nat m OR push_bit (?n + 7) 1 :: u64) = m + 2 ^ (?n + 7)"
      using unat_or_high [of "of_nat m :: u64" "?n + 7" 1] m ux by simp
    also have "\<dots> = unat ?r"
    proof -
      have "unat l = (unat l - 128) + 128" using True by simp
      then have "2 ^ ?n * unat l = 2 ^ ?n * (unat l - 128) + 2 ^ ?n * 128" by (metis add_mult_distrib2)
      then show ?thesis by (simp add: r m_def power_add)
    qed
    finally have "?r = of_nat m OR push_bit (?n + 7) 1" by (simp add: word_unat_eq_iff)
    moreover have "push_bit ?n (0x80 :: u64) = push_bit (?n + 7) 1"
    proof -
      have "push_bit 7 (1 :: u64) = 0x80" by simp
      then show ?thesis by (metis push_bit_push_bit)
    qed
    ultimately have "?r AND NOT (push_bit ?n 0x80) = of_nat m" using clear_high_bit m ux by simp
    moreover have "sint (of_nat m :: u64) = int m" using sint_small [of "of_nat m"] ux m63 by simp
    moreover have "unat l mod 128 = unat l - 128" using True unat_lt8 [of l] by (simp add: mod_if)
    then have "int (le_read (xs @ [l AND 0x7f])) = int m"
      using p by (simp add: le_read_append magnitude_bits m_def)
    ultimately show ?thesis using True by (simp add: set_vch_def script_num_def v sign_bit Let_def)
  next
    case False
    have "le_read xs + 2 ^ ?n * unat l < 2 ^ ?n * (unat l + 1)" using xs by simp
    also have "\<dots> \<le> 2 ^ ?n * 128" using False by (intro mult_le_mono2) simp
    also have "\<dots> = 2 ^ (?n + 7)" by (simp add: power_add)
    also have "(2 :: nat) ^ (?n + 7) \<le> 2 ^ 63" using n by (intro power_increasing) simp_all
    finally have "sint ?r = int (le_read xs + 2 ^ ?n * unat l)" using sint_small [of ?r] r by simp
    moreover have "unat (l AND 0x7f) = unat l" using False by (simp add: magnitude_bits)
    ultimately show ?thesis
      using False p by (simp add: set_vch_def script_num_def v sign_bit Let_def le_read_append)
  qed
qed (simp add: set_vch_def script_num_def)

lemma ser_loop_0 [simp]: "ser_loop 0 = []"
  by (simp add: ser_loop.simps)

lemma ser_loop_props:
  "le_read (ser_loop w) = unat w" "w \<noteq> 0 \<Longrightarrow> ser_loop w \<noteq> [] \<and> last (ser_loop w) \<noteq> 0"
proof (induction w rule: ser_loop.induct)
  case (1 w)
  have b: "unat (ucast (w AND 0xff) :: u8) = unat w mod 256"
    using unat_and_mask [of w 8] by (simp add: mask_eq_exp_minus_1 unat_ucast)
  have d: "unat (drop_bit 8 w) = unat w div 256" by (simp add: unat_drop_bit)
  {
    case 1
    show ?case
      using b d "1.IH"(1) by (cases "w = 0") (simp_all add: ser_loop.simps [of w])
  next
    case 2
    show ?case
    proof (cases "drop_bit 8 w = 0")
      case True
      then have "unat w div 256 = 0" using d by simp
      then have "ucast (w AND 0xff) \<noteq> (0 :: u8)"
        using b 2 by (metis div_mult_mod_eq mult_zero_left add_0 unat_eq_zero)
      then show ?thesis using 2 True by (simp add: ser_loop.simps [of w])
    next
      case False
      then show ?thesis using "1.IH"(2) 2 by (simp add: ser_loop.simps [of w])
    qed
  }
qed

text \<open>Byte strings without a zero at the end are determined by their value.\<close>

lemma le_read_canonical:
  assumes "le_read xs = le_read ys" "xs = [] \<or> last xs \<noteq> 0" "ys = [] \<or> last ys \<noteq> 0"
  shows "xs = ys"
proof -
  have step: "length xs \<le> length ys" if "le_read xs = le_read ys" "ys = [] \<or> last ys \<noteq> 0"
      "xs = [] \<or> last xs \<noteq> 0" for xs ys
  proof (rule ccontr)
    assume "\<not> length xs \<le> length ys"
    then have n: "length ys \<le> length (butlast xs)" "xs \<noteq> []" by auto
    then have "0 < unat (last xs)" using that(3) by (simp add: unat_gt_0)
    then have "256 ^ length (butlast xs) \<le> le_read (butlast xs @ [last xs])"
      by (simp add: le_read_append trans_le_add2)
    moreover have "le_read ys < 256 ^ length (butlast xs)"
      using le_read_bound [of ys] n(1) power_increasing [of "length ys" "length (butlast xs)" "256 :: nat"]
      by linarith
    ultimately show False using that(1) n(2) by simp
  qed
  have "length xs = length ys" using step [of xs ys] step [of ys xs] assms by simp
  then show ?thesis using assms(1) le_read_inject by blast
qed

lemma ser_loop_unique:
  assumes "unat w = le_read xs" "xs = [] \<or> last xs \<noteq> 0"
  shows "ser_loop w = xs"
  using ser_loop_props [of w] assms by (intro le_read_canonical) (cases "w = 0"; auto)+

text \<open>The test \<open>CScriptNum\<close> makes for a minimal encoding.\<close>

definition minimal_num :: "bytes \<Rightarrow> bool" where
  "minimal_num vch \<longleftrightarrow> vch = [] \<or> unat (last vch) mod 128 \<noteq> 0 \<or>
     butlast vch \<noteq> [] \<and> 128 \<le> unat (last (butlast vch))"

lemma CScriptNum_eq:
  assumes "length vch \<le> n" "n \<le> 8"
  shows "CScriptNum vch fMin n =
    (if fMin \<and> \<not> minimal_num vch then Inl Non_minimally_encoded else Inr (script_num vch))"
proof (cases "vch = []")
  case False
  have z: "last vch AND 0x7f = 0 \<longleftrightarrow> unat (last vch) mod 128 = 0"
    by (metis magnitude_bits unat_eq_zero)
  have s: "b AND 0x80 = 0 \<longleftrightarrow> \<not> 128 \<le> unat b" for b :: u8 using sign_bit [of b] by blast
  have b: "length vch \<le> 1 \<longleftrightarrow> butlast vch = []" using False by (cases vch rule: rev_cases) auto
  have l: "vch ! (length vch - 2) = last (butlast vch)" if ne: "butlast vch \<noteq> []"
  proof -
    obtain zs l where z: "vch = zs @ [l]" using False by (cases vch rule: rev_cases) auto
    then obtain ys a where "zs = ys @ [a]" using ne by (cases zs rule: rev_cases) auto
    then show ?thesis by (simp add: z nth_append butlast_append)
  qed
  show ?thesis
    using False assms set_vch_script_num [of vch] b l
    by (auto simp: CScriptNum_def minimal_num_def z s)
qed (simp add: CScriptNum_def minimal_num_def set_vch_script_num)

lemma serialize_cases:
  assumes "v \<noteq> 0" "\<bar>v\<bar> < 2 ^ 63"
  obtains r where "r \<noteq> []" "last r \<noteq> 0" "int (le_read r) = \<bar>v\<bar>"
    "serialize v = (if 128 \<le> unat (last r) then r @ [if v < 0 then 0x80 else 0]
       else if v < 0 then butlast r @ [last r OR 0x80] else r)"
proof -
  let ?w = "of_int \<bar>v\<bar> :: u64"
  have "uint ?w = \<bar>v\<bar>" using assms(2) by (simp add: uint_word_of_int)
  then have w: "unat ?w = nat \<bar>v\<bar>" by (simp add: unat_eq_nat_uint)
  then have "?w \<noteq> 0" using assms(1) by (metis nat_0_iff unat_0 zero_less_abs_iff not_le)
  then show thesis
    using that [of "ser_loop ?w"] ser_loop_props [of ?w] w assms(1)
    by (auto simp: serialize_def Let_def sign_bit abs_if)
qed

lemma script_num_serialize:
  assumes "\<bar>v\<bar> < 2 ^ 63"
  shows "script_num (serialize v) = v" "minimal_num (serialize v)"
proof (atomize (full), cases "v = 0")
  case True
  then show "script_num (serialize v) = v \<and> minimal_num (serialize v)"
    by (simp add: serialize_def script_num_def minimal_num_def)
next
  case False
  then obtain r where r: "r \<noteq> []" "last r \<noteq> 0" "int (le_read r) = \<bar>v\<bar>"
    "serialize v = (if 128 \<le> unat (last r) then r @ [if v < 0 then 0x80 else 0]
       else if v < 0 then butlast r @ [last r OR 0x80] else r)"
    using serialize_cases assms by blast
  show "script_num (serialize v) = v \<and> minimal_num (serialize v)"
  proof (cases "128 \<le> unat (last r)")
    case True
    then show ?thesis
      using r by (auto simp: script_num_def minimal_num_def le_read_append)
  next
    case small: False
    have u: "0 < unat (last r)" using r(2) by (simp add: unat_gt_0)
    have keep: "unat (b AND 0x7f) = unat b" if "unat b < 128" for b :: u8
      using that by (simp add: magnitude_bits)
    have le: "le_read (butlast r @ [x]) = le_read r" if "unat x = unat (last r)" for x
      using that r(1) by (metis append_butlast_last_id word_unat_eq_iff)
    show ?thesis
    proof (cases "v < 0")
      case True
      have s: "unat (last r OR 0x80) = unat (last r) + 128" using small by (simp add: set_sign_bit)
      then have "unat ((last r OR 0x80) AND 0x7f) = unat (last r)"
        using small by (simp add: magnitude_bits)
      then show ?thesis using True small r le u s by (simp add: script_num_def minimal_num_def)
    next
      case False
      then show ?thesis
        using small r le [of "last r AND 0x7f"] keep [of "last r"] u
        by (simp add: script_num_def minimal_num_def)
    qed
  qed
qed

lemma magnitude_bound: "le_read (xs @ [l AND 0x7f]) < 256 ^ length xs * 128"
proof -
  have "le_read xs + 256 ^ length xs * (unat l mod 128) < 256 ^ length xs * (unat l mod 128 + 1)"
    using le_read_bound [of xs] by simp
  also have "\<dots> \<le> 256 ^ length xs * 128" by (intro mult_le_mono2) (simp add: Suc_leI)
  finally show ?thesis by (simp add: le_read_append magnitude_bits)
qed

lemma script_num_abs_less:
  assumes "vch \<noteq> []" shows "\<bar>script_num vch\<bar> < 256 ^ (length vch - 1) * 128"
proof -
  have "le_read (butlast vch @ [last vch AND 0x7f]) < 256 ^ (length vch - 1) * 128"
    using magnitude_bound [of "butlast vch" "last vch"] by simp
  then have "int (le_read (butlast vch @ [last vch AND 0x7f])) < int (256 ^ (length vch - 1) * 128)"
    by (simp only: of_nat_less_iff)
  then show ?thesis using assms by (simp add: script_num_def Let_def)
qed

lemma script_num_bound:
  assumes "length vch \<le> 8" shows "\<bar>script_num vch\<bar> < 2 ^ 63"
proof (cases "vch = []")
  case False
  have "\<bar>script_num vch\<bar> < 256 ^ (length vch - 1) * 128" using False by (rule script_num_abs_less)
  also have "(256 :: int) ^ (length vch - 1) \<le> 256 ^ 7" using assms by (intro power_increasing) simp_all
  finally show ?thesis by simp
qed (simp add: script_num_def)

lemma serialize_script_num:
  assumes "length vch \<le> 8" "minimal_num vch"
  shows "serialize (script_num vch) = vch"
proof (cases "vch = []")
  case False
  define xs l where "xs = butlast vch" and "l = last vch"
  have v: "vch = xs @ [l]" using False by (simp add: xs_def l_def)
  define mag where "mag = (if unat l mod 128 = 0 then xs else xs @ [l AND 0x7f])"
  have mag: "mag \<noteq> []" "last mag \<noteq> 0"
  proof -
    have "l AND 0x7f \<noteq> 0" if "unat l mod 128 \<noteq> 0" using that by (metis magnitude_bits unat_0)
    moreover have "xs \<noteq> [] \<and> last xs \<noteq> 0" if "unat l mod 128 = 0"
      using that assms(2) by (auto simp: minimal_num_def v)
    ultimately show "mag \<noteq> []" "last mag \<noteq> 0" by (auto simp: mag_def)
  qed
  let ?m = "le_read mag"
  have eq: "le_read (xs @ [l AND 0x7f]) = ?m" by (simp add: mag_def le_read_append magnitude_bits)
  have "le_read (xs @ [l AND 0x7f]) < 256 ^ length xs * 128" by (rule magnitude_bound)
  also have "\<dots> \<le> 256 ^ 7 * 128" using assms(1) v by (intro mult_le_mono1 power_increasing) simp_all
  finally have m63: "?m < 2 ^ 63" using eq by simp
  have "0 < ?m"
    using mag le_read_canonical [of mag "[]"] by (metis gr0I le_read.simps(1))
  then have nz: "script_num vch \<noteq> 0" using eq by (simp add: script_num_def v Let_def)
  have abs: "\<bar>script_num vch\<bar> = int ?m" using eq by (simp add: script_num_def v Let_def)
  have neg: "script_num vch < 0 \<longleftrightarrow> 128 \<le> unat l" using eq \<open>0 < ?m\<close> by (simp add: script_num_def v Let_def)
  obtain r where r: "r \<noteq> []" "last r \<noteq> 0" "int (le_read r) = \<bar>script_num vch\<bar>"
    "serialize (script_num vch) = (if 128 \<le> unat (last r) then r @ [if script_num vch < 0 then 0x80 else 0]
       else if script_num vch < 0 then butlast r @ [last r OR 0x80] else r)"
    using serialize_cases [OF nz] abs m63 by auto
  have "r = mag" using r(3) abs mag r(1,2) by (intro le_read_canonical) auto
  show ?thesis
  proof (cases "unat l mod 128 = 0")
    case True
    then have "128 \<le> unat (last xs)" using assms(2) by (simp add: minimal_num_def v)
    moreover have "l = (if 128 \<le> unat l then 0x80 else 0)"
      using True unat_lt8 [of l] by (auto simp: word_unat_eq_iff)
    ultimately show ?thesis using r(4) neg True \<open>r = mag\<close> by (auto simp: mag_def v)
  next
    case False
    have "unat (l AND 0x7f) < 128" by (simp add: magnitude_bits)
    moreover have "l = (if 128 \<le> unat l then (l AND 0x7f) OR 0x80 else l AND 0x7f)"
      using unat_lt8 [of l] set_sign_bit [of "l AND 0x7f"]
      by (auto simp: word_unat_eq_iff magnitude_bits mod_if)
    ultimately show ?thesis using r(4) neg False \<open>r = mag\<close> by (auto simp: mag_def v)
  qed
qed (simp add: script_num_def serialize_def)

section \<open>Reading back what was pushed\<close>

lemma push_data_append: "push_data script b = script @ push_data [] b"
  by (simp add: push_data_def Let_def)

lemma GetOp2_push_data:
  assumes "length b < 2 ^ 32"
  shows "GetOp2 (push_data [] b @ rest) =
    Some (if length b < 0x4c then of_nat (length b) else if length b \<le> 0xff then OP_PUSHDATA1
          else if length b \<le> 0xffff then OP_PUSHDATA2 else OP_PUSHDATA4, b, rest)"
proof -
  consider "length b < 0x4c" | "0x4c \<le> length b" "length b \<le> 0xff" | "0xff < length b" "length b \<le> 0xffff"
    | "0xffff < length b" by linarith
  then show ?thesis
  proof cases
    case 1
    then have "unat (of_nat (length b) :: u8) = length b" by (simp add: unat_of_nat)
    then show ?thesis
      using 1 by (simp add: push_data_def GetOp2_def word_le_nat_alt word_less_nat_alt)
  next
    case 2
    then have "unat (of_nat (length b) :: u8) = length b" by (simp add: unat_of_nat)
    then show ?thesis using 2 by (simp add: push_data_def GetOp2_def)
  next
    case 3
    then have "unat (of_nat (length b) :: u16) = length b" by (simp add: unat_of_nat)
    then show ?thesis
      using 3 by (simp add: push_data_def GetOp2_def)
  next
    case 4
    then have "unat (of_nat (length b) :: u32) = length b" using assms by (simp add: unat_of_nat)
    then show ?thesis
      using 4 by (simp add: push_data_def GetOp2_def)
  qed
qed

lemma GetOp2_push:
  assumes "length b < 2 ^ 32"
  obtains opc where "GetOp2 (push_data [] b) = Some (opc, b, [])" "\<not> opc > OP_16" "push_data [] b \<noteq> []"
proof -
  let ?op = "if length b < 0x4c then of_nat (length b) else if length b \<le> 0xff then OP_PUSHDATA1
          else if length b \<le> 0xffff then OP_PUSHDATA2 else OP_PUSHDATA4"
  have "GetOp2 (push_data [] b) = Some (?op, b, [])"
    using GetOp2_push_data [of b "[]"] assms by simp
  moreover have "\<not> ?op > OP_16"
  proof (cases "length b < 0x4c")
    case True
    then have "unat (of_nat (length b) :: u8) = length b" by (simp add: unat_of_nat)
    then show ?thesis using True by (simp add: word_less_nat_alt)
  qed simp
  moreover have "push_data [] b \<noteq> []" by (simp add: push_data_def)
  ultimately show thesis using that by blast
qed

lemma pushdata_cases:
  fixes b :: opcodetype
  obtains "\<not> b \<le> OP_PUSHDATA4" | "b < OP_PUSHDATA1" | "b = OP_PUSHDATA1" | "b = OP_PUSHDATA2" | "b = OP_PUSHDATA4"
proof -
  have "unat b > 0x4e \<or> unat b < 0x4c \<or> unat b = 0x4c \<or> unat b = 0x4d \<or> unat b = 0x4e" by arith
  then show thesis using that by (auto simp: word_le_nat_alt word_less_nat_alt word_unat_eq_iff)
qed

lemma GetOp2_append:
  assumes "GetOp2 pc = Some (opcode, vch, rest)"
  shows "GetOp2 (pc @ x) = Some (opcode, vch, rest @ x)"
proof -
  obtain b pc1 where pc: "pc = b # pc1" using assms by (cases pc) (auto simp: GetOp2_def)
  have r16: "ReadLE16 (pc1 @ x) = ReadLE16 pc1" if "\<not> length pc1 < 2" using that by (simp add: ReadLE16_def)
  have r32: "ReadLE32 (pc1 @ x) = ReadLE32 pc1" if "\<not> length pc1 < 4" using that by (simp add: ReadLE32_def)
  consider "\<not> b \<le> OP_PUSHDATA4" | "b < OP_PUSHDATA1" | "b = OP_PUSHDATA1" | "b = OP_PUSHDATA2" | "b = OP_PUSHDATA4"
    by (rule pushdata_cases)
  then show ?thesis
  proof cases
    case 1
    then show ?thesis using assms by (simp add: GetOp2_def pc)
  next
    case 2
    then have "b \<le> OP_PUSHDATA4" by (simp add: word_le_nat_alt word_less_nat_alt)
    then show ?thesis using 2 assms by (auto simp: GetOp2_def pc split: if_splits)
  next
    case 3
    then show ?thesis using assms by (auto simp: GetOp2_def pc split: if_splits list.splits)
  next
    case 4
    then show ?thesis using assms r16 by (auto simp: GetOp2_def pc split: if_splits)
  next
    case 5
    then show ?thesis using assms r32 by (auto simp: GetOp2_def pc split: if_splits)
  qed
qed

lemma IsPushOnly_append: "IsPushOnly xs \<Longrightarrow> IsPushOnly (xs @ ys) \<longleftrightarrow> IsPushOnly ys"
proof (induction xs rule: IsPushOnly.induct)
  case (1 pc)
  show ?case
  proof (cases "pc = []")
    case False
    then obtain opc vch rest where g: "GetOp2 pc = Some (opc, vch, rest)" "\<not> opc > OP_16" "IsPushOnly rest"
      using 1(2) by (subst (asm) IsPushOnly.simps) (auto split: option.splits if_splits)
    then have "IsPushOnly (pc @ ys) = IsPushOnly (rest @ ys)"
      using False GetOp2_append [OF g(1), of ys] by (subst IsPushOnly.simps) simp
    then show ?thesis using 1(1) [OF False g(1)] g by simp
  qed simp
qed

lemma pushes_only: "list_all (\<lambda>b. length b < 2 ^ 32) bs \<Longrightarrow> IsPushOnly (foldl push_data [] bs)"
proof (induction bs rule: rev_induct)
  case (snoc b bs)
  obtain opc where "GetOp2 (push_data [] b) = Some (opc, b, [])" "\<not> opc > OP_16"
    using GetOp2_push [of b] snoc.prems by auto
  then have "IsPushOnly (push_data [] b)" by (subst IsPushOnly.simps) (simp add: IsPushOnly.simps [of "[]"])
  then show ?case
    using snoc by (simp add: push_data_append [of "foldl push_data [] bs"] IsPushOnly_append)
qed (simp add: IsPushOnly.simps)

lemma last_push_append:
  "IsPushOnly xs \<Longrightarrow> ys \<noteq> [] \<Longrightarrow> \<exists>d. last_push (xs @ ys) data = last_push ys d"
proof (induction xs arbitrary: data rule: IsPushOnly.induct)
  case (1 pc)
  show ?case
  proof (cases "pc = []")
    case False
    then obtain opc vch rest where g: "GetOp2 pc = Some (opc, vch, rest)" "\<not> opc > OP_16" "IsPushOnly rest"
      using 1(2) by (subst (asm) IsPushOnly.simps) (auto split: option.splits if_splits)
    then have "last_push (pc @ ys) data = last_push (rest @ ys) vch"
      using False GetOp2_append [OF g(1), of ys] by (subst last_push.simps) simp
    then show ?thesis using 1(1) [OF False g(1)] g 1(3) by simp
  qed auto
qed

lemma last_push_data:
  assumes "IsPushOnly script" "length b < 2 ^ 32"
  shows "last_push (push_data script b) [] = Some b"
proof -
  obtain opc where "GetOp2 (push_data [] b) = Some (opc, b, [])" "\<not> opc > OP_16"
    and ne: "push_data [] b \<noteq> []"
    using GetOp2_push [OF assms(2)] by auto
  then have "last_push (push_data [] b) d = Some b" for d
    by (subst last_push.simps) (simp add: last_push.simps [of "[]"])
  then show ?thesis
    using last_push_append [OF assms(1) ne] push_data_append [of script b] by metis
qed

section \<open>Counting signature operations\<close>

lemma DecodeOP_N_le: "lastOpcode \<ge> OP_1 \<Longrightarrow> lastOpcode \<le> OP_16 \<Longrightarrow>
  unat (of_int (the (DecodeOP_N lastOpcode)) :: u32) \<le> 16"
proof -
  assume a: "lastOpcode \<ge> OP_1" "lastOpcode \<le> OP_16"
  then have u: "81 \<le> uint lastOpcode" "uint lastOpcode \<le> 96" by (simp_all add: word_le_def)
  then have "lastOpcode \<noteq> 0" by auto
  then obtain k where k: "the (DecodeOP_N lastOpcode) = k" "0 \<le> k" "k \<le> 16"
    using a u by (simp add: DecodeOP_N_def)
  then show ?thesis by (simp add: unat_eq_nat_uint uint_word_of_int)
qed

lemma sigop_loop:
  "unat m \<le> unat n \<Longrightarrow> unat n + 20 * length pc < 2 ^ 32 \<Longrightarrow>
   unat (GetSigOpCount_loop True pc l1 m) \<le> unat (GetSigOpCount_loop False pc l2 n) \<and>
   unat (GetSigOpCount_loop False pc l2 n) \<le> unat n + 20 * length pc"
proof (induction "length pc" arbitrary: pc l1 l2 m n rule: less_induct)
  case less
  show ?case
  proof (cases "GetOp2 pc")
    case None
    then show ?thesis
      using less.prems by (simp add: GetSigOpCount_loop.simps [of _ pc])
  next
    case (Some t)
    obtain opc vch rest where t: "t = (opc, vch, rest)" by (cases t)
    have len: "length rest < length pc" using GetOp2_shorter Some t by blast
    define k1 k2 :: u32 where
      "k1 = (if opc = OP_CHECKSIG \<or> opc = OP_CHECKSIGVERIFY then 1
             else if opc = OP_CHECKMULTISIG \<or> opc = OP_CHECKMULTISIGVERIFY then
               (if l1 \<ge> OP_1 \<and> l1 \<le> OP_16 then of_int (the (DecodeOP_N l1)) else 20) else 0)" and
      "k2 = (if opc = OP_CHECKSIG \<or> opc = OP_CHECKSIGVERIFY then 1
             else if opc = OP_CHECKMULTISIG \<or> opc = OP_CHECKMULTISIGVERIFY then 20 else 0)"
    have k: "unat k1 \<le> unat k2" "unat k2 \<le> 20"
      using DecodeOP_N_le [of l1] by (auto simp: k1_def k2_def)
    have step: "GetSigOpCount_loop True pc l1 m = GetSigOpCount_loop True rest opc (m + k1)"
      "GetSigOpCount_loop False pc l2 n = GetSigOpCount_loop False rest opc (n + k2)"
      using Some t by (simp_all add: GetSigOpCount_loop.simps [of _ pc] k1_def k2_def)
    have "unat (m + k1) = unat m + unat k1" "unat (n + k2) = unat n + unat k2"
      using less.prems k len by (intro unat_add_nowrap; simp)+
    then show ?thesis
      using less.hyps [OF len, of "m + k1" "n + k2" opc opc] less.prems k len step by simp
  qed
qed

section \<open>Properties\<close>

text \<open>
  C27: with minimal encoding required, script numbers have one representation. Reading a byte string of
  at most \<open>n\<close> bytes gives the number \<open>v\<close> exactly when the string is what \<open>serialize\<close> writes
  for \<open>v\<close>.
\<close>

theorem minimal_number_encoding:
  assumes "n \<le> 8"
  shows "CScriptNum vch True n = Inr v \<longleftrightarrow> length vch \<le> n \<and> \<bar>v\<bar> < 2 ^ 63 \<and> vch = serialize v"
proof (cases "length vch \<le> n")
  case True
  then have len: "length vch \<le> 8" using assms by simp
  have "CScriptNum vch True n = Inr v \<longleftrightarrow> minimal_num vch \<and> script_num vch = v"
    using CScriptNum_eq [OF True assms, of True] by auto
  then show ?thesis
    using True script_num_bound [OF len] serialize_script_num [OF len] script_num_serialize [of v]
    by auto
qed (simp add: CScriptNum_def)

theorem minimal_number_encoding_witness:
  "CScriptNum [0xff, 0x80] True 4 = Inr (- 255) \<and> serialize (- 255) = [0xff, 0x80]"
proof -
  have "serialize (- 255) = [0xff, 0x80]" by code_simp
  then show ?thesis using minimal_number_encoding [of 4 "[0xff, 0x80]" "- 255"] by simp
qed

text \<open>
  C28: data pushed onto a script reads back. Appending pushes of any byte strings gives a push-only
  script, its first instruction reads as the first string with the rest of the script left, and
  the last string is what \<open>GetSigOpCount\<close> takes for the redeem script.
\<close>

theorem pushed_data_reads_back:
  assumes "list_all (\<lambda>b. length b < 2 ^ 32) bs" "length b < 2 ^ 32"
  shows "IsPushOnly (foldl push_data [] bs) \<and>
    (\<exists>opc. GetOp2 (push_data [] b @ rest) = Some (opc, b, rest)) \<and>
    last_push (push_data (foldl push_data [] bs) b) [] = Some b"
  using pushes_only [OF assms(1)] GetOp2_push_data [OF assms(2), of rest]
    last_push_data [OF pushes_only [OF assms(1)] assms(2)]
  by simp

theorem pushed_data_reads_back_witness:
  "IsPushOnly (push_data [] (replicate 300 7)) \<and>
   last_push (push_data (push_data [] (replicate 300 7)) [1, 2]) [] = Some [1, 2]"
  using pushed_data_reads_back [of "[replicate 300 7]" "[1, 2]" "[]"] by simp

text \<open>
  the accurate count of signature operations of a script never exceeds the coarse one, and
  neither exceeds twenty for each byte, so the 32-bit counter does not wrap for a script whose
  length is below \<open>2^27\<close>.
\<close>

theorem sigop_count_bounds:
  assumes "length script < 2 ^ 27"
  shows "unat (GetSigOpCount True script) \<le> unat (GetSigOpCount False script) \<and>
    unat (GetSigOpCount False script) \<le> 20 * length script"
  using sigop_loop [of 0 0 script OP_INVALIDOPCODE OP_INVALIDOPCODE] assms by (simp add: GetSigOpCount_def)

end
