(* ===== verification/Hashing.thy ===== *)
theory Hashing
  imports Uint256
begin

text \<open>
  The hash functions: \<^verbatim>\<open>src/crypto/sha256.cpp\<close>, \<^verbatim>\<open>sha512.cpp\<close>, \<^verbatim>\<open>sha1.cpp\<close>, \<^verbatim>\<open>ripemd160.cpp\<close>, the
  two HMACs, and \<^verbatim>\<open>src/hash.h\<close> and \<^verbatim>\<open>src/hash.cpp\<close>. The sources unroll the rounds and rename the working
  variables from line to line; here \<open>role\<close> gives the variable that plays a role in round \<open>i\<close>, and the
  rounds run over the table of their constants. The four hasher classes share the text of
  \<^verbatim>\<open>Write\<close>, which is \<open>hasher_Write\<close> here, with the block size and the transformation as
  arguments. The locale \<open>md_hasher\<close> shows once that this buffering computes the padded
  block-by-block hash of everything written.
\<close>

section \<open>The shared hasher\<close>

record 's hasher =
  hs_s :: 's
  hs_buf :: bytes
  hs_bytes :: u64

definition memcpy :: "bytes \<Rightarrow> nat \<Rightarrow> bytes \<Rightarrow> bytes" where
  "memcpy dst off src = take off dst @ src @ drop (off + length src) dst"

function hasher_chunks ::
  "nat \<Rightarrow> ('s \<Rightarrow> bytes \<Rightarrow> 's) \<Rightarrow> 's hasher \<Rightarrow> bytes \<Rightarrow> 's hasher \<times> bytes" where
  "hasher_chunks B tf h data =
     (if B = 0 \<or> length data < B then (h, data)
      else hasher_chunks B tf
        (h\<lparr>hs_s := tf (hs_s h) (take B data), hs_bytes := hs_bytes h + of_nat B\<rparr>) (drop B data))"
  by auto
termination
  by (relation "measure (\<lambda>(B, tf, h, data). length data)") auto

declare hasher_chunks.simps [simp del]

definition hasher_Write ::
  "nat \<Rightarrow> ('s \<Rightarrow> bytes \<Rightarrow> 's) \<Rightarrow> 's hasher \<Rightarrow> bytes \<Rightarrow> 's hasher" where
  "hasher_Write B tf h data =
     (let bufsize = unat (hs_bytes h) mod B;
          (h1, data1, bufsize1) =
            (if bufsize \<noteq> 0 \<and> bufsize + length data \<ge> B then
               let buf = memcpy (hs_buf h) bufsize (take (B - bufsize) data)
               in (h\<lparr>hs_s := tf (hs_s h) buf, hs_buf := buf,
                     hs_bytes := hs_bytes h + of_nat (B - bufsize)\<rparr>, drop (B - bufsize) data, 0)
             else (h, data, bufsize));
          (h2, data2) = hasher_chunks B tf h1 data1
      in if data2 \<noteq> [] then
           h2\<lparr>hs_buf := memcpy (hs_buf h2) bufsize1 data2,
              hs_bytes := hs_bytes h2 + of_nat (length data2)\<rparr>
         else h2)"

text \<open>The variable that plays role \<open>j\<close> in round \<open>i\<close>, of \<open>n\<close> variables.\<close>

definition role :: "nat \<Rightarrow> nat \<Rightarrow> nat \<Rightarrow> nat" where
  "role n i j = (j + n - i mod n) mod n"

section \<open>SHA-256\<close>

definition sha256_Ch :: "u32 \<Rightarrow> u32 \<Rightarrow> u32 \<Rightarrow> u32" where
  "sha256_Ch x y z = z XOR (x AND (y XOR z))"

definition sha256_Maj :: "u32 \<Rightarrow> u32 \<Rightarrow> u32 \<Rightarrow> u32" where
  "sha256_Maj x y z = (x AND y) OR (z AND (x OR y))"

definition sha256_Sigma0 :: "u32 \<Rightarrow> u32" where
  "sha256_Sigma0 x = (drop_bit 2 x OR push_bit 30 x) XOR (drop_bit 13 x OR push_bit 19 x) XOR
     (drop_bit 22 x OR push_bit 10 x)"

definition sha256_Sigma1 :: "u32 \<Rightarrow> u32" where
  "sha256_Sigma1 x = (drop_bit 6 x OR push_bit 26 x) XOR (drop_bit 11 x OR push_bit 21 x) XOR
     (drop_bit 25 x OR push_bit 7 x)"

definition sha256_sigma0 :: "u32 \<Rightarrow> u32" where
  "sha256_sigma0 x = (drop_bit 7 x OR push_bit 25 x) XOR (drop_bit 18 x OR push_bit 14 x) XOR drop_bit 3 x"

definition sha256_sigma1 :: "u32 \<Rightarrow> u32" where
  "sha256_sigma1 x = (drop_bit 17 x OR push_bit 15 x) XOR (drop_bit 19 x OR push_bit 13 x) XOR drop_bit 10 x"

definition sha256_Round :: "nat \<Rightarrow> u32 list \<Rightarrow> u32 \<Rightarrow> u32 \<Rightarrow> u32 list" where
  "sha256_Round i r k w =
     (let v = (\<lambda>j. r ! role 8 i j);
          t1 = v 7 + sha256_Sigma1 (v 4) + sha256_Ch (v 4) (v 5) (v 6) + k + w;
          t2 = sha256_Sigma0 (v 0) + sha256_Maj (v 0) (v 1) (v 2)
      in r[role 8 i 3 := v 3 + t1, role 8 i 7 := t1 + t2])"

definition sha256_Initialize :: "u32 list" where
  "sha256_Initialize = [0x6a09e667, 0xbb67ae85, 0x3c6ef372, 0xa54ff53a,
     0x510e527f, 0x9b05688c, 0x1f83d9ab, 0x5be0cd19]"

text \<open>The constant of each round, with the register of the message schedule it is added to.\<close>

definition sha256_K :: "(u32 \<times> nat) list" where
  "sha256_K = [
     (0x428a2f98, 0), (0x71374491, 1), (0xb5c0fbcf, 2), (0xe9b5dba5, 3), (0x3956c25b, 4),
     (0x59f111f1, 5), (0x923f82a4, 6), (0xab1c5ed5, 7), (0xd807aa98, 8), (0x12835b01, 9),
     (0x243185be, 10), (0x550c7dc3, 11), (0x72be5d74, 12), (0x80deb1fe, 13), (0x9bdc06a7, 14),
     (0xc19bf174, 15), (0xe49b69c1, 0), (0xefbe4786, 1), (0x0fc19dc6, 2), (0x240ca1cc, 3),
     (0x2de92c6f, 4), (0x4a7484aa, 5), (0x5cb0a9dc, 6), (0x76f988da, 7), (0x983e5152, 8),
     (0xa831c66d, 9), (0xb00327c8, 10), (0xbf597fc7, 11), (0xc6e00bf3, 12), (0xd5a79147, 13),
     (0x06ca6351, 14), (0x14292967, 15), (0x27b70a85, 0), (0x2e1b2138, 1), (0x4d2c6dfc, 2),
     (0x53380d13, 3), (0x650a7354, 4), (0x766a0abb, 5), (0x81c2c92e, 6), (0x92722c85, 7),
     (0xa2bfe8a1, 8), (0xa81a664b, 9), (0xc24b8b70, 10), (0xc76c51a3, 11), (0xd192e819, 12),
     (0xd6990624, 13), (0xf40e3585, 14), (0x106aa070, 15), (0x19a4c116, 0), (0x1e376c08, 1),
     (0x2748774c, 2), (0x34b0bcb5, 3), (0x391c0cb3, 4), (0x4ed8aa4a, 5), (0x5b9cca4f, 6),
     (0x682e6ff3, 7), (0x748f82ee, 8), (0x78a5636f, 9), (0x84c87814, 10), (0x8cc70208, 11),
     (0x90befffa, 12), (0xa4506ceb, 13), (0xbef9a3f7, 14), (0xc67178f2, 15)]"

definition sha256_w :: "bytes \<Rightarrow> nat \<Rightarrow> u32 list \<Rightarrow> u32 list" where
  "sha256_w chunk i w =
     (if i < 16 then w[i := ReadBE32 (drop (4 * i) chunk)]
      else w[i mod 16 := w ! (i mod 16) + (sha256_sigma1 (w ! ((i + 14) mod 16)) +
             w ! ((i + 9) mod 16) + sha256_sigma0 (w ! ((i + 1) mod 16)))])"

fun sha256_rounds :: "bytes \<Rightarrow> nat \<Rightarrow> (u32 \<times> nat) list \<Rightarrow> u32 list \<Rightarrow> u32 list \<Rightarrow> u32 list" where
  "sha256_rounds chunk i [] w r = r"
| "sha256_rounds chunk i ((k, j) # ks) w r =
     (let w' = sha256_w chunk i w
      in sha256_rounds chunk (Suc i) ks w' (sha256_Round i r k (w' ! j)))"

definition sha256_Transform :: "u32 list \<Rightarrow> bytes \<Rightarrow> u32 list" where
  "sha256_Transform s chunk = map2 (+) s (sha256_rounds chunk 0 sha256_K (replicate 16 0) s)"

type_synonym CSHA256 = "u32 list hasher"

definition CSHA256_new :: CSHA256 where
  "CSHA256_new = \<lparr>hs_s = sha256_Initialize, hs_buf = replicate 64 0, hs_bytes = 0\<rparr>"

definition CSHA256_Write :: "CSHA256 \<Rightarrow> bytes \<Rightarrow> CSHA256" where
  "CSHA256_Write = hasher_Write 64 sha256_Transform"

definition CSHA256_FinalizeNoPadding :: "CSHA256 \<Rightarrow> bool \<Rightarrow> bytes option" where
  "CSHA256_FinalizeNoPadding h enforce_compression =
     (if enforce_compression \<and> hs_bytes h \<noteq> 64 then None
      else Some (concat (map WriteBE32 (hs_s h))))"

definition CSHA256_Finalize :: "CSHA256 \<Rightarrow> bytes" where
  "CSHA256_Finalize h =
     (let pad = 0x80 # replicate 63 0;
          sizedesc = WriteBE64 (push_bit 3 (hs_bytes h));
          h1 = CSHA256_Write h (take (1 + (119 - unat (hs_bytes h) mod 64) mod 64) pad);
          h2 = CSHA256_Write h1 sizedesc
      in the (CSHA256_FinalizeNoPadding h2 False))"

definition CSHA256_Reset :: "CSHA256 \<Rightarrow> CSHA256" where
  "CSHA256_Reset h = h\<lparr>hs_bytes := 0, hs_s := sha256_Initialize\<rparr>"

section \<open>SHA-512\<close>

definition sha512_Ch :: "u64 \<Rightarrow> u64 \<Rightarrow> u64 \<Rightarrow> u64" where
  "sha512_Ch x y z = z XOR (x AND (y XOR z))"

definition sha512_Maj :: "u64 \<Rightarrow> u64 \<Rightarrow> u64 \<Rightarrow> u64" where
  "sha512_Maj x y z = (x AND y) OR (z AND (x OR y))"

definition sha512_Sigma0 :: "u64 \<Rightarrow> u64" where
  "sha512_Sigma0 x = (drop_bit 28 x OR push_bit 36 x) XOR (drop_bit 34 x OR push_bit 30 x) XOR
     (drop_bit 39 x OR push_bit 25 x)"

definition sha512_Sigma1 :: "u64 \<Rightarrow> u64" where
  "sha512_Sigma1 x = (drop_bit 14 x OR push_bit 50 x) XOR (drop_bit 18 x OR push_bit 46 x) XOR
     (drop_bit 41 x OR push_bit 23 x)"

definition sha512_sigma0 :: "u64 \<Rightarrow> u64" where
  "sha512_sigma0 x = (drop_bit 1 x OR push_bit 63 x) XOR (drop_bit 8 x OR push_bit 56 x) XOR drop_bit 7 x"

definition sha512_sigma1 :: "u64 \<Rightarrow> u64" where
  "sha512_sigma1 x = (drop_bit 19 x OR push_bit 45 x) XOR (drop_bit 61 x OR push_bit 3 x) XOR drop_bit 6 x"

definition sha512_Round :: "nat \<Rightarrow> u64 list \<Rightarrow> u64 \<Rightarrow> u64 \<Rightarrow> u64 list" where
  "sha512_Round i r k w =
     (let v = (\<lambda>j. r ! role 8 i j);
          t1 = v 7 + sha512_Sigma1 (v 4) + sha512_Ch (v 4) (v 5) (v 6) + k + w;
          t2 = sha512_Sigma0 (v 0) + sha512_Maj (v 0) (v 1) (v 2)
      in r[role 8 i 3 := v 3 + t1, role 8 i 7 := t1 + t2])"

definition sha512_Initialize :: "u64 list" where
  "sha512_Initialize = [0x6a09e667f3bcc908, 0xbb67ae8584caa73b, 0x3c6ef372fe94f82b,
     0xa54ff53a5f1d36f1, 0x510e527fade682d1, 0x9b05688c2b3e6c1f, 0x1f83d9abfb41bd6b,
     0x5be0cd19137e2179]"

definition sha512_K :: "(u64 \<times> nat) list" where
  "sha512_K = [
     (0x428a2f98d728ae22, 0), (0x7137449123ef65cd, 1), (0xb5c0fbcfec4d3b2f, 2),
     (0xe9b5dba58189dbbc, 3), (0x3956c25bf348b538, 4), (0x59f111f1b605d019, 5),
     (0x923f82a4af194f9b, 6), (0xab1c5ed5da6d8118, 7), (0xd807aa98a3030242, 8),
     (0x12835b0145706fbe, 9), (0x243185be4ee4b28c, 10), (0x550c7dc3d5ffb4e2, 11),
     (0x72be5d74f27b896f, 12), (0x80deb1fe3b1696b1, 13), (0x9bdc06a725c71235, 14),
     (0xc19bf174cf692694, 15), (0xe49b69c19ef14ad2, 0), (0xefbe4786384f25e3, 1),
     (0x0fc19dc68b8cd5b5, 2), (0x240ca1cc77ac9c65, 3), (0x2de92c6f592b0275, 4),
     (0x4a7484aa6ea6e483, 5), (0x5cb0a9dcbd41fbd4, 6), (0x76f988da831153b5, 7),
     (0x983e5152ee66dfab, 8), (0xa831c66d2db43210, 9), (0xb00327c898fb213f, 10),
     (0xbf597fc7beef0ee4, 11), (0xc6e00bf33da88fc2, 12), (0xd5a79147930aa725, 13),
     (0x06ca6351e003826f, 14), (0x142929670a0e6e70, 15), (0x27b70a8546d22ffc, 0),
     (0x2e1b21385c26c926, 1), (0x4d2c6dfc5ac42aed, 2), (0x53380d139d95b3df, 3),
     (0x650a73548baf63de, 4), (0x766a0abb3c77b2a8, 5), (0x81c2c92e47edaee6, 6),
     (0x92722c851482353b, 7), (0xa2bfe8a14cf10364, 8), (0xa81a664bbc423001, 9),
     (0xc24b8b70d0f89791, 10), (0xc76c51a30654be30, 11), (0xd192e819d6ef5218, 12),
     (0xd69906245565a910, 13), (0xf40e35855771202a, 14), (0x106aa07032bbd1b8, 15),
     (0x19a4c116b8d2d0c8, 0), (0x1e376c085141ab53, 1), (0x2748774cdf8eeb99, 2),
     (0x34b0bcb5e19b48a8, 3), (0x391c0cb3c5c95a63, 4), (0x4ed8aa4ae3418acb, 5),
     (0x5b9cca4f7763e373, 6), (0x682e6ff3d6b2b8a3, 7), (0x748f82ee5defb2fc, 8),
     (0x78a5636f43172f60, 9), (0x84c87814a1f0ab72, 10), (0x8cc702081a6439ec, 11),
     (0x90befffa23631e28, 12), (0xa4506cebde82bde9, 13), (0xbef9a3f7b2c67915, 14),
     (0xc67178f2e372532b, 15), (0xca273eceea26619c, 0), (0xd186b8c721c0c207, 1),
     (0xeada7dd6cde0eb1e, 2), (0xf57d4f7fee6ed178, 3), (0x06f067aa72176fba, 4),
     (0x0a637dc5a2c898a6, 5), (0x113f9804bef90dae, 6), (0x1b710b35131c471b, 7),
     (0x28db77f523047d84, 8), (0x32caab7b40c72493, 9), (0x3c9ebe0a15c9bebc, 10),
     (0x431d67c49c100d4c, 11), (0x4cc5d4becb3e42b6, 12), (0x597f299cfc657e2a, 13),
     (0x5fcb6fab3ad6faec, 14), (0x6c44198c4a475817, 15)]"

definition sha512_w :: "bytes \<Rightarrow> nat \<Rightarrow> u64 list \<Rightarrow> u64 list" where
  "sha512_w chunk i w =
     (if i < 16 then w[i := ReadBE64 (drop (8 * i) chunk)]
      else w[i mod 16 := w ! (i mod 16) + (sha512_sigma1 (w ! ((i + 14) mod 16)) +
             w ! ((i + 9) mod 16) + sha512_sigma0 (w ! ((i + 1) mod 16)))])"

fun sha512_rounds :: "bytes \<Rightarrow> nat \<Rightarrow> (u64 \<times> nat) list \<Rightarrow> u64 list \<Rightarrow> u64 list \<Rightarrow> u64 list" where
  "sha512_rounds chunk i [] w r = r"
| "sha512_rounds chunk i ((k, j) # ks) w r =
     (let w' = sha512_w chunk i w
      in sha512_rounds chunk (Suc i) ks w' (sha512_Round i r k (w' ! j)))"

definition sha512_Transform :: "u64 list \<Rightarrow> bytes \<Rightarrow> u64 list" where
  "sha512_Transform s chunk = map2 (+) s (sha512_rounds chunk 0 sha512_K (replicate 16 0) s)"

type_synonym CSHA512 = "u64 list hasher"

definition CSHA512_new :: CSHA512 where
  "CSHA512_new = \<lparr>hs_s = sha512_Initialize, hs_buf = replicate 128 0, hs_bytes = 0\<rparr>"

definition CSHA512_Write :: "CSHA512 \<Rightarrow> bytes \<Rightarrow> CSHA512" where
  "CSHA512_Write = hasher_Write 128 sha512_Transform"

definition CSHA512_Finalize :: "CSHA512 \<Rightarrow> bytes" where
  "CSHA512_Finalize h =
     (let pad = 0x80 # replicate 127 0;
          sizedesc = replicate 8 0 @ WriteBE64 (push_bit 3 (hs_bytes h));
          h1 = CSHA512_Write h (take (1 + (239 - unat (hs_bytes h) mod 128) mod 128) pad);
          h2 = CSHA512_Write h1 sizedesc
      in concat (map WriteBE64 (hs_s h2)))"

definition CSHA512_Reset :: "CSHA512 \<Rightarrow> CSHA512" where
  "CSHA512_Reset h = h\<lparr>hs_bytes := 0, hs_s := sha512_Initialize\<rparr>"

section \<open>SHA-1\<close>

definition sha1_Round :: "nat \<Rightarrow> u32 list \<Rightarrow> u32 \<Rightarrow> u32 \<Rightarrow> u32 \<Rightarrow> u32 list" where
  "sha1_Round i r f k w =
     (let v = (\<lambda>j. r ! role 5 i j)
      in r[role 5 i 4 := v 4 + ((push_bit 5 (v 0) OR drop_bit 27 (v 0)) + f + k + w),
           role 5 i 1 := push_bit 30 (v 1) OR drop_bit 2 (v 1)])"

definition sha1_f1 :: "u32 \<Rightarrow> u32 \<Rightarrow> u32 \<Rightarrow> u32" where
  "sha1_f1 b c d = d XOR (b AND (c XOR d))"

definition sha1_f2 :: "u32 \<Rightarrow> u32 \<Rightarrow> u32 \<Rightarrow> u32" where
  "sha1_f2 b c d = b XOR c XOR d"

definition sha1_f3 :: "u32 \<Rightarrow> u32 \<Rightarrow> u32 \<Rightarrow> u32" where
  "sha1_f3 b c d = (b AND c) OR (d AND (b OR c))"

definition sha1_left :: "u32 \<Rightarrow> u32" where
  "sha1_left x = push_bit 1 x OR drop_bit 31 x"

definition sha1_Initialize :: "u32 list" where
  "sha1_Initialize = [0x67452301, 0xEFCDAB89, 0x98BADCFE, 0x10325476, 0xC3D2E1F0]"

definition sha1_k :: "nat \<Rightarrow> u32" where
  "sha1_k i = (if i < 20 then 0x5A827999 else if i < 40 then 0x6ED9EBA1
     else if i < 60 then 0x8F1BBCDC else 0xCA62C1D6)"

definition sha1_f :: "nat \<Rightarrow> u32 \<Rightarrow> u32 \<Rightarrow> u32 \<Rightarrow> u32" where
  "sha1_f i = (if i < 20 then sha1_f1 else if i < 40 then sha1_f2
     else if i < 60 then sha1_f3 else sha1_f2)"

definition sha1_w :: "bytes \<Rightarrow> nat \<Rightarrow> u32 list \<Rightarrow> u32 list" where
  "sha1_w chunk i w =
     (if i < 16 then w[i := ReadBE32 (drop (4 * i) chunk)]
      else w[i mod 16 := sha1_left (w ! (i mod 16) XOR w ! ((i + 13) mod 16) XOR
             w ! ((i + 8) mod 16) XOR w ! ((i + 2) mod 16))])"

fun sha1_rounds :: "bytes \<Rightarrow> nat list \<Rightarrow> u32 list \<Rightarrow> u32 list \<Rightarrow> u32 list" where
  "sha1_rounds chunk [] w r = r"
| "sha1_rounds chunk (i # is) w r =
     (let w' = sha1_w chunk i w;
          f = sha1_f i (r ! role 5 i 1) (r ! role 5 i 2) (r ! role 5 i 3)
      in sha1_rounds chunk is w' (sha1_Round i r f (sha1_k i) (w' ! (i mod 16))))"

definition sha1_Transform :: "u32 list \<Rightarrow> bytes \<Rightarrow> u32 list" where
  "sha1_Transform s chunk = map2 (+) s (sha1_rounds chunk [0..<80] (replicate 16 0) s)"

type_synonym CSHA1 = "u32 list hasher"

definition CSHA1_new :: CSHA1 where
  "CSHA1_new = \<lparr>hs_s = sha1_Initialize, hs_buf = replicate 64 0, hs_bytes = 0\<rparr>"

definition CSHA1_Write :: "CSHA1 \<Rightarrow> bytes \<Rightarrow> CSHA1" where
  "CSHA1_Write = hasher_Write 64 sha1_Transform"

definition CSHA1_Finalize :: "CSHA1 \<Rightarrow> bytes" where
  "CSHA1_Finalize h =
     (let pad = 0x80 # replicate 63 0;
          sizedesc = WriteBE64 (push_bit 3 (hs_bytes h));
          h1 = CSHA1_Write h (take (1 + (119 - unat (hs_bytes h) mod 64) mod 64) pad);
          h2 = CSHA1_Write h1 sizedesc
      in concat (map WriteBE32 (hs_s h2)))"

definition CSHA1_Reset :: "CSHA1 \<Rightarrow> CSHA1" where
  "CSHA1_Reset h = h\<lparr>hs_bytes := 0, hs_s := sha1_Initialize\<rparr>"

section \<open>RIPEMD-160\<close>

definition ripemd160_f1 :: "u32 \<Rightarrow> u32 \<Rightarrow> u32 \<Rightarrow> u32" where
  "ripemd160_f1 x y z = x XOR y XOR z"

definition ripemd160_f2 :: "u32 \<Rightarrow> u32 \<Rightarrow> u32 \<Rightarrow> u32" where
  "ripemd160_f2 x y z = (x AND y) OR (NOT x AND z)"

definition ripemd160_f3 :: "u32 \<Rightarrow> u32 \<Rightarrow> u32 \<Rightarrow> u32" where
  "ripemd160_f3 x y z = (x OR NOT y) XOR z"

definition ripemd160_f4 :: "u32 \<Rightarrow> u32 \<Rightarrow> u32 \<Rightarrow> u32" where
  "ripemd160_f4 x y z = (x AND z) OR (y AND NOT z)"

definition ripemd160_f5 :: "u32 \<Rightarrow> u32 \<Rightarrow> u32 \<Rightarrow> u32" where
  "ripemd160_f5 x y z = x XOR (y OR NOT z)"

definition ripemd160_Initialize :: "u32 list" where
  "ripemd160_Initialize = [0x67452301, 0xEFCDAB89, 0x98BADCFE, 0x10325476, 0xC3D2E1F0]"

definition ripemd160_Round :: "nat \<Rightarrow> u32 list \<Rightarrow> u32 \<Rightarrow> u32 \<Rightarrow> u32 \<Rightarrow> nat \<Rightarrow> u32 list" where
  "ripemd160_Round i q f x k r =
     (let v = (\<lambda>j. q ! role 5 i j)
      in q[role 5 i 0 := rotl32 r (v 0 + f + x + k) + v 4, role 5 i 2 := rotl32 10 (v 2)])"

text \<open>The functions and constants of \<^verbatim>\<open>R11\<close> to \<^verbatim>\<open>R51\<close> and of \<^verbatim>\<open>R12\<close> to \<^verbatim>\<open>R52\<close>, sixteen rounds each.\<close>

definition ripemd160_line1 :: "((u32 \<Rightarrow> u32 \<Rightarrow> u32 \<Rightarrow> u32) \<times> u32) list" where
  "ripemd160_line1 = [(ripemd160_f1, 0), (ripemd160_f2, 0x5A827999), (ripemd160_f3, 0x6ED9EBA1),
     (ripemd160_f4, 0x8F1BBCDC), (ripemd160_f5, 0xA953FD4E)]"

definition ripemd160_line2 :: "((u32 \<Rightarrow> u32 \<Rightarrow> u32 \<Rightarrow> u32) \<times> u32) list" where
  "ripemd160_line2 = [(ripemd160_f5, 0x50A28BE6), (ripemd160_f4, 0x5C4DD124), (ripemd160_f3, 0x6D703EF3),
     (ripemd160_f2, 0x7A6D76E9), (ripemd160_f1, 0)]"

text \<open>The message word and the rotation of each round of the two lines.\<close>

definition ripemd160_r1 :: "nat list" where
  "ripemd160_r1 = [0, 1, 2, 3, 4, 5, 6, 7, 8, 9, 10, 11, 12, 13, 14, 15, 7, 4, 13, 1, 10, 6, 15, 3, 12, 0, 9,
     5, 2, 14, 11, 8, 3, 10, 14, 4, 9, 15, 8, 1, 2, 7, 0, 6, 13, 11, 5, 12, 1, 9, 11, 10, 0, 8,
     12, 4, 13, 3, 7, 15, 14, 5, 6, 2, 4, 0, 5, 9, 7, 12, 2, 10, 14, 1, 3, 8, 11, 6, 15, 13]"

definition ripemd160_s1 :: "nat list" where
  "ripemd160_s1 = [11, 14, 15, 12, 5, 8, 7, 9, 11, 13, 14, 15, 6, 7, 9, 8, 7, 6, 8, 13, 11, 9, 7, 15, 7, 12,
     15, 9, 11, 7, 13, 12, 11, 13, 6, 7, 14, 9, 13, 15, 14, 8, 13, 6, 5, 12, 7, 5, 11, 12, 14,
     15, 14, 15, 9, 8, 9, 14, 5, 6, 8, 6, 5, 12, 9, 15, 5, 11, 6, 8, 13, 12, 5, 12, 13, 14, 11,
     8, 5, 6]"

definition ripemd160_r2 :: "nat list" where
  "ripemd160_r2 = [5, 14, 7, 0, 9, 2, 11, 4, 13, 6, 15, 8, 1, 10, 3, 12, 6, 11, 3, 7, 0, 13, 5, 10, 14, 15,
     8, 12, 4, 9, 1, 2, 15, 5, 1, 3, 7, 14, 6, 9, 11, 8, 12, 2, 10, 0, 4, 13, 8, 6, 4, 1, 3,
     11, 15, 0, 5, 12, 2, 13, 9, 7, 10, 14, 12, 15, 10, 4, 1, 5, 8, 7, 6, 2, 13, 14, 0, 3, 9, 11]"

definition ripemd160_s2 :: "nat list" where
  "ripemd160_s2 = [8, 9, 9, 11, 13, 15, 15, 5, 7, 7, 8, 11, 14, 14, 12, 6, 9, 13, 15, 7, 12, 8, 9, 11, 7, 7,
     12, 7, 6, 15, 13, 11, 9, 7, 15, 11, 8, 6, 6, 14, 12, 13, 5, 14, 13, 13, 7, 5, 15, 5, 8,
     11, 14, 14, 6, 14, 6, 9, 12, 9, 12, 5, 15, 8, 8, 5, 12, 9, 12, 5, 14, 6, 8, 13, 6, 5, 15,
     13, 11, 11]"

fun ripemd160_rounds ::
  "((u32 \<Rightarrow> u32 \<Rightarrow> u32 \<Rightarrow> u32) \<times> u32) list \<Rightarrow> u32 list \<Rightarrow> nat \<Rightarrow> (nat \<times> nat) list \<Rightarrow> u32 list \<Rightarrow> u32 list" where
  "ripemd160_rounds fk w i [] q = q"
| "ripemd160_rounds fk w i ((x, r) # rs) q =
     (let (f, k) = fk ! (i div 16)
      in ripemd160_rounds fk w (Suc i) rs
           (ripemd160_Round i q (f (q ! role 5 i 1) (q ! role 5 i 2) (q ! role 5 i 3)) (w ! x) k r))"

definition ripemd160_Transform :: "u32 list \<Rightarrow> bytes \<Rightarrow> u32 list" where
  "ripemd160_Transform s chunk =
     (let w = map (\<lambda>i. ReadLE32 (drop (4 * i) chunk)) [0..<16];
          p = ripemd160_rounds ripemd160_line1 w 0 (zip ripemd160_r1 ripemd160_s1) s;
          q = ripemd160_rounds ripemd160_line2 w 0 (zip ripemd160_r2 ripemd160_s2) s
      in [s ! 1 + p ! 2 + q ! 3, s ! 2 + p ! 3 + q ! 4, s ! 3 + p ! 4 + q ! 0,
          s ! 4 + p ! 0 + q ! 1, s ! 0 + p ! 1 + q ! 2])"

type_synonym CRIPEMD160 = "u32 list hasher"

definition CRIPEMD160_new :: CRIPEMD160 where
  "CRIPEMD160_new = \<lparr>hs_s = ripemd160_Initialize, hs_buf = replicate 64 0, hs_bytes = 0\<rparr>"

definition CRIPEMD160_Write :: "CRIPEMD160 \<Rightarrow> bytes \<Rightarrow> CRIPEMD160" where
  "CRIPEMD160_Write = hasher_Write 64 ripemd160_Transform"

definition CRIPEMD160_Finalize :: "CRIPEMD160 \<Rightarrow> bytes" where
  "CRIPEMD160_Finalize h =
     (let pad = 0x80 # replicate 63 0;
          sizedesc = WriteLE64 (push_bit 3 (hs_bytes h));
          h1 = CRIPEMD160_Write h (take (1 + (119 - unat (hs_bytes h) mod 64) mod 64) pad);
          h2 = CRIPEMD160_Write h1 sizedesc
      in concat (map WriteLE32 (hs_s h2)))"

definition CRIPEMD160_Reset :: "CRIPEMD160 \<Rightarrow> CRIPEMD160" where
  "CRIPEMD160_Reset h = h\<lparr>hs_bytes := 0, hs_s := ripemd160_Initialize\<rparr>"

section \<open>HMAC\<close>

record 'h hmac =
  hm_outer :: 'h
  hm_inner :: 'h

definition CHMAC_SHA512 :: "bytes \<Rightarrow> CSHA512 hmac" where
  "CHMAC_SHA512 key =
     (let rkey = (if length key \<le> 128 then key @ replicate (128 - length key) 0
                  else CSHA512_Finalize (CSHA512_Write CSHA512_new key) @ replicate 64 0);
          rkey1 = map (\<lambda>b. b XOR 0x5c) rkey;
          rkey2 = map (\<lambda>b. b XOR (0x5c XOR 0x36)) rkey1
      in \<lparr>hm_outer = CSHA512_Write CSHA512_new rkey1, hm_inner = CSHA512_Write CSHA512_new rkey2\<rparr>)"

definition CHMAC_SHA512_Write :: "CSHA512 hmac \<Rightarrow> bytes \<Rightarrow> CSHA512 hmac" where
  "CHMAC_SHA512_Write h data = h\<lparr>hm_inner := CSHA512_Write (hm_inner h) data\<rparr>"

definition CHMAC_SHA512_Finalize :: "CSHA512 hmac \<Rightarrow> bytes" where
  "CHMAC_SHA512_Finalize h =
     CSHA512_Finalize (CSHA512_Write (hm_outer h) (CSHA512_Finalize (hm_inner h)))"

definition CHMAC_SHA256 :: "bytes \<Rightarrow> CSHA256 hmac" where
  "CHMAC_SHA256 key =
     (let rkey = (if length key \<le> 64 then key @ replicate (64 - length key) 0
                  else CSHA256_Finalize (CSHA256_Write CSHA256_new key) @ replicate 32 0);
          rkey1 = map (\<lambda>b. b XOR 0x5c) rkey;
          rkey2 = map (\<lambda>b. b XOR (0x5c XOR 0x36)) rkey1
      in \<lparr>hm_outer = CSHA256_Write CSHA256_new rkey1, hm_inner = CSHA256_Write CSHA256_new rkey2\<rparr>)"

definition CHMAC_SHA256_Write :: "CSHA256 hmac \<Rightarrow> bytes \<Rightarrow> CSHA256 hmac" where
  "CHMAC_SHA256_Write h data = h\<lparr>hm_inner := CSHA256_Write (hm_inner h) data\<rparr>"

definition CHMAC_SHA256_Finalize :: "CSHA256 hmac \<Rightarrow> bytes" where
  "CHMAC_SHA256_Finalize h =
     CSHA256_Finalize (CSHA256_Write (hm_outer h) (CSHA256_Finalize (hm_inner h)))"

section \<open>The hashes of the protocol\<close>

definition CHash256_Finalize :: "CSHA256 \<Rightarrow> bytes" where
  "CHash256_Finalize sha = CSHA256_Finalize (CSHA256_Write (CSHA256_Reset sha) (CSHA256_Finalize sha))"

definition CHash160_Finalize :: "CSHA256 \<Rightarrow> bytes" where
  "CHash160_Finalize sha = CRIPEMD160_Finalize (CRIPEMD160_Write CRIPEMD160_new (CSHA256_Finalize sha))"

definition Hash :: "bytes \<Rightarrow> uint256" where
  "Hash p1 = CHash256_Finalize (CSHA256_Write CSHA256_new p1)"

definition Hash2 :: "bytes \<Rightarrow> bytes \<Rightarrow> uint256" where
  "Hash2 p1 p2 = CHash256_Finalize (CSHA256_Write (CSHA256_Write CSHA256_new p1) p2)"

definition Hash3 :: "bytes \<Rightarrow> bytes \<Rightarrow> bytes \<Rightarrow> uint256" where
  "Hash3 p1 p2 p3 =
     CHash256_Finalize (CSHA256_Write (CSHA256_Write (CSHA256_Write CSHA256_new p1) p2) p3)"

definition Hash160 :: "bytes \<Rightarrow> uint160" where
  "Hash160 vch = CHash160_Finalize (CSHA256_Write CSHA256_new vch)"

definition murmur_mix :: "u32 \<Rightarrow> u32" where
  "murmur_mix k1 = rotl32 15 (k1 * 0xcc9e2d51) * 0x1b873593"

fun murmur_body :: "nat \<Rightarrow> bytes \<Rightarrow> u32 \<Rightarrow> u32" where
  "murmur_body 0 data h1 = h1"
| "murmur_body (Suc n) data h1 =
     murmur_body n (drop 4 data) (rotl32 13 (h1 XOR murmur_mix (ReadLE32 data)) * 5 + 0xe6546b64)"

definition MurmurHash3 :: "u32 \<Rightarrow> bytes \<Rightarrow> u32" where
  "MurmurHash3 nHashSeed vDataToHash =
     (let nblocks = length vDataToHash div 4;
          h1 = murmur_body nblocks vDataToHash nHashSeed;
          tail = drop (4 * nblocks) vDataToHash;
          h2 = (if tail = [] then h1
                else h1 XOR murmur_mix
                  ((if length tail = 3 then push_bit 16 (ucast (tail ! 2)) else 0) XOR
                   (if length tail \<ge> 2 then push_bit 8 (ucast (tail ! 1)) else 0) XOR ucast (tail ! 0)));
          h3 = h2 XOR of_nat (length vDataToHash);
          h4 = (h3 XOR drop_bit 16 h3) * 0x85ebca6b;
          h5 = (h4 XOR drop_bit 13 h4) * 0xc2b2ae35
      in h5 XOR drop_bit 16 h5)"

definition BIP32Hash :: "uint256 \<Rightarrow> u32 \<Rightarrow> u8 \<Rightarrow> bytes \<Rightarrow> bytes" where
  "BIP32Hash chainCode nChild header data =
     (let num = [ucast (drop_bit 24 nChild AND 0xFF), ucast (drop_bit 16 nChild AND 0xFF),
                 ucast (drop_bit 8 nChild AND 0xFF), ucast (nChild AND 0xFF)]
      in CHMAC_SHA512_Finalize (CHMAC_SHA512_Write (CHMAC_SHA512_Write
           (CHMAC_SHA512_Write (CHMAC_SHA512 chainCode) [header]) data) num))"

section \<open>The specification: padding and folding over blocks\<close>

function blocks :: "nat \<Rightarrow> bytes \<Rightarrow> bytes list" where
  "blocks B xs = (if B = 0 \<or> length xs < B then [] else take B xs # blocks B (drop B xs))"
  by auto
termination
  by (relation "measure (\<lambda>(B, xs). length xs)") auto

declare blocks.simps [simp del]

text \<open>What is left of a message after its full blocks.\<close>

definition left_over :: "nat \<Rightarrow> bytes \<Rightarrow> bytes" where
  "left_over B xs = drop (B * (length xs div B)) xs"

lemma blocks_none [simp]: "blocks B [] = []" "blocks 0 xs = []"
  by (cases "B = 0"; simp add: blocks.simps [of B "[]"] blocks.simps [of 0])+

lemma blocks_short: "length xs < B \<Longrightarrow> blocks B xs = []"
  by (simp add: blocks.simps)

lemma blocks_one: "0 < B \<Longrightarrow> length b = B \<Longrightarrow> blocks B b = [b]"
  by (simp add: blocks.simps [of B b])

lemma blocks_append:
  assumes "0 < B" "B dvd length xs"
  shows "blocks B (xs @ ys) = blocks B xs @ blocks B ys"
  using assms(2)
proof (induction B xs rule: blocks.induct)
  case (1 B xs)
  show ?case
  proof (cases "B = 0 \<or> length xs < B")
    case True
    then have "xs = [] \<or> B = 0" using 1(2) by (auto dest: dvd_imp_le)
    then show ?thesis by auto
  next
    case False
    then have "B dvd length (drop B xs)" using 1(2) by simp
    then have "blocks B (drop B xs @ ys) = blocks B (drop B xs) @ blocks B ys" using 1(1) False by simp
    then show ?thesis using False by (simp add: blocks.simps [of B "xs @ ys"] blocks.simps [of B xs])
  qed
qed

lemma length_left_over: "0 < B \<Longrightarrow> length (left_over B xs) = length xs mod B"
  by (simp add: left_over_def minus_mult_div_eq_mod)

lemma left_over_short: "length xs < B \<Longrightarrow> left_over B xs = xs"
  by (simp add: left_over_def)

lemma left_over_append:
  assumes "0 < B" "B dvd length xs"
  shows "left_over B (xs @ ys) = left_over B ys"
proof -
  have "(length xs + length ys) div B = length xs div B + length ys div B"
    using assms(2) by (simp add: div_plus_div_distrib_dvd_left)
  then show ?thesis using assms by (simp add: left_over_def distrib_left)
qed

lemma split_left_over:
  assumes "0 < B"
  obtains front where "xs = front @ left_over B xs" "B dvd length front" "blocks B xs = blocks B front"
proof -
  let ?f = "take (B * (length xs div B)) xs"
  have x: "xs = ?f @ left_over B xs" by (simp add: left_over_def)
  moreover have d: "B dvd length ?f" using times_div_less_eq_dividend [of B "length xs"] by (simp add: min_absorb2)
  moreover have "blocks B (?f @ left_over B xs) = blocks B ?f"
    using blocks_append [OF assms d] blocks_short [of "left_over B xs" B] length_left_over [OF assms, of xs] assms
    by simp
  ultimately show thesis using that by metis
qed

section \<open>The buffering hasher meets it\<close>

locale md_hasher =
  fixes B :: nat
    and tf :: "'s \<Rightarrow> bytes \<Rightarrow> 's"
    and init :: 's
    and enc :: "u64 \<Rightarrow> bytes"
    and lenb :: nat
  assumes B_pos: "0 < B" and B_dvd: "B dvd 2 ^ 64"
    and enc_len: "length (enc n) = lenb" and room: "lenb < B"
begin

text \<open>The hasher has seen the message \<open>m\<close>.\<close>

definition rep :: "'s hasher \<Rightarrow> bytes \<Rightarrow> bool" where
  "rep h m \<longleftrightarrow> hs_bytes h = of_nat (length m) \<and> length (hs_buf h) = B \<and>
     take (length m mod B) (hs_buf h) = left_over B m \<and> hs_s h = foldl tf init (blocks B m)"

lemma bufsize: "rep h m \<Longrightarrow> unat (hs_bytes h) mod B = length m mod B"
proof -
  assume "rep h m"
  then have "unat (hs_bytes h) = length m mod 2 ^ 64" by (simp add: rep_def unat_of_nat)
  then show ?thesis using B_dvd by (simp only: mod_mod_cancel)
qed

lemma rep_new: "length b = B \<Longrightarrow> rep \<lparr>hs_s = init, hs_buf = b, hs_bytes = 0\<rparr> []"
  using B_pos by (simp add: rep_def left_over_def)

lemma rep_full:
  assumes "rep h m" "0 < length m mod B" "length d = B - length m mod B"
  defines "b \<equiv> memcpy (hs_buf h) (length m mod B) d"
  shows "rep (h\<lparr>hs_s := tf (hs_s h) b, hs_buf := b, hs_bytes := hs_bytes h + of_nat (length d)\<rparr>) (m @ d)"
    and "B dvd length (m @ d)"
proof -
  obtain f where f: "m = f @ left_over B m" "B dvd length f" "blocks B m = blocks B f"
    by (rule split_left_over [OF B_pos])
  have r: "length m mod B < B" using B_pos by simp
  have b: "b = left_over B m @ d" using assms(1,3) r by (simp add: b_def memcpy_def rep_def)
  have len: "length (left_over B m @ d) = B" using r assms(3) by (simp add: length_left_over B_pos)
  have md: "m @ d = f @ b" using f(1) b by (metis append_assoc)
  show dv: "B dvd length (m @ d)" unfolding md using f(2) len b by simp
  have "blocks B b = [b]" using len b B_pos by (intro blocks_one) simp_all
  then have "blocks B (m @ d) = blocks B m @ [b]"
    using blocks_append [OF B_pos f(2), of b] md f(3) by simp
  moreover have "left_over B (m @ d) = []" using length_left_over [OF B_pos, of "m @ d"] dv by simp
  ultimately show "rep (h\<lparr>hs_s := tf (hs_s h) b, hs_buf := b, hs_bytes := hs_bytes h + of_nat (length d)\<rparr>) (m @ d)"
    using assms(1) len b dv by (simp add: rep_def mod_eq_0_iff_dvd)
qed

lemma rep_chunks:
  "rep h m \<Longrightarrow> B dvd length m \<Longrightarrow> \<exists>d. data = d @ snd (hasher_chunks B tf h data) \<and>
     length (snd (hasher_chunks B tf h data)) < B \<and>
     rep (fst (hasher_chunks B tf h data)) (m @ d) \<and> B dvd length (m @ d)"
proof (induction "length data" arbitrary: h m data rule: less_induct)
  case less
  show ?case
  proof (cases "length data < B")
    case True
    then show ?thesis using less.prems by (intro exI [of _ "[]"]) (simp add: hasher_chunks.simps)
  next
    case False
    let ?c = "take B data"
    let ?h = "h\<lparr>hs_s := tf (hs_s h) ?c, hs_bytes := hs_bytes h + of_nat B\<rparr>"
    have c: "length ?c = B" using False by simp
    have "blocks B ?c = [?c]" using c B_pos by (intro blocks_one) simp_all
    then have "blocks B (m @ ?c) = blocks B m @ [?c]"
      using blocks_append [OF B_pos less.prems(2), of ?c] by simp
    moreover have dv: "B dvd length (m @ ?c)" using less.prems(2) c by simp
    moreover have "left_over B (m @ ?c) = []" using length_left_over [OF B_pos, of "m @ ?c"] dv by simp
    ultimately have rep: "rep ?h (m @ ?c)"
      using less.prems c by (simp add: rep_def mod_eq_0_iff_dvd)
    have "length (drop B data) < length data" using False B_pos by simp
    from less.hyps [OF this rep dv] obtain d where
      "drop B data = d @ snd (hasher_chunks B tf ?h (drop B data))"
      "length (snd (hasher_chunks B tf ?h (drop B data))) < B"
      "rep (fst (hasher_chunks B tf ?h (drop B data))) ((m @ ?c) @ d)" "B dvd length ((m @ ?c) @ d)"
      by blast
    moreover have "hasher_chunks B tf h data = hasher_chunks B tf ?h (drop B data)"
      using False B_pos by (simp add: hasher_chunks.simps [of B tf h data])
    ultimately show ?thesis
      by (intro exI [of _ "?c @ d"]) (metis append_assoc append_take_drop_id)
  qed
qed

lemma rep_tail:
  assumes "rep h m" "length m mod B + length d < B"
  shows "rep (h\<lparr>hs_buf := memcpy (hs_buf h) (length m mod B) d, hs_bytes := hs_bytes h + of_nat (length d)\<rparr>) (m @ d)"
proof -
  obtain f where f: "m = f @ left_over B m" "B dvd length f" "blocks B m = blocks B f"
    by (rule split_left_over [OF B_pos])
  have l: "length (left_over B m @ d) < B" using assms(2) by (simp add: length_left_over B_pos)
  have md: "m @ d = f @ left_over B m @ d" using f(1) by (metis append_assoc)
  have "blocks B (m @ d) = blocks B m"
    unfolding md using blocks_append [OF B_pos f(2), of "left_over B m @ d"] f(3) blocks_short [OF l] by simp
  moreover have "left_over B (m @ d) = left_over B m @ d"
    unfolding md using left_over_append [OF B_pos f(2), of "left_over B m @ d"] left_over_short [OF l] by simp
  moreover have "length (m @ d) mod B = length m mod B + length d"
    using assms(2) mod_add_left_eq [of "length m" B "length d"] by simp
  ultimately show ?thesis
    using assms length_left_over [OF B_pos, of m] by (simp add: rep_def memcpy_def)
qed

lemma rep_Write:
  assumes "rep h m"
  shows "rep (hasher_Write B tf h data) (m @ data)"
proof -
  let ?r = "length m mod B"
  have r: "?r < B" using B_pos by simp
  have finish: "rep (let (h2, data2) = hasher_chunks B tf h1 data1
      in if data2 \<noteq> [] then h2\<lparr>hs_buf := memcpy (hs_buf h2) 0 data2,
           hs_bytes := hs_bytes h2 + of_nat (length data2)\<rparr> else h2) (m1 @ data1)"
    if h1: "rep h1 m1" "B dvd length m1" for h1 m1 data1
  proof -
    obtain h2 data2 where c: "hasher_chunks B tf h1 data1 = (h2, data2)" by (cases "hasher_chunks B tf h1 data1")
    obtain d where d: "data1 = d @ data2" "length data2 < B" "rep h2 (m1 @ d)" "B dvd length (m1 @ d)"
      using rep_chunks [OF h1, of data1] c by auto
    have "length (m1 @ d) mod B = 0" using d(4) by (simp only: mod_eq_0_iff_dvd)
    then show ?thesis using rep_tail [OF d(3), of data2] d c by auto
  qed
  show ?thesis
  proof (cases "?r \<noteq> 0 \<and> ?r + length data \<ge> B")
    case True
    let ?d = "take (B - ?r) data" and ?b = "memcpy (hs_buf h) ?r (take (B - ?r) data)"
    let ?h = "h\<lparr>hs_s := tf (hs_s h) ?b, hs_buf := ?b, hs_bytes := hs_bytes h + of_nat (B - ?r)\<rparr>"
    have len: "length ?d = B - ?r" using True by auto
    have rep: "rep ?h (m @ ?d)" "B dvd length (m @ ?d)"
      using rep_full [OF assms _ len] True len by simp_all
    have "hasher_Write B tf h data = (let (h2, data2) = hasher_chunks B tf ?h (drop (B - ?r) data)
      in if data2 \<noteq> [] then h2\<lparr>hs_buf := memcpy (hs_buf h2) 0 data2,
           hs_bytes := hs_bytes h2 + of_nat (length data2)\<rparr> else h2)"
      using True by (simp add: hasher_Write_def bufsize [OF assms] Let_def)
    then show ?thesis using finish [OF rep, of "drop (B - ?r) data"] by simp
  next
    case False
    show ?thesis
    proof (cases "?r = 0")
      case True
      then have "B dvd length m" by (simp only: mod_eq_0_iff_dvd)
      then show ?thesis using finish [OF assms] True by (simp add: hasher_Write_def bufsize [OF assms] Let_def)
    next
      case False': False
      then have l: "?r + length data < B" using False by simp
      then have "hasher_chunks B tf h data = (h, data)" by (simp add: hasher_chunks.simps)
      then show ?thesis
        using False False' rep_tail [OF assms l] assms
        by (simp add: hasher_Write_def bufsize [OF assms] Let_def)
    qed
  qed
qed

end

text \<open>The padded message: a one bit, zeros up to the end of a block, and the length in bits.\<close>

definition md_pad :: "nat \<Rightarrow> nat \<Rightarrow> (u64 \<Rightarrow> bytes) \<Rightarrow> bytes \<Rightarrow> bytes" where
  "md_pad B lenb enc m = m @ [0x80] @ replicate ((2 * B - 1 - lenb - length m mod B) mod B) 0 @
     enc (push_bit 3 (of_nat (length m)))"

context md_hasher
begin

lemma pad_dvd: "B dvd length (md_pad B lenb enc m)"
proof -
  let ?r = "length m mod B"
  have r: "?r < B" using B_pos by simp
  define x where "x = 2 * B - 1 - lenb - ?r"
  have "length m + (1 + x mod B + lenb) + B * (x div B) = (length m - ?r) + (?r + 1 + lenb + x)"
    by (simp add: add.assoc [symmetric])
  also have "?r + 1 + lenb + x = 2 * B" unfolding x_def using r room by linarith
  finally have e: "length m + (1 + x mod B + lenb) + B * (x div B) = (length m - ?r) + 2 * B" .
  have "B dvd length m + (1 + x mod B + lenb) + B * (x div B)"
    unfolding e by (intro dvd_add dvd_minus_mod) simp
  then have "B dvd length m + (1 + x mod B + lenb)" by (subst (asm) dvd_add_left_iff) simp_all
  then show ?thesis by (simp add: md_pad_def enc_len x_def)
qed

lemma rep_Finalize:
  assumes "rep h m"
  defines "h1 \<equiv> hasher_Write B tf h
    (take (1 + (2 * B - 1 - lenb - unat (hs_bytes h) mod B) mod B) (0x80 # replicate (B - 1) 0))"
  shows "hs_s (hasher_Write B tf h1 (enc (push_bit 3 (hs_bytes h)))) =
    foldl tf init (blocks B (md_pad B lenb enc m))"
proof -
  have "take (1 + (2 * B - 1 - lenb - unat (hs_bytes h) mod B) mod B) (0x80 # replicate (B - 1) 0) =
      [0x80] @ replicate ((2 * B - 1 - lenb - length m mod B) mod B) 0"
    using B_pos bufsize [OF assms(1)]
    by (simp add: min_def) (metis Suc_pred less_Suc_eq_le mod_less_divisor)
  then have "rep h1 (m @ [0x80] @ replicate ((2 * B - 1 - lenb - length m mod B) mod B) 0)"
    using rep_Write [OF assms(1)] by (simp add: h1_def)
  from rep_Write [OF this] have "rep (hasher_Write B tf h1 (enc (push_bit 3 (hs_bytes h)))) (md_pad B lenb enc m)"
    using assms(1) by (simp add: md_pad_def rep_def)
  then show ?thesis by (simp add: rep_def)
qed

lemma rep_Writes: "rep h m \<Longrightarrow> rep (foldl (hasher_Write B tf) h ds) (m @ concat ds)"
  by (induction ds arbitrary: h m) (simp_all, metis append_assoc rep_Write)

end

interpretation h256: md_hasher 64 sha256_Transform sha256_Initialize WriteBE64 8
  by unfold_locales simp_all

interpretation h512: md_hasher 128 sha512_Transform sha512_Initialize "\<lambda>n. replicate 8 0 @ WriteBE64 n" 16
  by unfold_locales simp_all

interpretation h1: md_hasher 64 sha1_Transform sha1_Initialize WriteBE64 8
  by unfold_locales simp_all

interpretation h160: md_hasher 64 ripemd160_Transform ripemd160_Initialize WriteLE64 8
  by unfold_locales simp_all

section \<open>The hash functions\<close>

definition SHA256 :: "bytes \<Rightarrow> bytes" where
  "SHA256 m = concat (map WriteBE32
     (foldl sha256_Transform sha256_Initialize (blocks 64 (md_pad 64 8 WriteBE64 m))))"

definition SHA512 :: "bytes \<Rightarrow> bytes" where
  "SHA512 m = concat (map WriteBE64 (foldl sha512_Transform sha512_Initialize
     (blocks 128 (md_pad 128 16 (\<lambda>n. replicate 8 0 @ WriteBE64 n) m))))"

definition SHA1 :: "bytes \<Rightarrow> bytes" where
  "SHA1 m = concat (map WriteBE32
     (foldl sha1_Transform sha1_Initialize (blocks 64 (md_pad 64 8 WriteBE64 m))))"

definition RIPEMD160 :: "bytes \<Rightarrow> bytes" where
  "RIPEMD160 m = concat (map WriteLE32
     (foldl ripemd160_Transform ripemd160_Initialize (blocks 64 (md_pad 64 8 WriteLE64 m))))"

lemma CSHA256_Finalize_rep: "h256.rep h m \<Longrightarrow> CSHA256_Finalize h = SHA256 m"
  using h256.rep_Finalize [of h m]
  by (simp add: CSHA256_Finalize_def CSHA256_FinalizeNoPadding_def CSHA256_Write_def SHA256_def Let_def)

lemma CSHA512_Finalize_rep: "h512.rep h m \<Longrightarrow> CSHA512_Finalize h = SHA512 m"
  using h512.rep_Finalize [of h m]
  by (simp add: CSHA512_Finalize_def CSHA512_Write_def SHA512_def Let_def)

lemma CSHA1_Finalize_rep: "h1.rep h m \<Longrightarrow> CSHA1_Finalize h = SHA1 m"
  using h1.rep_Finalize [of h m]
  by (simp add: CSHA1_Finalize_def CSHA1_Write_def SHA1_def Let_def)

lemma CRIPEMD160_Finalize_rep: "h160.rep h m \<Longrightarrow> CRIPEMD160_Finalize h = RIPEMD160 m"
  using h160.rep_Finalize [of h m]
  by (simp add: CRIPEMD160_Finalize_def CRIPEMD160_Write_def RIPEMD160_def Let_def)

lemma hashers_new:
  "h256.rep CSHA256_new []" "h512.rep CSHA512_new []" "h1.rep CSHA1_new []" "h160.rep CRIPEMD160_new []"
  by (simp_all add: CSHA256_new_def CSHA512_new_def CSHA1_new_def CRIPEMD160_new_def
      h256.rep_new h512.rep_new h1.rep_new h160.rep_new)

lemma rep_Reset: "h256.rep h m \<Longrightarrow> h256.rep (CSHA256_Reset h) []"
  by (simp add: CSHA256_Reset_def h256.rep_def left_over_def)

lemma CHash256_Finalize_rep: "h256.rep h m \<Longrightarrow> CHash256_Finalize h = SHA256 (SHA256 m)"
  using h256.rep_Write [OF rep_Reset, of h m] CSHA256_Finalize_rep
  by (auto simp: CHash256_Finalize_def CSHA256_Write_def)

lemma CHash160_Finalize_rep: "h256.rep h m \<Longrightarrow> CHash160_Finalize h = RIPEMD160 (SHA256 m)"
  using h160.rep_Write [OF hashers_new(4)] CSHA256_Finalize_rep CRIPEMD160_Finalize_rep
  by (auto simp: CHash160_Finalize_def CRIPEMD160_Write_def)

text \<open>One write to a fresh hasher, then finalize.\<close>

lemma one_shot [simp]:
  "CSHA256_Finalize (CSHA256_Write CSHA256_new m) = SHA256 m"
  "CSHA1_Finalize (CSHA1_Write CSHA1_new m) = SHA1 m"
  "CRIPEMD160_Finalize (CRIPEMD160_Write CRIPEMD160_new m) = RIPEMD160 m"
  "CHash256_Finalize (CSHA256_Write CSHA256_new m) = SHA256 (SHA256 m)"
  "CHash160_Finalize (CSHA256_Write CSHA256_new m) = RIPEMD160 (SHA256 m)"
  using h256.rep_Write [OF hashers_new(1), of m] h1.rep_Write [OF hashers_new(3), of m]
    h160.rep_Write [OF hashers_new(4), of m]
  by (simp_all add: CSHA256_Write_def CSHA1_Write_def CRIPEMD160_Write_def CSHA256_Finalize_rep
      CSHA1_Finalize_rep CRIPEMD160_Finalize_rep CHash256_Finalize_rep CHash160_Finalize_rep)

lemma Hash_SHA256:
  "Hash p1 = SHA256 (SHA256 p1)" "Hash2 p1 p2 = SHA256 (SHA256 (p1 @ p2))"
  "Hash3 p1 p2 p3 = SHA256 (SHA256 (p1 @ p2 @ p3))" "Hash160 p1 = RIPEMD160 (SHA256 p1)"
proof -
  have w: "h256.rep (foldl CSHA256_Write CSHA256_new ds) (concat ds)" for ds
    using h256.rep_Writes [OF hashers_new(1)] by (simp add: CSHA256_Write_def)
  show "Hash p1 = SHA256 (SHA256 p1)" "Hash160 p1 = RIPEMD160 (SHA256 p1)"
    using w [of "[p1]"] by (simp_all add: Hash_def Hash160_def CHash256_Finalize_rep CHash160_Finalize_rep)
  show "Hash2 p1 p2 = SHA256 (SHA256 (p1 @ p2))"
    using w [of "[p1, p2]"] by (simp add: Hash2_def CHash256_Finalize_rep)
  show "Hash3 p1 p2 p3 = SHA256 (SHA256 (p1 @ p2 @ p3))"
    using w [of "[p1, p2, p3]"] by (simp add: Hash3_def CHash256_Finalize_rep)
qed

section \<open>Sizes\<close>

lemma foldl_length:
  "(\<And>s c. length s = n \<Longrightarrow> length (tf s c) = n) \<Longrightarrow> length s = n \<Longrightarrow> length (foldl tf s bs) = n"
  by (induction bs arbitrary: s) simp_all

lemma length_concat_const: "(\<And>x. length (f x) = k) \<Longrightarrow> length (concat (map f xs)) = k * length xs"
  by (induction xs) simp_all

lemma length_sha256_rounds: "length (sha256_rounds chunk i ks w r) = length r"
  by (induction chunk i ks w r rule: sha256_rounds.induct) (simp_all add: sha256_Round_def Let_def)

lemma length_sha512_rounds: "length (sha512_rounds chunk i ks w r) = length r"
  by (induction chunk i ks w r rule: sha512_rounds.induct) (simp_all add: sha512_Round_def Let_def)

lemma length_sha1_rounds: "length (sha1_rounds chunk is w r) = length r"
  by (induction "is" arbitrary: w r) (simp_all add: sha1_Round_def Let_def)

lemmas length_rounds = length_sha256_rounds length_sha512_rounds length_sha1_rounds

lemma length_SHA256: "length (SHA256 m) = 32"
proof -
  have "length (foldl sha256_Transform sha256_Initialize bs) = 8" for bs
    by (rule foldl_length) (simp_all add: sha256_Transform_def length_rounds sha256_Initialize_def)
  then show ?thesis by (simp add: SHA256_def length_concat_const [where k = 4])
qed

lemma length_SHA1: "length (SHA1 m) = 20"
proof -
  have "length (foldl sha1_Transform sha1_Initialize bs) = 5" for bs
    by (rule foldl_length) (simp_all add: sha1_Transform_def length_rounds sha1_Initialize_def)
  then show ?thesis by (simp add: SHA1_def length_concat_const [where k = 4])
qed

lemma length_RIPEMD160: "length (RIPEMD160 m) = 20"
proof -
  have "length (foldl ripemd160_Transform ripemd160_Initialize bs) = 5" for bs
    by (rule foldl_length) (simp_all add: ripemd160_Transform_def Let_def ripemd160_Initialize_def)
  then show ?thesis by (simp add: RIPEMD160_def length_concat_const [where k = 4])
qed

lemma length_Hash [simp]: "length (Hash p) = 32" "length (Hash2 p q) = 32" "length (Hash3 p q r) = 32"
  "length (Hash160 p) = 20"
  by (simp_all add: Hash_SHA256 length_SHA256 length_RIPEMD160)

section \<open>Properties\<close>

text \<open>
  C29: the streaming SHA-256 hasher. However a message is cut into \<open>Write\<close> calls, \<open>Finalize\<close> gives the
  SHA-256 hash of the whole message: the transformation folded over the blocks of the padded message.
\<close>

theorem sha256_streaming:
  "CSHA256_Finalize (foldl CSHA256_Write CSHA256_new ds) = SHA256 (concat ds)"
  using h256.rep_Writes [OF hashers_new(1), of ds] by (simp add: CSHA256_Finalize_rep CSHA256_Write_def)

text \<open>
  the same holds of the streaming hashers for SHA-512, SHA-1 and RIPEMD-160.
\<close>

theorem other_hashes_streaming:
  "CSHA512_Finalize (foldl CSHA512_Write CSHA512_new ds) = SHA512 (concat ds) \<and>
   CSHA1_Finalize (foldl CSHA1_Write CSHA1_new ds) = SHA1 (concat ds) \<and>
   CRIPEMD160_Finalize (foldl CRIPEMD160_Write CRIPEMD160_new ds) = RIPEMD160 (concat ds)"
  using h512.rep_Writes [OF hashers_new(2), of ds] h1.rep_Writes [OF hashers_new(3), of ds]
    h160.rep_Writes [OF hashers_new(4), of ds]
  by (simp add: CSHA512_Finalize_rep CSHA512_Write_def CSHA1_Finalize_rep CSHA1_Write_def
      CRIPEMD160_Finalize_rep CRIPEMD160_Write_def)

text \<open>
  the double hash of several pieces is the double SHA-256 of their concatenation, and the
  160-bit hash is RIPEMD-160 of SHA-256; the results have 32 and 20 bytes.
\<close>

theorem protocol_hashes:
  "Hash p1 = SHA256 (SHA256 p1) \<and> Hash2 p1 p2 = Hash (p1 @ p2) \<and> Hash3 p1 p2 p3 = Hash (p1 @ p2 @ p3) \<and>
   Hash160 p1 = RIPEMD160 (SHA256 p1) \<and> length (Hash p1) = 32 \<and> length (Hash160 p1) = 20"
  by (simp add: Hash_SHA256 length_SHA256 length_RIPEMD160)

end
