(* ===== verification/Transaction.thy ===== *)
theory Transaction
  imports Serialize Script Hashing
begin

text \<open>
  Amounts and fee rates (\<^verbatim>\<open>amount.h\<close>) and transactions (\<^verbatim>\<open>primitives/transaction.h\<close>): the records
  with the fields of the classes, their serialization with the JoinSplit proofs of \<^verbatim>\<open>zcash/Proof.hpp\<close>,
  the cached hash, and the sums of values. An amount is the integer an \<open>int64_t\<close> holds. The
  serialization of every class is a \<open>canonical_codec\<close>, so a transaction has one encoding only.
\<close>

section \<open>Amounts\<close>

type_synonym CAmount = int

definition COIN :: CAmount where "COIN = 100000000"
definition CENT :: CAmount where "CENT = 1000000"
definition MAX_MONEY :: CAmount where "MAX_MONEY = 840000000 * COIN"

definition MoneyRange :: "CAmount \<Rightarrow> bool" where
  "MoneyRange nValue \<longleftrightarrow> nValue \<ge> 0 \<and> nValue \<le> MAX_MONEY"

datatype CFeeRate = CFeeRate (nSatoshisPerK: CAmount)

text \<open>The multiplications and divisions mix \<open>CAmount\<close> with \<open>size_t\<close>, so they are made on unsigned words.\<close>

definition CFeeRate_of :: "CAmount \<Rightarrow> u64 \<Rightarrow> CFeeRate" where
  "CFeeRate_of nFeePaid nSize =
     CFeeRate (if nSize > 0 then sint ((of_int (nFeePaid * 1000) :: u64) div nSize) else 0)"

definition GetFee :: "CFeeRate \<Rightarrow> u64 \<Rightarrow> CAmount" where
  "GetFee r nSize =
     (let nFee = sint ((of_int (nSatoshisPerK r) :: u64) * nSize div 1000)
      in if nFee = 0 \<and> nSatoshisPerK r > 0 then nSatoshisPerK r else nFee)"

definition GetFeePerK :: "CFeeRate \<Rightarrow> CAmount" where
  "GetFeePerK r = GetFee r 1000"

instantiation CFeeRate :: linorder
begin

definition less_eq_CFeeRate :: "CFeeRate \<Rightarrow> CFeeRate \<Rightarrow> bool" where
  "less_eq_CFeeRate a b \<longleftrightarrow> nSatoshisPerK a \<le> nSatoshisPerK b"

definition less_CFeeRate :: "CFeeRate \<Rightarrow> CFeeRate \<Rightarrow> bool" where
  "less_CFeeRate a b \<longleftrightarrow> nSatoshisPerK a < nSatoshisPerK b"

instance
  by standard (auto simp: less_eq_CFeeRate_def less_CFeeRate_def intro: CFeeRate.expand)

end

section \<open>Proofs and JoinSplits\<close>

definition G1_PREFIX_MASK :: u8 where "G1_PREFIX_MASK = 0x02"
definition G2_PREFIX_MASK :: u8 where "G2_PREFIX_MASK = 0x0a"

record CompressedG1 =
  g1_y_lsb :: bool
  g1_x :: bytes

record CompressedG2 =
  g2_y_gt :: bool
  g2_x :: bytes

definition put_CompressedG1 :: "CompressedG1 \<Rightarrow> bytes" where
  "put_CompressedG1 p =
     ser_writedata8 (if g1_y_lsb p then G1_PREFIX_MASK OR 1 else G1_PREFIX_MASK) @ put_blob (g1_x p)"

definition get_CompressedG1 :: "bytes \<Rightarrow> (CompressedG1 \<times> bytes) option" where
  "get_CompressedG1 s = do {
     (leadingByte, s1) \<leftarrow> ser_readdata8 s;
     if leadingByte AND NOT 1 \<noteq> G1_PREFIX_MASK then None
     else do { (x, s2) \<leftarrow> stream_read 32 s1; Some (\<lparr>g1_y_lsb = leadingByte AND 1 \<noteq> 0, g1_x = x\<rparr>, s2) } }"

definition put_CompressedG2 :: "CompressedG2 \<Rightarrow> bytes" where
  "put_CompressedG2 p =
     ser_writedata8 (if g2_y_gt p then G2_PREFIX_MASK OR 1 else G2_PREFIX_MASK) @ put_blob (g2_x p)"

definition get_CompressedG2 :: "bytes \<Rightarrow> (CompressedG2 \<times> bytes) option" where
  "get_CompressedG2 s = do {
     (leadingByte, s1) \<leftarrow> ser_readdata8 s;
     if leadingByte AND NOT 1 \<noteq> G2_PREFIX_MASK then None
     else do { (x, s2) \<leftarrow> stream_read 64 s1; Some (\<lparr>g2_y_gt = leadingByte AND 1 \<noteq> 0, g2_x = x\<rparr>, s2) } }"

record ZCProof =
  g_A :: CompressedG1
  g_A_prime :: CompressedG1
  g_B :: CompressedG2
  g_B_prime :: CompressedG1
  g_C :: CompressedG1
  g_C_prime :: CompressedG1
  g_K :: CompressedG1
  g_H :: CompressedG1

definition put_ZCProof :: "ZCProof \<Rightarrow> bytes" where
  "put_ZCProof p =
     put_CompressedG1 (g_A p) @ put_CompressedG1 (g_A_prime p) @ put_CompressedG2 (g_B p) @
     put_CompressedG1 (g_B_prime p) @ put_CompressedG1 (g_C p) @ put_CompressedG1 (g_C_prime p) @
     put_CompressedG1 (g_K p) @ put_CompressedG1 (g_H p)"

definition get_ZCProof :: "bytes \<Rightarrow> (ZCProof \<times> bytes) option" where
  "get_ZCProof s = do {
     (a, s) \<leftarrow> get_CompressedG1 s; (a', s) \<leftarrow> get_CompressedG1 s; (b, s) \<leftarrow> get_CompressedG2 s;
     (b', s) \<leftarrow> get_CompressedG1 s; (c, s) \<leftarrow> get_CompressedG1 s; (c', s) \<leftarrow> get_CompressedG1 s;
     (k, s) \<leftarrow> get_CompressedG1 s; (h, s) \<leftarrow> get_CompressedG1 s;
     Some (\<lparr>g_A = a, g_A_prime = a', g_B = b, g_B_prime = b', g_C = c, g_C_prime = c', g_K = k, g_H = h\<rparr>, s) }"

definition ZC_NUM_JS_INPUTS :: nat where "ZC_NUM_JS_INPUTS = 2"
definition ZC_NUM_JS_OUTPUTS :: nat where "ZC_NUM_JS_OUTPUTS = 2"
definition ZC_NOTEPLAINTEXT_SIZE :: nat where "ZC_NOTEPLAINTEXT_SIZE = 1 + 8 + 32 + 32 + 512"
definition CLEN :: nat where "CLEN = ZC_NOTEPLAINTEXT_SIZE + 16"

record JSDescription =
  vpub_old :: CAmount
  vpub_new :: CAmount
  anchor :: uint256
  nullifiers :: "uint256 list"
  commitments :: "uint256 list"
  ephemeralKey :: uint256
  ciphertexts :: "bytes list"
  randomSeed :: uint256
  macs :: "uint256 list"
  proof_js :: ZCProof

definition put_JSDescription :: "JSDescription \<Rightarrow> bytes" where
  "put_JSDescription j =
     put_int64 (vpub_old j) @ put_int64 (vpub_new j) @ put_blob (anchor j) @
     put_array put_blob (nullifiers j) @ put_array put_blob (commitments j) @
     put_blob (ephemeralKey j) @ put_blob (randomSeed j) @ put_array put_blob (macs j) @
     put_ZCProof (proof_js j) @ put_array put_blob (ciphertexts j)"

definition get_JSDescription :: "bytes \<Rightarrow> (JSDescription \<times> bytes) option" where
  "get_JSDescription s = do {
     (old, s) \<leftarrow> get_int64 s; (new, s) \<leftarrow> get_int64 s; (anc, s) \<leftarrow> stream_read 32 s;
     (nul, s) \<leftarrow> get_array (stream_read 32) ZC_NUM_JS_INPUTS s;
     (com, s) \<leftarrow> get_array (stream_read 32) ZC_NUM_JS_OUTPUTS s;
     (epk, s) \<leftarrow> stream_read 32 s; (seed, s) \<leftarrow> stream_read 32 s;
     (mac, s) \<leftarrow> get_array (stream_read 32) ZC_NUM_JS_INPUTS s;
     (pr, s) \<leftarrow> get_ZCProof s; (ct, s) \<leftarrow> get_array (stream_read CLEN) ZC_NUM_JS_OUTPUTS s;
     Some (\<lparr>vpub_old = old, vpub_new = new, anchor = anc, nullifiers = nul, commitments = com,
       ephemeralKey = epk, ciphertexts = ct, randomSeed = seed, macs = mac, proof_js = pr\<rparr>, s) }"

section \<open>Inputs and outputs\<close>

record COutPoint =
  out_hash :: uint256
  out_n :: u32

definition COutPoint_null :: COutPoint where
  "COutPoint_null = \<lparr>out_hash = uint256_null, out_n = - 1\<rparr>"

definition COutPoint_IsNull :: "COutPoint \<Rightarrow> bool" where
  "COutPoint_IsNull p \<longleftrightarrow> IsNull (out_hash p) \<and> out_n p = - 1"

definition COutPoint_less :: "COutPoint \<Rightarrow> COutPoint \<Rightarrow> bool" where
  "COutPoint_less a b \<longleftrightarrow>
     memcmp_less (out_hash a) (out_hash b) \<or> (out_hash a = out_hash b \<and> out_n a < out_n b)"

definition put_COutPoint :: "COutPoint \<Rightarrow> bytes" where
  "put_COutPoint p = put_blob (out_hash p) @ ser_writedata32 (out_n p)"

definition get_COutPoint :: "bytes \<Rightarrow> (COutPoint \<times> bytes) option" where
  "get_COutPoint s = do { (h, s) \<leftarrow> stream_read 32 s; (n, s) \<leftarrow> ser_readdata32 s; Some (\<lparr>out_hash = h, out_n = n\<rparr>, s) }"

record CTxIn =
  prevout :: COutPoint
  scriptSig :: bytes
  nSequence :: u32

definition CTxIn_IsFinal :: "CTxIn \<Rightarrow> bool" where
  "CTxIn_IsFinal txin \<longleftrightarrow> nSequence txin = - 1"

definition put_CTxIn :: "CTxIn \<Rightarrow> bytes" where
  "put_CTxIn i = put_COutPoint (prevout i) @ put_byte_vector (scriptSig i) @ ser_writedata32 (nSequence i)"

definition get_CTxIn :: "bytes \<Rightarrow> (CTxIn \<times> bytes) option" where
  "get_CTxIn s = do {
     (p, s) \<leftarrow> get_COutPoint s; (v, s) \<leftarrow> get_byte_vector s; (n, s) \<leftarrow> ser_readdata32 s;
     Some (\<lparr>prevout = p, scriptSig = v, nSequence = n\<rparr>, s) }"

record CTxOut =
  nValue :: CAmount
  scriptPubKey :: bytes

definition CTxOut_null :: CTxOut where
  "CTxOut_null = \<lparr>nValue = - 1, scriptPubKey = []\<rparr>"

definition CTxOut_IsNull :: "CTxOut \<Rightarrow> bool" where
  "CTxOut_IsNull o' \<longleftrightarrow> nValue o' = - 1"

definition put_CTxOut :: "CTxOut \<Rightarrow> bytes" where
  "put_CTxOut o' = put_int64 (nValue o') @ put_byte_vector (scriptPubKey o')"

definition get_CTxOut :: "bytes \<Rightarrow> (CTxOut \<times> bytes) option" where
  "get_CTxOut s = do { (v, s) \<leftarrow> get_int64 s; (p, s) \<leftarrow> get_byte_vector s; Some (\<lparr>nValue = v, scriptPubKey = p\<rparr>, s) }"

definition GetDustThreshold :: "CTxOut \<Rightarrow> CFeeRate \<Rightarrow> CAmount" where
  "GetDustThreshold o' minRelayTxFee =
     (if IsUnspendable (scriptPubKey o') then 0
      else let nSize = of_nat (length (put_CTxOut o')) + 148 in 3 * GetFee minRelayTxFee nSize)"

definition IsDust :: "CTxOut \<Rightarrow> CFeeRate \<Rightarrow> bool" where
  "IsDust o' minRelayTxFee \<longleftrightarrow> nValue o' < GetDustThreshold o' minRelayTxFee"

section \<open>Transactions\<close>

definition SerializeHash :: "bytes \<Rightarrow> uint256" where
  "SerializeHash ser = CHash256_Finalize (CSHA256_Write CSHA256_new ser)"

record CMutableTransaction =
  nVersion :: int
  vin :: "CTxIn list"
  vout :: "CTxOut list"
  nLockTime :: u32
  vjoinsplit :: "JSDescription list"
  joinSplitPubKey :: uint256
  joinSplitSig :: bytes

text \<open>\<open>CTransaction\<close> has the same fields and the cached hash.\<close>

record CTransaction = CMutableTransaction +
  tx_hash :: uint256

definition put_transaction :: "'a CMutableTransaction_scheme \<Rightarrow> bytes" where
  "put_transaction tx =
     put_int32 (nVersion tx) @ put_vector put_CTxIn (vin tx) @ put_vector put_CTxOut (vout tx) @
     ser_writedata32 (nLockTime tx) @
     (if nVersion tx \<ge> 2 then
        put_vector put_JSDescription (vjoinsplit tx) @
        (if length (vjoinsplit tx) > 0 then put_blob (joinSplitPubKey tx) @ put_blob (joinSplitSig tx) else [])
      else [])"

definition get_transaction :: "bytes \<Rightarrow> (CMutableTransaction \<times> bytes) option" where
  "get_transaction s = do {
     (ver, s) \<leftarrow> get_int32 s;
     (ins, s) \<leftarrow> get_vector get_CTxIn s; (outs, s) \<leftarrow> get_vector get_CTxOut s; (lock, s) \<leftarrow> ser_readdata32 s;
     ((js, key, sig), s) \<leftarrow>
       (if ver \<ge> 2 then do {
          (js, s) \<leftarrow> get_vector get_JSDescription s;
          if length js > 0 then do {
            (key, s) \<leftarrow> stream_read 32 s; (sig, s) \<leftarrow> stream_read 64 s; Some ((js, key, sig), s) }
          else Some ((js, uint256_null, replicate 64 0), s) }
        else Some (([], uint256_null, replicate 64 0), s));
     Some (\<lparr>nVersion = ver, vin = ins, vout = outs, nLockTime = lock, vjoinsplit = js,
       joinSplitPubKey = key, joinSplitSig = sig\<rparr>, s) }"

definition UpdateHash :: "CTransaction \<Rightarrow> CTransaction" where
  "UpdateHash tx = tx\<lparr>tx_hash := SerializeHash (put_transaction tx)\<rparr>"

definition CTransaction_of :: "CMutableTransaction \<Rightarrow> CTransaction" where
  "CTransaction_of tx =
     UpdateHash (CMutableTransaction.extend tx (CTransaction.fields uint256_null))"

definition CMutableTransaction_of :: "CTransaction \<Rightarrow> CMutableTransaction" where
  "CMutableTransaction_of tx = CMutableTransaction.truncate tx"

definition get_CTransaction :: "bytes \<Rightarrow> (CTransaction \<times> bytes) option" where
  "get_CTransaction s = do { (tx, s) \<leftarrow> get_transaction s; Some (CTransaction_of tx, s) }"

definition CMutableTransaction_GetHash :: "CMutableTransaction \<Rightarrow> uint256" where
  "CMutableTransaction_GetHash tx = SerializeHash (put_transaction tx)"

definition CTransaction_IsNull :: "'a CMutableTransaction_scheme \<Rightarrow> bool" where
  "CTransaction_IsNull tx \<longleftrightarrow> vin tx = [] \<and> vout tx = []"

definition IsCoinBase :: "'a CMutableTransaction_scheme \<Rightarrow> bool" where
  "IsCoinBase tx \<longleftrightarrow> length (vin tx) = 1 \<and> COutPoint_IsNull (prevout (vin tx ! 0))"

text \<open>The loops that add up values; \<open>None\<close> is the exception they throw.\<close>

fun sum_values :: "CAmount \<Rightarrow> CAmount list \<Rightarrow> CAmount option" where
  "sum_values acc [] = Some acc"
| "sum_values acc (v # vs) =
     (let acc' = acc + v
      in if \<not> MoneyRange v \<or> \<not> MoneyRange acc' then None else sum_values acc' vs)"

definition GetValueOut :: "'a CMutableTransaction_scheme \<Rightarrow> CAmount option" where
  "GetValueOut tx = do {
     nValueOut \<leftarrow> sum_values 0 (map nValue (vout tx));
     sum_values nValueOut (map vpub_old (vjoinsplit tx)) }"

definition GetJoinSplitValueIn :: "'a CMutableTransaction_scheme \<Rightarrow> CAmount option" where
  "GetJoinSplitValueIn tx = sum_values 0 (map vpub_new (vjoinsplit tx))"

definition CalculateModifiedSize :: "'a CMutableTransaction_scheme \<Rightarrow> u32 \<Rightarrow> u32" where
  "CalculateModifiedSize tx nTxSize =
     (let size = (if nTxSize = 0 then of_nat (length (put_transaction tx)) else nTxSize)
      in foldl (\<lambda>nTxSize txin.
           let offset = 41 + min 110 (of_nat (length (scriptSig txin)))
           in if nTxSize > offset then nTxSize - offset else nTxSize) size (vin tx))"

section \<open>One encoding per transaction\<close>

lemma prefix_byte:
  fixes b :: u8
  shows "b AND - 2 = 0x02 \<longleftrightarrow> b = 0x02 \<or> b = 0x03" "b AND - 2 = 0x0a \<longleftrightarrow> b = 0x0a \<or> b = 0x0b"
proof -
  have "b = (b AND NOT 1) OR (b AND 1)" by (rule bit_word_eqI) (auto simp: bit_simps)
  moreover have "b AND 1 = 0 \<or> b AND 1 = 1" by (simp add: and_one_eq mod_2_eq_odd)
  moreover have "NOT 1 = (- 2 :: u8)" by simp
  ultimately show "b AND - 2 = 0x02 \<longleftrightarrow> b = 0x02 \<or> b = 0x03" "b AND - 2 = 0x0a \<longleftrightarrow> b = 0x0a \<or> b = 0x0b"
    by auto
qed

interpretation cg1: canonical_codec put_CompressedG1 get_CompressedG1 "\<lambda>p. length (g1_x p) = 32"
proof
  fix p :: CompressedG1 and s assume "length (g1_x p) = 32"
  then show "get_CompressedG1 (put_CompressedG1 p @ s) = Some (p, s)"
    by (auto simp: put_CompressedG1_def get_CompressedG1_def G1_PREFIX_MASK_def c8.get_put cblob.get_put)
next
  fix s p s' assume "get_CompressedG1 s = Some (p, s')"
  then obtain b where "b AND NOT 1 = G1_PREFIX_MASK" "s = b # g1_x p @ s'" "length (g1_x p) = 32"
    "g1_y_lsb p \<longleftrightarrow> b AND 1 \<noteq> 0"
    by (auto simp: get_CompressedG1_def bind_eq_Some_conv ser_readdata8_iff stream_read_iff split: if_splits)
  then show "length (g1_x p) = 32 \<and> s = put_CompressedG1 p @ s'"
    by (auto simp: put_CompressedG1_def G1_PREFIX_MASK_def prefix_byte ser_writedata8_def put_blob_def)
qed

interpretation cg2: canonical_codec put_CompressedG2 get_CompressedG2 "\<lambda>p. length (g2_x p) = 64"
proof
  fix p :: CompressedG2 and s assume "length (g2_x p) = 64"
  then show "get_CompressedG2 (put_CompressedG2 p @ s) = Some (p, s)"
    by (auto simp: put_CompressedG2_def get_CompressedG2_def G2_PREFIX_MASK_def c8.get_put cblob.get_put)
next
  fix s p s' assume "get_CompressedG2 s = Some (p, s')"
  then obtain b where "b AND NOT 1 = G2_PREFIX_MASK" "s = b # g2_x p @ s'" "length (g2_x p) = 64"
    "g2_y_gt p \<longleftrightarrow> b AND 1 \<noteq> 0"
    by (auto simp: get_CompressedG2_def bind_eq_Some_conv ser_readdata8_iff stream_read_iff split: if_splits)
  then show "length (g2_x p) = 64 \<and> s = put_CompressedG2 p @ s'"
    by (auto simp: put_CompressedG2_def G2_PREFIX_MASK_def prefix_byte ser_writedata8_def put_blob_def)
qed

definition valid_proof :: "ZCProof \<Rightarrow> bool" where
  "valid_proof p \<longleftrightarrow> length (g2_x (g_B p)) = 64 \<and>
     (\<forall>q \<in> {g_A p, g_A_prime p, g_B_prime p, g_C p, g_C_prime p, g_K p, g_H p}. length (g1_x q) = 32)"

interpretation czcp: canonical_codec put_ZCProof get_ZCProof valid_proof
  by unfold_locales
     (auto simp: put_ZCProof_def get_ZCProof_def valid_proof_def cg1.get_put cg2.get_put cg1.get_iff cg2.get_iff
       bind_eq_Some_conv)

interpretation chashes: canonical_codec "put_array put_blob" "get_array (stream_read m) n"
    "valid_array n (\<lambda>v. length v = m)" for m n
  by (rule cblob.array_codec)

definition valid_joinsplit :: "JSDescription \<Rightarrow> bool" where
  "valid_joinsplit j \<longleftrightarrow> int64_range (vpub_old j) \<and> int64_range (vpub_new j) \<and> length (anchor j) = 32 \<and>
     valid_array ZC_NUM_JS_INPUTS (\<lambda>v. length v = 32) (nullifiers j) \<and>
     valid_array ZC_NUM_JS_OUTPUTS (\<lambda>v. length v = 32) (commitments j) \<and>
     length (ephemeralKey j) = 32 \<and> length (randomSeed j) = 32 \<and>
     valid_array ZC_NUM_JS_INPUTS (\<lambda>v. length v = 32) (macs j) \<and> valid_proof (proof_js j) \<and>
     valid_array ZC_NUM_JS_OUTPUTS (\<lambda>v. length v = CLEN) (ciphertexts j)"

interpretation cjs: canonical_codec put_JSDescription get_JSDescription valid_joinsplit
  by unfold_locales
     (auto simp: put_JSDescription_def get_JSDescription_def valid_joinsplit_def ci64.get_put cblob.get_put
       chashes.get_put czcp.get_put ci64.get_iff cblob.get_iff chashes.get_iff czcp.get_iff bind_eq_Some_conv)

interpretation copt: canonical_codec put_COutPoint get_COutPoint "\<lambda>p. length (out_hash p) = 32"
  by unfold_locales
     (auto simp: put_COutPoint_def get_COutPoint_def cblob.get_put c32.get_put cblob.get_iff c32.get_iff
       bind_eq_Some_conv)

definition valid_txin :: "CTxIn \<Rightarrow> bool" where
  "valid_txin i \<longleftrightarrow> length (out_hash (prevout i)) = 32 \<and> valid_bytes (scriptSig i)"

interpretation ctxin: canonical_codec put_CTxIn get_CTxIn valid_txin
  by unfold_locales
     (auto simp: put_CTxIn_def get_CTxIn_def valid_txin_def copt.get_put cbytes.get_put c32.get_put
       copt.get_iff cbytes.get_iff c32.get_iff bind_eq_Some_conv)

definition valid_txout :: "CTxOut \<Rightarrow> bool" where
  "valid_txout o' \<longleftrightarrow> int64_range (nValue o') \<and> valid_bytes (scriptPubKey o')"

interpretation ctxout: canonical_codec put_CTxOut get_CTxOut valid_txout
  by unfold_locales
     (auto simp: put_CTxOut_def get_CTxOut_def valid_txout_def ci64.get_put cbytes.get_put
       ci64.get_iff cbytes.get_iff bind_eq_Some_conv)

interpretation cvin: canonical_codec "put_vector put_CTxIn" "get_vector get_CTxIn" "valid_vector valid_txin"
  by (rule ctxin.vector_codec)

interpretation cvout: canonical_codec "put_vector put_CTxOut" "get_vector get_CTxOut" "valid_vector valid_txout"
  by (rule ctxout.vector_codec)

interpretation cvjs: canonical_codec "put_vector put_JSDescription" "get_vector get_JSDescription"
    "valid_vector valid_joinsplit"
  by (rule cjs.vector_codec)

text \<open>
  A transaction whose fields fit their types; version 1 has no JoinSplits, and without JoinSplits
  their key and signature are null.
\<close>

definition valid_transaction :: "'a CMutableTransaction_scheme \<Rightarrow> bool" where
  "valid_transaction tx \<longleftrightarrow> int32_range (nVersion tx) \<and> valid_vector valid_txin (vin tx) \<and>
     valid_vector valid_txout (vout tx) \<and> valid_vector valid_joinsplit (vjoinsplit tx) \<and>
     (if vjoinsplit tx = [] then joinSplitPubKey tx = uint256_null \<and> joinSplitSig tx = replicate 64 0
      else nVersion tx \<ge> 2 \<and> length (joinSplitPubKey tx) = 32 \<and> length (joinSplitSig tx) = 64)"

lemmas tx_parts_put = ci32.get_put cvin.get_put cvout.get_put cvjs.get_put c32.get_put cblob.get_put
lemmas tx_parts_iff = ci32.get_iff cvin.get_iff cvout.get_iff cvjs.get_iff c32.get_iff cblob.get_iff

interpretation ctx: canonical_codec put_transaction get_transaction valid_transaction
proof
  fix tx s assume "valid_transaction (tx :: CMutableTransaction)"
  then show "get_transaction (put_transaction tx @ s) = Some (tx, s)"
    by (cases tx) (auto simp: put_transaction_def get_transaction_def valid_transaction_def tx_parts_put)
next
  fix s tx s' assume "get_transaction s = Some (tx, s')"
  then show "valid_transaction tx \<and> s = put_transaction tx @ s'"
    by (auto simp: put_transaction_def get_transaction_def valid_transaction_def tx_parts_iff valid_vector_def
        bind_eq_Some_conv split: if_splits)
qed

section \<open>Values and fees\<close>

lemma sum_values_eq:
  assumes "MoneyRange acc"
  shows "sum_values acc vs =
    (if (\<forall>v \<in> set vs. MoneyRange v) \<and> acc + sum_list vs \<le> MAX_MONEY then Some (acc + sum_list vs) else None)"
  using assms
proof (induction vs arbitrary: acc)
  case (Cons v vs)
  show ?case
  proof (cases "MoneyRange v \<and> MoneyRange (acc + v)")
    case True
    then show ?thesis using Cons.IH [of "acc + v"] by (simp add: Let_def add.assoc)
  next
    case False
    have "0 \<le> sum_list vs" if "\<forall>x \<in> set vs. MoneyRange x"
      using that by (intro sum_list_nonneg) (auto simp: MoneyRange_def)
    then show ?thesis using False Cons.prems by (auto simp: Let_def MoneyRange_def)
  qed
qed (simp add: MoneyRange_def)

definition tx_values :: "'a CMutableTransaction_scheme \<Rightarrow> CAmount list" where
  "tx_values tx = map nValue (vout tx) @ map vpub_old (vjoinsplit tx)"

lemma GetValueOut_eq:
  "GetValueOut tx =
    (if (\<forall>v \<in> set (tx_values tx). MoneyRange v) \<and> sum_list (tx_values tx) \<le> MAX_MONEY
     then Some (sum_list (tx_values tx)) else None)"
proof -
  let ?o = "map nValue (vout tx)" and ?j = "map vpub_old (vjoinsplit tx)"
  have nn: "0 \<le> sum_list xs" if "\<forall>v \<in> set xs. MoneyRange v" for xs
    using that by (intro sum_list_nonneg) (auto simp: MoneyRange_def)
  have z: "MoneyRange 0" by (simp add: MoneyRange_def MAX_MONEY_def COIN_def)
  have "GetValueOut tx = (case sum_values 0 ?o of None \<Rightarrow> None | Some v \<Rightarrow> sum_values v ?j)"
    by (simp add: GetValueOut_def split: option.split)
  also have "\<dots> = (if (\<forall>v \<in> set (?o @ ?j). MoneyRange v) \<and> sum_list (?o @ ?j) \<le> MAX_MONEY
      then Some (sum_list (?o @ ?j)) else None)"
  proof (cases "(\<forall>v \<in> set ?o. MoneyRange v) \<and> sum_list ?o \<le> MAX_MONEY")
    case True
    then have m: "MoneyRange (sum_list ?o)" using nn [of ?o] by (simp add: MoneyRange_def)
    have "sum_values 0 ?o = Some (sum_list ?o)" using True by (subst sum_values_eq [OF z]) simp
    then show ?thesis using True by (simp add: sum_values_eq [OF m] ball_Un del: set_map)
  next
    case False
    have "sum_values 0 ?o = None" using False by (subst sum_values_eq [OF z]) simp
    moreover have "\<not> ((\<forall>v \<in> set (?o @ ?j). MoneyRange v) \<and> sum_list (?o @ ?j) \<le> MAX_MONEY)"
      using False nn [of ?j] by auto
    ultimately show ?thesis by simp
  qed
  finally show ?thesis by (simp add: tx_values_def)
qed

lemma GetFee_eq:
  assumes "0 \<le> nSatoshisPerK r" "nSatoshisPerK r * int (unat n) < 2 ^ 63"
  shows "GetFee r n = (let f = nSatoshisPerK r * int (unat n) div 1000
    in if f = 0 \<and> nSatoshisPerK r > 0 then nSatoshisPerK r else f)"
proof -
  obtain k where k: "nSatoshisPerK r = int k" using assms(1) nonneg_int_cases by blast
  have m: "k * unat n < 2 ^ 63" using assms(2) k by (metis of_nat_less_iff of_nat_mult of_nat_numeral of_nat_power)
  have "(of_nat k :: u64) * n = of_nat (k * unat n)" by simp
  then have "unat ((of_nat k :: u64) * n) = k * unat n" using m by (simp add: unat_of_nat del: of_nat_mult)
  then have "unat ((of_nat k :: u64) * n div 1000) = k * unat n div 1000" by (simp add: unat_div)
  moreover have "k * unat n div 1000 < 2 ^ 63" using m by (meson div_le_dividend le_less_trans)
  ultimately have "sint ((of_nat k :: u64) * n div 1000) = int (k * unat n div 1000)"
    by (simp add: sint_small)
  then show ?thesis by (simp add: GetFee_def k Let_def zdiv_int)
qed

lemma SerializeHash_eq: "SerializeHash ser = SHA256 (SHA256 ser)"
  by (simp add: SerializeHash_def)

lemma put_transaction_CTransaction_of [simp]:
  "put_transaction (UpdateHash t) = put_transaction t" "put_transaction (CTransaction_of tx) = put_transaction tx"
  by (simp_all add: put_transaction_def UpdateHash_def CTransaction_of_def CMutableTransaction.defs CTransaction.defs)

lemma CTransaction_of_fields [simp]:
  "nVersion (CTransaction_of tx) = nVersion tx" "vin (CTransaction_of tx) = vin tx"
  "vout (CTransaction_of tx) = vout tx" "nLockTime (CTransaction_of tx) = nLockTime tx"
  "vjoinsplit (CTransaction_of tx) = vjoinsplit tx" "joinSplitPubKey (CTransaction_of tx) = joinSplitPubKey tx"
  "joinSplitSig (CTransaction_of tx) = joinSplitSig tx"
  "tx_hash (CTransaction_of tx) = SHA256 (SHA256 (put_transaction tx))"
  by (simp_all add: CTransaction_of_def UpdateHash_def CMutableTransaction.defs CTransaction.defs SerializeHash_eq
      put_transaction_def)

lemma CMutableTransaction_of_CTransaction_of [simp]: "CMutableTransaction_of (CTransaction_of tx) = tx"
  by (simp add: CMutableTransaction_of_def CMutableTransaction.defs)

definition sample_tx :: CMutableTransaction where
  "sample_tx = \<lparr>nVersion = 1, vin = [\<lparr>prevout = COutPoint_null, scriptSig = [0x51], nSequence = - 1\<rparr>],
     vout = [\<lparr>nValue = 50 * 100000000, scriptPubKey = [0x51]\<rparr>], nLockTime = 0, vjoinsplit = [],
     joinSplitPubKey = uint256_null, joinSplitSig = replicate 64 0\<rparr>"

lemma sample_tx_valid: "valid_transaction sample_tx"
  by (simp add: valid_transaction_def sample_tx_def valid_vector_def valid_txin_def valid_txout_def
      COutPoint_null_def uint256_null_def valid_bytes_def int32_range_def int64_range_def MAX_SIZE_def)

section \<open>Properties\<close>

text \<open>
  C31: A transaction has exactly one encoding, JoinSplits and proofs included: reading accepts a
  byte sequence as a transaction if and only if it starts with the bytes written for that
  transaction, whose fields then are within their types.
\<close>

theorem transaction_encoding:
  "get_transaction s = Some (tx, s') \<longleftrightarrow> valid_transaction tx \<and> s = put_transaction tx @ s'"
  by (rule ctx.get_iff)



text \<open>
  \<open>GetValueOut\<close> returns the exact sum of the outputs and of the values entering JoinSplits when
  each of them and their sum is within the money range, and throws in every other case; checking
  the running sum at each step leaves no way for the addition to overflow unnoticed.
\<close>

theorem value_out:
  "GetValueOut tx =
     (if (\<forall>v \<in> set (map nValue (vout tx) @ map vpub_old (vjoinsplit tx)). 0 \<le> v \<and> v \<le> MAX_MONEY) \<and>
         sum_list (map nValue (vout tx)) + sum_list (map vpub_old (vjoinsplit tx)) \<le> MAX_MONEY
      then Some (sum_list (map nValue (vout tx)) + sum_list (map vpub_old (vjoinsplit tx))) else None)"
  using GetValueOut_eq [of tx] by (simp add: tx_values_def MoneyRange_def)

end
