(* ===== verification/Interpreter.thy ===== *)
theory Interpreter
  imports Script Hashing "HOL-Library.Sublist"
begin

text \<open>
  The script interpreter: \<^verbatim>\<open>src/script/interpreter.cpp\<close> with the error codes of
  \<^verbatim>\<open>src/script/script_error.h\<close>. A stack is a list whose head is the top, \<^verbatim>\<open>stack.back()\<close>. Evaluation gives
  \<open>Inl\<close> the error the code leaves in \<^verbatim>\<open>serror\<close>, or \<open>Inr\<close> the final state; the exceptions the code catches
  become \<open>SCRIPT_ERR_UNKNOWN_ERROR\<close>, as there. The signature checker is a record of the two virtual
  methods, and \<open>CheckLowS\<close>, which the sources take from libsecp256k1, is an argument.
\<close>

section \<open>Errors and flags\<close>

datatype ScriptError =
    SCRIPT_ERR_OK | SCRIPT_ERR_UNKNOWN_ERROR | SCRIPT_ERR_EVAL_FALSE | SCRIPT_ERR_OP_RETURN
  | SCRIPT_ERR_SCRIPT_SIZE | SCRIPT_ERR_PUSH_SIZE | SCRIPT_ERR_OP_COUNT | SCRIPT_ERR_STACK_SIZE
  | SCRIPT_ERR_SIG_COUNT | SCRIPT_ERR_PUBKEY_COUNT
  | SCRIPT_ERR_VERIFY | SCRIPT_ERR_EQUALVERIFY | SCRIPT_ERR_CHECKMULTISIGVERIFY
  | SCRIPT_ERR_CHECKSIGVERIFY | SCRIPT_ERR_NUMEQUALVERIFY
  | SCRIPT_ERR_BAD_OPCODE | SCRIPT_ERR_DISABLED_OPCODE | SCRIPT_ERR_INVALID_STACK_OPERATION
  | SCRIPT_ERR_INVALID_ALTSTACK_OPERATION | SCRIPT_ERR_UNBALANCED_CONDITIONAL
  | SCRIPT_ERR_NEGATIVE_LOCKTIME | SCRIPT_ERR_UNSATISFIED_LOCKTIME
  | SCRIPT_ERR_SIG_HASHTYPE | SCRIPT_ERR_SIG_DER | SCRIPT_ERR_MINIMALDATA | SCRIPT_ERR_SIG_PUSHONLY
  | SCRIPT_ERR_SIG_HIGH_S | SCRIPT_ERR_SIG_NULLDUMMY | SCRIPT_ERR_PUBKEYTYPE | SCRIPT_ERR_CLEANSTACK
  | SCRIPT_ERR_DISCOURAGE_UPGRADABLE_NOPS | SCRIPT_ERR_ERROR_COUNT

fun ScriptErrorString :: "ScriptError \<Rightarrow> string" where
  "ScriptErrorString SCRIPT_ERR_OK = ''No error''"
| "ScriptErrorString SCRIPT_ERR_EVAL_FALSE =
     ''Script evaluated without error but finished with a false/empty top stack element''"
| "ScriptErrorString SCRIPT_ERR_VERIFY = ''Script failed an OP_VERIFY operation''"
| "ScriptErrorString SCRIPT_ERR_EQUALVERIFY = ''Script failed an OP_EQUALVERIFY operation''"
| "ScriptErrorString SCRIPT_ERR_CHECKMULTISIGVERIFY = ''Script failed an OP_CHECKMULTISIGVERIFY operation''"
| "ScriptErrorString SCRIPT_ERR_CHECKSIGVERIFY = ''Script failed an OP_CHECKSIGVERIFY operation''"
| "ScriptErrorString SCRIPT_ERR_NUMEQUALVERIFY = ''Script failed an OP_NUMEQUALVERIFY operation''"
| "ScriptErrorString SCRIPT_ERR_SCRIPT_SIZE = ''Script is too big''"
| "ScriptErrorString SCRIPT_ERR_PUSH_SIZE = ''Push value size limit exceeded''"
| "ScriptErrorString SCRIPT_ERR_OP_COUNT = ''Operation limit exceeded''"
| "ScriptErrorString SCRIPT_ERR_STACK_SIZE = ''Stack size limit exceeded''"
| "ScriptErrorString SCRIPT_ERR_SIG_COUNT = ''Signature count negative or greater than pubkey count''"
| "ScriptErrorString SCRIPT_ERR_PUBKEY_COUNT = ''Pubkey count negative or limit exceeded''"
| "ScriptErrorString SCRIPT_ERR_BAD_OPCODE = ''Opcode missing or not understood''"
| "ScriptErrorString SCRIPT_ERR_DISABLED_OPCODE = ''Attempted to use a disabled opcode''"
| "ScriptErrorString SCRIPT_ERR_INVALID_STACK_OPERATION = ''Operation not valid with the current stack size''"
| "ScriptErrorString SCRIPT_ERR_INVALID_ALTSTACK_OPERATION = ''Operation not valid with the current altstack size''"
| "ScriptErrorString SCRIPT_ERR_OP_RETURN = ''OP_RETURN was encountered''"
| "ScriptErrorString SCRIPT_ERR_UNBALANCED_CONDITIONAL = ''Invalid OP_IF construction''"
| "ScriptErrorString SCRIPT_ERR_NEGATIVE_LOCKTIME = ''Negative locktime''"
| "ScriptErrorString SCRIPT_ERR_UNSATISFIED_LOCKTIME = ''Locktime requirement not satisfied''"
| "ScriptErrorString SCRIPT_ERR_SIG_HASHTYPE = ''Signature hash type missing or not understood''"
| "ScriptErrorString SCRIPT_ERR_SIG_DER = ''Non-canonical DER signature''"
| "ScriptErrorString SCRIPT_ERR_MINIMALDATA = ''Data push larger than necessary''"
| "ScriptErrorString SCRIPT_ERR_SIG_PUSHONLY = ''Only non-push operators allowed in signatures''"
| "ScriptErrorString SCRIPT_ERR_SIG_HIGH_S = ''Non-canonical signature: S value is unnecessarily high''"
| "ScriptErrorString SCRIPT_ERR_SIG_NULLDUMMY = ''Dummy CHECKMULTISIG argument must be zero''"
| "ScriptErrorString SCRIPT_ERR_DISCOURAGE_UPGRADABLE_NOPS = ''NOPx reserved for soft-fork upgrades''"
| "ScriptErrorString SCRIPT_ERR_PUBKEYTYPE = ''Public key is neither compressed or uncompressed''"
| "ScriptErrorString _ = ''unknown error''"

abbreviation (input) SIGHASH_ALL :: u8 where "SIGHASH_ALL \<equiv> 1"
abbreviation (input) SIGHASH_NONE :: u8 where "SIGHASH_NONE \<equiv> 2"
abbreviation (input) SIGHASH_SINGLE :: u8 where "SIGHASH_SINGLE \<equiv> 3"
abbreviation (input) SIGHASH_ANYONECANPAY :: u8 where "SIGHASH_ANYONECANPAY \<equiv> 0x80"

abbreviation (input) SCRIPT_VERIFY_NONE :: u32 where "SCRIPT_VERIFY_NONE \<equiv> 0"
abbreviation (input) SCRIPT_VERIFY_P2SH :: u32 where "SCRIPT_VERIFY_P2SH \<equiv> 0x1"
abbreviation (input) SCRIPT_VERIFY_STRICTENC :: u32 where "SCRIPT_VERIFY_STRICTENC \<equiv> 0x2"
abbreviation (input) SCRIPT_VERIFY_LOW_S :: u32 where "SCRIPT_VERIFY_LOW_S \<equiv> 0x8"
abbreviation (input) SCRIPT_VERIFY_NULLDUMMY :: u32 where "SCRIPT_VERIFY_NULLDUMMY \<equiv> 0x10"
abbreviation (input) SCRIPT_VERIFY_SIGPUSHONLY :: u32 where "SCRIPT_VERIFY_SIGPUSHONLY \<equiv> 0x20"
abbreviation (input) SCRIPT_VERIFY_MINIMALDATA :: u32 where "SCRIPT_VERIFY_MINIMALDATA \<equiv> 0x40"
abbreviation (input) SCRIPT_VERIFY_DISCOURAGE_UPGRADABLE_NOPS :: u32 where
  "SCRIPT_VERIFY_DISCOURAGE_UPGRADABLE_NOPS \<equiv> 0x80"
abbreviation (input) SCRIPT_VERIFY_CLEANSTACK :: u32 where "SCRIPT_VERIFY_CLEANSTACK \<equiv> 0x100"
abbreviation (input) SCRIPT_VERIFY_CHECKLOCKTIMEVERIFY :: u32 where
  "SCRIPT_VERIFY_CHECKLOCKTIMEVERIFY \<equiv> 0x200"

definition flag :: "u32 \<Rightarrow> u32 \<Rightarrow> bool" where
  "flag flags f \<longleftrightarrow> flags AND f \<noteq> 0"

section \<open>Encoding checks\<close>

fun CastToBool :: "bytes \<Rightarrow> bool" where
  "CastToBool [] = False"
| "CastToBool (b # vch) =
     (if b \<noteq> 0 then (if vch = [] \<and> b = 0x80 then False else True) else CastToBool vch)"

definition IsCompressedOrUncompressedPubKey :: "bytes \<Rightarrow> bool" where
  "IsCompressedOrUncompressedPubKey vchPubKey =
     (if length vchPubKey < 33 then False
      else if vchPubKey ! 0 = 0x04 then (if length vchPubKey \<noteq> 65 then False else True)
      else if vchPubKey ! 0 = 0x02 \<or> vchPubKey ! 0 = 0x03 then
        (if length vchPubKey \<noteq> 33 then False else True)
      else False)"

definition IsValidSignatureEncoding :: "bytes \<Rightarrow> bool" where
  "IsValidSignatureEncoding sig =
     (if length sig < 9 then False
      else if length sig > 73 then False
      else if sig ! 0 \<noteq> 0x30 then False
      else if unat (sig ! 1) \<noteq> length sig - 3 then False
      else let lenR = unat (sig ! 3)
      in if 5 + lenR \<ge> length sig then False
      else let lenS = unat (sig ! (5 + lenR))
      in if lenR + lenS + 7 \<noteq> length sig then False
      else if sig ! 2 \<noteq> 0x02 then False
      else if lenR = 0 then False
      else if sig ! 4 AND 0x80 \<noteq> 0 then False
      else if lenR > 1 \<and> sig ! 4 = 0x00 \<and> \<not> (sig ! 5 AND 0x80 \<noteq> 0) then False
      else if sig ! (lenR + 4) \<noteq> 0x02 then False
      else if lenS = 0 then False
      else if sig ! (lenR + 6) AND 0x80 \<noteq> 0 then False
      else if lenS > 1 \<and> sig ! (lenR + 6) = 0x00 \<and> \<not> (sig ! (lenR + 7) AND 0x80 \<noteq> 0) then False
      else True)"

text \<open>These tests return the truth value and the error variable they were given, changed or not.\<close>

definition IsLowDERSignature :: "(bytes \<Rightarrow> bool) \<Rightarrow> bytes \<Rightarrow> ScriptError \<Rightarrow> bool \<times> ScriptError" where
  "IsLowDERSignature CheckLowS vchSig serror =
     (if \<not> IsValidSignatureEncoding vchSig then (False, SCRIPT_ERR_SIG_DER)
      else (CheckLowS (butlast vchSig), serror))"

definition IsDefinedHashtypeSignature :: "bytes \<Rightarrow> bool" where
  "IsDefinedHashtypeSignature vchSig =
     (if length vchSig = 0 then False
      else let nHashType = vchSig ! (length vchSig - 1) AND NOT SIGHASH_ANYONECANPAY
           in if nHashType < SIGHASH_ALL \<or> nHashType > SIGHASH_SINGLE then False else True)"

definition CheckSignatureEncoding ::
  "(bytes \<Rightarrow> bool) \<Rightarrow> bytes \<Rightarrow> u32 \<Rightarrow> ScriptError \<Rightarrow> bool \<times> ScriptError" where
  "CheckSignatureEncoding CheckLowS vchSig flags serror =
     (if length vchSig = 0 then (True, serror)
      else if \<not> IsValidSignatureEncoding vchSig then (False, SCRIPT_ERR_SIG_DER)
      else if flag flags SCRIPT_VERIFY_LOW_S \<and> \<not> fst (IsLowDERSignature CheckLowS vchSig serror)
      then (False, snd (IsLowDERSignature CheckLowS vchSig serror))
      else if flag flags SCRIPT_VERIFY_STRICTENC \<and> \<not> IsDefinedHashtypeSignature vchSig
      then (False, SCRIPT_ERR_SIG_HASHTYPE)
      else (True, serror))"

definition CheckPubKeyEncoding :: "bytes \<Rightarrow> u32 \<Rightarrow> ScriptError \<Rightarrow> bool \<times> ScriptError" where
  "CheckPubKeyEncoding vchSig flags serror =
     (if flag flags SCRIPT_VERIFY_STRICTENC \<and> \<not> IsCompressedOrUncompressedPubKey vchSig
      then (False, SCRIPT_ERR_PUBKEYTYPE) else (True, serror))"

definition CheckMinimalPush :: "bytes \<Rightarrow> opcodetype \<Rightarrow> bool" where
  "CheckMinimalPush data opcode =
     (if length data = 0 then opcode = OP_0
      else if length data = 1 \<and> data ! 0 \<ge> 1 \<and> data ! 0 \<le> 16 then opcode = OP_1 + (data ! 0 - 1)
      else if length data = 1 \<and> data ! 0 = 0x81 then opcode = OP_1NEGATE
      else if length data \<le> 75 then unat opcode = length data
      else if length data \<le> 255 then opcode = OP_PUSHDATA1
      else if length data \<le> 65535 then opcode = OP_PUSHDATA2
      else True)"

section \<open>The machine\<close>

record sig_checker =
  ck_CheckSig :: "bytes \<Rightarrow> bytes \<Rightarrow> bytes \<Rightarrow> bool"
  ck_CheckLockTime :: "int \<Rightarrow> bool"

definition BaseSignatureChecker :: sig_checker where
  "BaseSignatureChecker = \<lparr>ck_CheckSig = (\<lambda>_ _ _. False), ck_CheckLockTime = (\<lambda>_. False)\<rparr>"

record eval_state =
  es_stack :: "bytes list"
  es_altstack :: "bytes list"
  es_vfExec :: "bool list"
  es_nOpCount :: int

type_synonym eval_result = "ScriptError + eval_state"

definition vchFalse :: bytes where "vchFalse = []"
definition vchTrue :: bytes where "vchTrue = [1]"

definition bool_vch :: "bool \<Rightarrow> bytes" where
  "bool_vch b = (if b then vchTrue else vchFalse)"

text \<open>Reading a number off the stack: the exception of \<open>CScriptNum\<close> ends the evaluation.\<close>

definition stack_num :: "bytes \<Rightarrow> bool \<Rightarrow> nat \<Rightarrow> ScriptError + int" where
  "stack_num vch fRequireMinimal nMaxNumSize =
     (case CScriptNum vch fRequireMinimal nMaxNumSize of
        Inl _ \<Rightarrow> Inl SCRIPT_ERR_UNKNOWN_ERROR | Inr n \<Rightarrow> Inr n)"

definition op_push_value :: "opcodetype \<Rightarrow> eval_state \<Rightarrow> eval_result" where
  "op_push_value opcode s =
     Inr (s\<lparr>es_stack := serialize (uint opcode - (uint OP_1 - 1)) # es_stack s\<rparr>)"

definition op_checklocktimeverify ::
  "sig_checker \<Rightarrow> u32 \<Rightarrow> bool \<Rightarrow> eval_state \<Rightarrow> eval_result" where
  "op_checklocktimeverify checker flags fRequireMinimal s =
     (if \<not> flag flags SCRIPT_VERIFY_CHECKLOCKTIMEVERIFY then
        (if flag flags SCRIPT_VERIFY_DISCOURAGE_UPGRADABLE_NOPS
         then Inl SCRIPT_ERR_DISCOURAGE_UPGRADABLE_NOPS else Inr s)
      else (case es_stack s of [] \<Rightarrow> Inl SCRIPT_ERR_INVALID_STACK_OPERATION
            | vch # _ \<Rightarrow>
               (case stack_num vch fRequireMinimal 5 of Inl e \<Rightarrow> Inl e
                | Inr nLockTime \<Rightarrow>
                    if nLockTime < 0 then Inl SCRIPT_ERR_NEGATIVE_LOCKTIME
                    else if \<not> ck_CheckLockTime checker nLockTime then Inl SCRIPT_ERR_UNSATISFIED_LOCKTIME
                    else Inr s)))"

definition op_nop_n :: "u32 \<Rightarrow> eval_state \<Rightarrow> eval_result" where
  "op_nop_n flags s =
     (if flag flags SCRIPT_VERIFY_DISCOURAGE_UPGRADABLE_NOPS
      then Inl SCRIPT_ERR_DISCOURAGE_UPGRADABLE_NOPS else Inr s)"

definition op_control :: "opcodetype \<Rightarrow> bool \<Rightarrow> eval_state \<Rightarrow> eval_result" where
  "op_control opcode fExec s =
     (if opcode = OP_IF \<or> opcode = OP_NOTIF then
        (if fExec then
           (case es_stack s of [] \<Rightarrow> Inl SCRIPT_ERR_UNBALANCED_CONDITIONAL
            | vch # rest \<Rightarrow>
                let fValue = (if opcode = OP_NOTIF then \<not> CastToBool vch else CastToBool vch)
                in Inr (s\<lparr>es_stack := rest, es_vfExec := fValue # es_vfExec s\<rparr>))
         else Inr (s\<lparr>es_vfExec := False # es_vfExec s\<rparr>))
      else if opcode = OP_ELSE then
        (case es_vfExec s of [] \<Rightarrow> Inl SCRIPT_ERR_UNBALANCED_CONDITIONAL
         | f # fs \<Rightarrow> Inr (s\<lparr>es_vfExec := (\<not> f) # fs\<rparr>))
      else if opcode = OP_ENDIF then
        (case es_vfExec s of [] \<Rightarrow> Inl SCRIPT_ERR_UNBALANCED_CONDITIONAL
         | f # fs \<Rightarrow> Inr (s\<lparr>es_vfExec := fs\<rparr>))
      else if opcode = OP_VERIFY then
        (case es_stack s of [] \<Rightarrow> Inl SCRIPT_ERR_INVALID_STACK_OPERATION
         | vch # rest \<Rightarrow> if CastToBool vch then Inr (s\<lparr>es_stack := rest\<rparr>) else Inl SCRIPT_ERR_VERIFY)
      else Inl SCRIPT_ERR_OP_RETURN)"

definition op_stack_a :: "opcodetype \<Rightarrow> eval_state \<Rightarrow> eval_result" where
  "op_stack_a opcode s =
     (let bad = Inl SCRIPT_ERR_INVALID_STACK_OPERATION
      in if opcode = OP_TOALTSTACK then
        (case es_stack s of x # r \<Rightarrow> Inr (s\<lparr>es_stack := r, es_altstack := x # es_altstack s\<rparr>) | _ \<Rightarrow> bad)
      else if opcode = OP_FROMALTSTACK then
        (case es_altstack s of x # r \<Rightarrow> Inr (s\<lparr>es_stack := x # es_stack s, es_altstack := r\<rparr>)
         | _ \<Rightarrow> Inl SCRIPT_ERR_INVALID_ALTSTACK_OPERATION)
      else if opcode = OP_2DROP then
        (case es_stack s of _ # _ # r \<Rightarrow> Inr (s\<lparr>es_stack := r\<rparr>) | _ \<Rightarrow> bad)
      else if opcode = OP_2DUP then
        (case es_stack s of x2 # x1 # r \<Rightarrow> Inr (s\<lparr>es_stack := x2 # x1 # x2 # x1 # r\<rparr>) | _ \<Rightarrow> bad)
      else if opcode = OP_3DUP then
        (case es_stack s of x3 # x2 # x1 # r \<Rightarrow>
           Inr (s\<lparr>es_stack := x3 # x2 # x1 # x3 # x2 # x1 # r\<rparr>) | _ \<Rightarrow> bad)
      else if opcode = OP_2OVER then
        (case es_stack s of x4 # x3 # x2 # x1 # r \<Rightarrow>
           Inr (s\<lparr>es_stack := x2 # x1 # x4 # x3 # x2 # x1 # r\<rparr>) | _ \<Rightarrow> bad)
      else if opcode = OP_2ROT then
        (case es_stack s of x6 # x5 # x4 # x3 # x2 # x1 # r \<Rightarrow>
           Inr (s\<lparr>es_stack := x2 # x1 # x6 # x5 # x4 # x3 # r\<rparr>) | _ \<Rightarrow> bad)
      else if opcode = OP_2SWAP then
        (case es_stack s of x4 # x3 # x2 # x1 # r \<Rightarrow>
           Inr (s\<lparr>es_stack := x2 # x1 # x4 # x3 # r\<rparr>) | _ \<Rightarrow> bad)
      else if opcode = OP_IFDUP then
        (case es_stack s of x # r \<Rightarrow>
           Inr (if CastToBool x then s\<lparr>es_stack := x # x # r\<rparr> else s) | _ \<Rightarrow> bad)
      else if opcode = OP_DEPTH then
        Inr (s\<lparr>es_stack := serialize (int (length (es_stack s))) # es_stack s\<rparr>)
      else
        (case es_stack s of _ # r \<Rightarrow> Inr (s\<lparr>es_stack := r\<rparr>) | _ \<Rightarrow> bad))"

definition op_stack_b :: "opcodetype \<Rightarrow> bool \<Rightarrow> eval_state \<Rightarrow> eval_result" where
  "op_stack_b opcode fRequireMinimal s =
     (let bad = Inl SCRIPT_ERR_INVALID_STACK_OPERATION
      in if opcode = OP_DUP then
        (case es_stack s of x # r \<Rightarrow> Inr (s\<lparr>es_stack := x # x # r\<rparr>) | _ \<Rightarrow> bad)
      else if opcode = OP_NIP then
        (case es_stack s of x2 # x1 # r \<Rightarrow> Inr (s\<lparr>es_stack := x2 # r\<rparr>) | _ \<Rightarrow> bad)
      else if opcode = OP_OVER then
        (case es_stack s of x2 # x1 # r \<Rightarrow> Inr (s\<lparr>es_stack := x1 # x2 # x1 # r\<rparr>) | _ \<Rightarrow> bad)
      else if opcode = OP_PICK \<or> opcode = OP_ROLL then
        (if length (es_stack s) < 2 then bad
         else case stack_num (hd (es_stack s)) fRequireMinimal nDefaultMaxNumSize of Inl e \<Rightarrow> Inl e
         | Inr bn \<Rightarrow>
             let n = getint bn; stack = tl (es_stack s)
             in if n < 0 \<or> n \<ge> int (length stack) then bad
                else let vch = stack ! nat n;
                         rest = (if opcode = OP_ROLL then take (nat n) stack @ drop (nat n + 1) stack
                                 else stack)
                     in Inr (s\<lparr>es_stack := vch # rest\<rparr>))
      else if opcode = OP_ROT then
        (case es_stack s of x3 # x2 # x1 # r \<Rightarrow> Inr (s\<lparr>es_stack := x1 # x3 # x2 # r\<rparr>) | _ \<Rightarrow> bad)
      else if opcode = OP_SWAP then
        (case es_stack s of x2 # x1 # r \<Rightarrow> Inr (s\<lparr>es_stack := x1 # x2 # r\<rparr>) | _ \<Rightarrow> bad)
      else if opcode = OP_TUCK then
        (case es_stack s of x2 # x1 # r \<Rightarrow> Inr (s\<lparr>es_stack := x2 # x1 # x2 # r\<rparr>) | _ \<Rightarrow> bad)
      else
        (case es_stack s of x # r \<Rightarrow> Inr (s\<lparr>es_stack := serialize (int (length x)) # x # r\<rparr>) | _ \<Rightarrow> bad))"

definition op_equal :: "opcodetype \<Rightarrow> eval_state \<Rightarrow> eval_result" where
  "op_equal opcode s =
     (case es_stack s of
        vch2 # vch1 # r \<Rightarrow>
          let fEqual = (vch1 = vch2)
          in if opcode = OP_EQUALVERIFY then
               (if fEqual then Inr (s\<lparr>es_stack := r\<rparr>) else Inl SCRIPT_ERR_EQUALVERIFY)
             else Inr (s\<lparr>es_stack := bool_vch fEqual # r\<rparr>)
      | _ \<Rightarrow> Inl SCRIPT_ERR_INVALID_STACK_OPERATION)"

definition op_unary_num :: "opcodetype \<Rightarrow> bool \<Rightarrow> eval_state \<Rightarrow> eval_result" where
  "op_unary_num opcode fRequireMinimal s =
     (case es_stack s of [] \<Rightarrow> Inl SCRIPT_ERR_INVALID_STACK_OPERATION
      | vch # r \<Rightarrow>
         (case stack_num vch fRequireMinimal nDefaultMaxNumSize of Inl e \<Rightarrow> Inl e
          | Inr bn \<Rightarrow>
              let out = (if opcode = OP_1ADD then bn + 1
                         else if opcode = OP_1SUB then bn - 1
                         else if opcode = OP_NEGATE then - bn
                         else if opcode = OP_ABS then (if bn < 0 then - bn else bn)
                         else if opcode = OP_NOT then of_bool (bn = 0)
                         else of_bool (bn \<noteq> 0))
              in Inr (s\<lparr>es_stack := serialize out # r\<rparr>)))"

definition binary_num :: "opcodetype \<Rightarrow> int \<Rightarrow> int \<Rightarrow> int" where
  "binary_num opcode bn1 bn2 =
     (if opcode = OP_ADD then bn1 + bn2
      else if opcode = OP_SUB then bn1 - bn2
      else if opcode = OP_BOOLAND then of_bool (bn1 \<noteq> 0 \<and> bn2 \<noteq> 0)
      else if opcode = OP_BOOLOR then of_bool (bn1 \<noteq> 0 \<or> bn2 \<noteq> 0)
      else if opcode = OP_NUMEQUAL then of_bool (bn1 = bn2)
      else if opcode = OP_NUMEQUALVERIFY then of_bool (bn1 = bn2)
      else if opcode = OP_NUMNOTEQUAL then of_bool (bn1 \<noteq> bn2)
      else if opcode = OP_LESSTHAN then of_bool (bn1 < bn2)
      else if opcode = OP_GREATERTHAN then of_bool (bn1 > bn2)
      else if opcode = OP_LESSTHANOREQUAL then of_bool (bn1 \<le> bn2)
      else if opcode = OP_GREATERTHANOREQUAL then of_bool (bn1 \<ge> bn2)
      else if opcode = OP_MIN then (if bn1 < bn2 then bn1 else bn2)
      else (if bn1 > bn2 then bn1 else bn2))"

definition op_binary_num :: "opcodetype \<Rightarrow> bool \<Rightarrow> eval_state \<Rightarrow> eval_result" where
  "op_binary_num opcode fRequireMinimal s =
     (case es_stack s of
        vch2 # vch1 # r \<Rightarrow>
          (case stack_num vch1 fRequireMinimal nDefaultMaxNumSize of Inl e \<Rightarrow> Inl e
           | Inr bn1 \<Rightarrow>
              (case stack_num vch2 fRequireMinimal nDefaultMaxNumSize of Inl e \<Rightarrow> Inl e
               | Inr bn2 \<Rightarrow>
                   let out = serialize (binary_num opcode bn1 bn2)
                   in if opcode = OP_NUMEQUALVERIFY then
                        (if CastToBool out then Inr (s\<lparr>es_stack := r\<rparr>) else Inl SCRIPT_ERR_NUMEQUALVERIFY)
                      else Inr (s\<lparr>es_stack := out # r\<rparr>)))
      | _ \<Rightarrow> Inl SCRIPT_ERR_INVALID_STACK_OPERATION)"

definition op_within :: "bool \<Rightarrow> eval_state \<Rightarrow> eval_result" where
  "op_within fRequireMinimal s =
     (case es_stack s of
        vch3 # vch2 # vch1 # r \<Rightarrow>
          (case stack_num vch1 fRequireMinimal nDefaultMaxNumSize of Inl e \<Rightarrow> Inl e
           | Inr bn1 \<Rightarrow>
              (case stack_num vch2 fRequireMinimal nDefaultMaxNumSize of Inl e \<Rightarrow> Inl e
               | Inr bn2 \<Rightarrow>
                  (case stack_num vch3 fRequireMinimal nDefaultMaxNumSize of Inl e \<Rightarrow> Inl e
                   | Inr bn3 \<Rightarrow> Inr (s\<lparr>es_stack := bool_vch (bn2 \<le> bn1 \<and> bn1 < bn3) # r\<rparr>))))
      | _ \<Rightarrow> Inl SCRIPT_ERR_INVALID_STACK_OPERATION)"

definition op_hash :: "opcodetype \<Rightarrow> eval_state \<Rightarrow> eval_result" where
  "op_hash opcode s =
     (case es_stack s of [] \<Rightarrow> Inl SCRIPT_ERR_INVALID_STACK_OPERATION
      | vch # r \<Rightarrow>
          let vchHash = (if opcode = OP_RIPEMD160 then CRIPEMD160_Finalize (CRIPEMD160_Write CRIPEMD160_new vch)
                         else if opcode = OP_SHA1 then CSHA1_Finalize (CSHA1_Write CSHA1_new vch)
                         else if opcode = OP_SHA256 then CSHA256_Finalize (CSHA256_Write CSHA256_new vch)
                         else if opcode = OP_HASH160 then CHash160_Finalize (CSHA256_Write CSHA256_new vch)
                         else CHash256_Finalize (CSHA256_Write CSHA256_new vch))
          in Inr (s\<lparr>es_stack := vchHash # r\<rparr>))"

text \<open>The two encoding checks before a signature is verified; \<^verbatim>\<open>serror\<close> is still the unknown error.\<close>

definition sig_encodings :: "(bytes \<Rightarrow> bool) \<Rightarrow> u32 \<Rightarrow> bytes \<Rightarrow> bytes \<Rightarrow> bool \<times> ScriptError" where
  "sig_encodings CheckLowS flags vchSig vchPubKey =
     (case CheckSignatureEncoding CheckLowS vchSig flags SCRIPT_ERR_UNKNOWN_ERROR of
        (False, e) \<Rightarrow> (False, e)
      | (True, e) \<Rightarrow> CheckPubKeyEncoding vchPubKey flags e)"

definition op_checksig ::
  "(bytes \<Rightarrow> bool) \<Rightarrow> sig_checker \<Rightarrow> u32 \<Rightarrow> bytes \<Rightarrow> opcodetype \<Rightarrow> eval_state \<Rightarrow> eval_result" where
  "op_checksig CheckLowS checker flags script opcode s =
     (case es_stack s of
        vchPubKey # vchSig # r \<Rightarrow>
          (case sig_encodings CheckLowS flags vchSig vchPubKey of
             (False, e) \<Rightarrow> Inl e
           | (True, _) \<Rightarrow>
               let fSuccess = ck_CheckSig checker vchSig vchPubKey script
               in if opcode = OP_CHECKSIGVERIFY then
                    (if fSuccess then Inr (s\<lparr>es_stack := r\<rparr>) else Inl SCRIPT_ERR_CHECKSIGVERIFY)
                  else Inr (s\<lparr>es_stack := bool_vch fSuccess # r\<rparr>))
      | _ \<Rightarrow> Inl SCRIPT_ERR_INVALID_STACK_OPERATION)"

text \<open>
  The loop of CHECKMULTISIG over the signatures and keys that are left. Signatures never outnumber
  keys when it goes on, so the case without a key is not reached.
\<close>

fun multisig_loop ::
  "(bytes \<Rightarrow> bool) \<Rightarrow> sig_checker \<Rightarrow> u32 \<Rightarrow> bytes \<Rightarrow> bytes list \<Rightarrow> bytes list \<Rightarrow> ScriptError + bool" where
  "multisig_loop CheckLowS checker flags script [] keys = Inr True"
| "multisig_loop CheckLowS checker flags script (vchSig # sigs) [] = Inr False"
| "multisig_loop CheckLowS checker flags script (vchSig # sigs) (vchPubKey # keys) =
     (case sig_encodings CheckLowS flags vchSig vchPubKey of
        (False, e) \<Rightarrow> Inl e
      | (True, _) \<Rightarrow>
          let fOk = ck_CheckSig checker vchSig vchPubKey script;
              sigs' = (if fOk then sigs else vchSig # sigs)
          in if length sigs' > length keys then Inr False
             else multisig_loop CheckLowS checker flags script sigs' keys)"

definition op_checkmultisig ::
  "(bytes \<Rightarrow> bool) \<Rightarrow> sig_checker \<Rightarrow> u32 \<Rightarrow> bool \<Rightarrow> bytes \<Rightarrow> opcodetype \<Rightarrow> eval_state \<Rightarrow> eval_result" where
  "op_checkmultisig CheckLowS checker flags fRequireMinimal script opcode s =
     (let stack = es_stack s; bad = Inl SCRIPT_ERR_INVALID_STACK_OPERATION
      in if length stack < 1 then bad
      else (case stack_num (stack ! 0) fRequireMinimal nDefaultMaxNumSize of Inl e \<Rightarrow> Inl e
      | Inr bn \<Rightarrow>
      if getint bn < 0 \<or> getint bn > 20 then Inl SCRIPT_ERR_PUBKEY_COUNT
      else let nKeysCount = nat (getint bn); nOpCount = es_nOpCount s + int nKeysCount
      in if nOpCount > 201 then Inl SCRIPT_ERR_OP_COUNT
      else if length stack < 2 + nKeysCount then bad
      else (case stack_num (stack ! (1 + nKeysCount)) fRequireMinimal nDefaultMaxNumSize of Inl e \<Rightarrow> Inl e
      | Inr bn' \<Rightarrow>
      if getint bn' < 0 \<or> getint bn' > int nKeysCount then Inl SCRIPT_ERR_SIG_COUNT
      else let nSigsCount = nat (getint bn')
      in if length stack < 3 + nKeysCount + nSigsCount then bad
      else (case multisig_loop CheckLowS checker flags script
                  (take nSigsCount (drop (2 + nKeysCount) stack)) (take nKeysCount (drop 1 stack)) of
        Inl e \<Rightarrow> Inl e
      | Inr fSuccess \<Rightarrow>
      (case drop (2 + nKeysCount + nSigsCount) stack of [] \<Rightarrow> bad
       | dummy # r \<Rightarrow>
           if flag flags SCRIPT_VERIFY_NULLDUMMY \<and> length dummy \<noteq> 0 then Inl SCRIPT_ERR_SIG_NULLDUMMY
           else if opcode = OP_CHECKMULTISIGVERIFY then
             (if fSuccess then Inr (s\<lparr>es_stack := r, es_nOpCount := nOpCount\<rparr>)
              else Inl SCRIPT_ERR_CHECKMULTISIGVERIFY)
           else Inr (s\<lparr>es_stack := bool_vch fSuccess # r, es_nOpCount := nOpCount\<rparr>))))))"

section \<open>The interpreter\<close>

definition disabled_opcodes :: "opcodetype list" where
  "disabled_opcodes = [OP_CAT, OP_SUBSTR, OP_LEFT, OP_RIGHT, OP_INVERT, OP_AND, OP_OR, OP_XOR,
     OP_2MUL, OP_2DIV, OP_MUL, OP_DIV, OP_MOD, OP_LSHIFT, OP_RSHIFT, OP_CODESEPARATOR]"

definition EvalOp ::
  "(bytes \<Rightarrow> bool) \<Rightarrow> sig_checker \<Rightarrow> u32 \<Rightarrow> bytes \<Rightarrow> bool \<Rightarrow> opcodetype \<Rightarrow> eval_state \<Rightarrow> eval_result" where
  "EvalOp CheckLowS checker flags script fExec opcode s =
     (let fRequireMinimal = flag flags SCRIPT_VERIFY_MINIMALDATA
      in if opcode = OP_1NEGATE \<or> (OP_1 \<le> opcode \<and> opcode \<le> OP_16) then op_push_value opcode s
      else if opcode = OP_NOP then Inr s
      else if opcode = OP_CHECKLOCKTIMEVERIFY then op_checklocktimeverify checker flags fRequireMinimal s
      else if opcode = OP_NOP1 \<or> (OP_NOP3 \<le> opcode \<and> opcode \<le> OP_NOP10) then op_nop_n flags s
      else if opcode \<in> {OP_IF, OP_NOTIF, OP_ELSE, OP_ENDIF, OP_VERIFY, OP_RETURN} then op_control opcode fExec s
      else if OP_TOALTSTACK \<le> opcode \<and> opcode \<le> OP_DROP then op_stack_a opcode s
      else if (OP_DUP \<le> opcode \<and> opcode \<le> OP_TUCK) \<or> opcode = OP_SIZE then op_stack_b opcode fRequireMinimal s
      else if opcode = OP_EQUAL \<or> opcode = OP_EQUALVERIFY then op_equal opcode s
      else if opcode \<in> {OP_1ADD, OP_1SUB, OP_NEGATE, OP_ABS, OP_NOT, OP_0NOTEQUAL} then
        op_unary_num opcode fRequireMinimal s
      else if opcode \<in> {OP_ADD, OP_SUB, OP_BOOLAND, OP_BOOLOR, OP_NUMEQUAL, OP_NUMEQUALVERIFY, OP_NUMNOTEQUAL,
          OP_LESSTHAN, OP_GREATERTHAN, OP_LESSTHANOREQUAL, OP_GREATERTHANOREQUAL, OP_MIN, OP_MAX} then
        op_binary_num opcode fRequireMinimal s
      else if opcode = OP_WITHIN then op_within fRequireMinimal s
      else if OP_RIPEMD160 \<le> opcode \<and> opcode \<le> OP_HASH256 then op_hash opcode s
      else if opcode = OP_CHECKSIG \<or> opcode = OP_CHECKSIGVERIFY then
        op_checksig CheckLowS checker flags script opcode s
      else if opcode = OP_CHECKMULTISIG \<or> opcode = OP_CHECKMULTISIGVERIFY then
        op_checkmultisig CheckLowS checker flags fRequireMinimal script opcode s
      else Inl SCRIPT_ERR_BAD_OPCODE)"

definition EvalStep ::
  "(bytes \<Rightarrow> bool) \<Rightarrow> sig_checker \<Rightarrow> u32 \<Rightarrow> bytes \<Rightarrow> opcodetype \<Rightarrow> bytes \<Rightarrow> eval_state \<Rightarrow> eval_result" where
  "EvalStep CheckLowS checker flags script opcode vchPushValue s =
     (let fExec = (\<not> (False \<in> set (es_vfExec s)))
      in if length vchPushValue > MAX_SCRIPT_ELEMENT_SIZE then Inl SCRIPT_ERR_PUSH_SIZE
      else let s1 = (if opcode > OP_16 then s\<lparr>es_nOpCount := es_nOpCount s + 1\<rparr> else s)
      in if opcode > OP_16 \<and> es_nOpCount s1 > 201 then Inl SCRIPT_ERR_OP_COUNT
      else if opcode \<in> set disabled_opcodes then Inl SCRIPT_ERR_DISABLED_OPCODE
      else case (if fExec \<and> opcode \<le> OP_PUSHDATA4 then
                   (if flag flags SCRIPT_VERIFY_MINIMALDATA \<and> \<not> CheckMinimalPush vchPushValue opcode
                    then Inl SCRIPT_ERR_MINIMALDATA
                    else Inr (s1\<lparr>es_stack := vchPushValue # es_stack s1\<rparr>))
                 else if fExec \<or> (OP_IF \<le> opcode \<and> opcode \<le> OP_ENDIF) then
                   EvalOp CheckLowS checker flags script fExec opcode s1
                 else Inr s1) of
             Inl e \<Rightarrow> Inl e
           | Inr s2 \<Rightarrow> if length (es_stack s2) + length (es_altstack s2) > 1000
                       then Inl SCRIPT_ERR_STACK_SIZE else Inr s2)"

function EvalLoop ::
  "(bytes \<Rightarrow> bool) \<Rightarrow> sig_checker \<Rightarrow> u32 \<Rightarrow> bytes \<Rightarrow> bytes \<Rightarrow> eval_state \<Rightarrow> eval_result" where
  "EvalLoop CheckLowS checker flags script pc s =
     (if pc = [] then Inr s
      else case GetOp2 pc of None \<Rightarrow> Inl SCRIPT_ERR_BAD_OPCODE
           | Some (opcode, vchPushValue, pc') \<Rightarrow>
              (case EvalStep CheckLowS checker flags script opcode vchPushValue s of Inl e \<Rightarrow> Inl e
               | Inr s' \<Rightarrow> EvalLoop CheckLowS checker flags script pc' s'))"
  by auto
termination
  by (relation "measure (\<lambda>(lowS, checker, flags, script, pc, s). length pc)") (auto dest: GetOp2_shorter)

declare EvalLoop.simps [simp del]

definition EvalScript ::
  "(bytes \<Rightarrow> bool) \<Rightarrow> sig_checker \<Rightarrow> u32 \<Rightarrow> bytes list \<Rightarrow> bytes \<Rightarrow> ScriptError + bytes list" where
  "EvalScript CheckLowS checker flags stack script =
     (if length script > MAX_SCRIPT_SIZE then Inl SCRIPT_ERR_SCRIPT_SIZE
      else case EvalLoop CheckLowS checker flags script script
                  \<lparr>es_stack = stack, es_altstack = [], es_vfExec = [], es_nOpCount = 0\<rparr> of
             Inl e \<Rightarrow> Inl e
           | Inr s \<Rightarrow> if es_vfExec s \<noteq> [] then Inl SCRIPT_ERR_UNBALANCED_CONDITIONAL
                      else Inr (es_stack s))"

text \<open>The result of \<open>VerifyScript\<close>: \<open>None\<close> when an assertion of the code fails.\<close>

definition final_checks :: "u32 \<Rightarrow> bytes list \<Rightarrow> (bool \<times> ScriptError) option" where
  "final_checks flags stack =
     (if flag flags SCRIPT_VERIFY_CLEANSTACK then
        (if \<not> flag flags SCRIPT_VERIFY_P2SH then None
         else if length stack \<noteq> 1 then Some (False, SCRIPT_ERR_CLEANSTACK)
         else Some (True, SCRIPT_ERR_OK))
      else Some (True, SCRIPT_ERR_OK))"

definition VerifyScript ::
  "(bytes \<Rightarrow> bool) \<Rightarrow> sig_checker \<Rightarrow> u32 \<Rightarrow> bytes \<Rightarrow> bytes \<Rightarrow> (bool \<times> ScriptError) option" where
  "VerifyScript CheckLowS checker flags scriptSig scriptPubKey =
     (if flag flags SCRIPT_VERIFY_SIGPUSHONLY \<and> \<not> IsPushOnly scriptSig
      then Some (False, SCRIPT_ERR_SIG_PUSHONLY)
      else case EvalScript CheckLowS checker flags [] scriptSig of Inl e \<Rightarrow> Some (False, e)
      | Inr stackCopy \<Rightarrow>
        (case EvalScript CheckLowS checker flags stackCopy scriptPubKey of Inl e \<Rightarrow> Some (False, e)
         | Inr [] \<Rightarrow> Some (False, SCRIPT_ERR_EVAL_FALSE)
         | Inr (v # r) \<Rightarrow>
            if \<not> CastToBool v then Some (False, SCRIPT_ERR_EVAL_FALSE)
            else if flag flags SCRIPT_VERIFY_P2SH \<and> IsPayToScriptHash scriptPubKey then
              (if \<not> IsPushOnly scriptSig then Some (False, SCRIPT_ERR_SIG_PUSHONLY)
               else case stackCopy of [] \<Rightarrow> None
               | pubKey2 # stack \<Rightarrow>
                 (case EvalScript CheckLowS checker flags stack pubKey2 of Inl e \<Rightarrow> Some (False, e)
                  | Inr [] \<Rightarrow> Some (False, SCRIPT_ERR_EVAL_FALSE)
                  | Inr (v' # r') \<Rightarrow>
                     if \<not> CastToBool v' then Some (False, SCRIPT_ERR_EVAL_FALSE)
                     else final_checks flags (v' # r')))
            else final_checks flags (v # r)))"

section \<open>Limits of the stacks\<close>

definition elems_ok :: "bytes list \<Rightarrow> bool" where
  "elems_ok xs \<longleftrightarrow> (\<forall>x \<in> set xs. length x \<le> MAX_SCRIPT_ELEMENT_SIZE)"

lemma elems_ok_simps [simp]:
  "elems_ok []" "elems_ok (x # xs) \<longleftrightarrow> length x \<le> MAX_SCRIPT_ELEMENT_SIZE \<and> elems_ok xs"
  "elems_ok (xs @ ys) \<longleftrightarrow> elems_ok xs \<and> elems_ok ys"
  by (auto simp: elems_ok_def)

lemma elems_ok_parts:
  "elems_ok xs \<Longrightarrow> elems_ok (take n xs)" "elems_ok xs \<Longrightarrow> elems_ok (drop n xs)"
  "elems_ok xs \<Longrightarrow> elems_ok (tl xs)"
  "elems_ok xs \<Longrightarrow> i < length xs \<Longrightarrow> length (xs ! i) \<le> MAX_SCRIPT_ELEMENT_SIZE"
  by (auto simp: elems_ok_def dest: in_set_takeD in_set_dropD list.set_sel(2) [rotated])
     (cases xs; auto)

lemma elems_ok_drop: "drop n xs = d # r \<Longrightarrow> elems_ok xs \<Longrightarrow> elems_ok r"
  using elems_ok_parts(2) [of xs n] by simp

lemma length_ser_loop: "length (ser_loop w) \<le> 8"
proof (rule ccontr)
  assume a: "\<not> length (ser_loop w) \<le> 8"
  have ne: "ser_loop w \<noteq> []" "last (ser_loop w) \<noteq> 0" using a ser_loop_props(2) [of w] by (cases "w = 0"; auto)+
  then have "le_read (ser_loop w) = le_read (butlast (ser_loop w)) +
      256 ^ (length (ser_loop w) - 1) * unat (last (ser_loop w))"
    using le_read_append [of "butlast (ser_loop w)" "[last (ser_loop w)]"] by simp
  moreover have "unat (last (ser_loop w)) \<ge> 1" using ne(2) by (simp add: unat_gt_0 Suc_leI)
  then have "256 ^ (length (ser_loop w) - 1) * 1 \<le> 256 ^ (length (ser_loop w) - 1) * unat (last (ser_loop w))"
    by (rule mult_le_mono2)
  ultimately have "(256 :: nat) ^ (length (ser_loop w) - 1) \<le> unat w" using ser_loop_props(1) [of w] by linarith
  moreover have "(256 :: nat) ^ 8 \<le> 256 ^ (length (ser_loop w) - 1)" using a by (intro power_increasing) simp_all
  moreover have "unat w < 256 ^ 8" using unsigned_less [of w] by simp
  ultimately show False by linarith
qed

lemma length_serialize: "length (serialize n) \<le> 9"
proof -
  have "length (ser_loop w) \<le> 9" "length (ser_loop w) - 1 \<le> 8" for w using length_ser_loop [of w] by linarith+
  then show ?thesis using length_ser_loop by (simp add: serialize_def Let_def)
qed

lemma length_serialize_ok [simp]: "length (serialize n) \<le> MAX_SCRIPT_ELEMENT_SIZE"
  using length_serialize [of n] by (simp add: MAX_SCRIPT_ELEMENT_SIZE_def)

lemma length_bool_vch [simp]: "length (bool_vch b) \<le> MAX_SCRIPT_ELEMENT_SIZE"
  by (simp add: bool_vch_def vchTrue_def vchFalse_def MAX_SCRIPT_ELEMENT_SIZE_def)

text \<open>What every operation keeps: no element is longer than 520 bytes, and at most 201 operations are counted.\<close>

definition state_ok :: "eval_state \<Rightarrow> bool" where
  "state_ok s \<longleftrightarrow> elems_ok (es_stack s) \<and> elems_ok (es_altstack s) \<and> es_nOpCount s \<le> 201"

lemma op_push_value_ok: "op_push_value opcode s = Inr s' \<Longrightarrow> state_ok s \<Longrightarrow> state_ok s'"
  by (auto simp: op_push_value_def state_ok_def)

lemma op_checklocktimeverify_same: "op_checklocktimeverify checker flags m s = Inr s' \<Longrightarrow> s' = s"
  by (auto simp: op_checklocktimeverify_def split: if_splits list.splits sum.splits)

lemma op_nop_n_same: "op_nop_n flags s = Inr s' \<Longrightarrow> s' = s"
  by (auto simp: op_nop_n_def split: if_splits)

lemma op_control_ok: "op_control opcode fExec s = Inr s' \<Longrightarrow> state_ok s \<Longrightarrow> state_ok s'"
  by (auto simp: op_control_def state_ok_def Let_def split: if_splits list.splits)

lemma op_stack_a_ok: "op_stack_a opcode s = Inr s' \<Longrightarrow> state_ok s \<Longrightarrow> state_ok s'"
  by (auto simp: op_stack_a_def state_ok_def Let_def split: if_splits list.splits)

lemma op_stack_b_ok: "op_stack_b opcode m s = Inr s' \<Longrightarrow> state_ok s \<Longrightarrow> state_ok s'"
  by (auto simp: op_stack_b_def state_ok_def Let_def not_le not_less
      intro!: elems_ok_parts split: if_splits list.splits sum.splits)

lemma op_equal_ok: "op_equal opcode s = Inr s' \<Longrightarrow> state_ok s \<Longrightarrow> state_ok s'"
  by (auto simp: op_equal_def state_ok_def Let_def split: if_splits list.splits)

lemma op_unary_num_ok: "op_unary_num opcode m s = Inr s' \<Longrightarrow> state_ok s \<Longrightarrow> state_ok s'"
  by (auto simp: op_unary_num_def state_ok_def Let_def split: list.splits sum.splits)

lemma op_binary_num_ok: "op_binary_num opcode m s = Inr s' \<Longrightarrow> state_ok s \<Longrightarrow> state_ok s'"
  by (auto simp: op_binary_num_def state_ok_def Let_def split: if_splits list.splits sum.splits)

lemma op_within_ok: "op_within m s = Inr s' \<Longrightarrow> state_ok s \<Longrightarrow> state_ok s'"
  by (auto simp: op_within_def state_ok_def Let_def split: list.splits sum.splits)

lemma op_checksig_ok: "op_checksig CheckLowS checker flags script opcode s = Inr s' \<Longrightarrow> state_ok s \<Longrightarrow> state_ok s'"
  by (auto simp: op_checksig_def state_ok_def Let_def split: if_splits list.splits prod.splits bool.splits)

lemma op_checkmultisig_ok:
  "op_checkmultisig CheckLowS checker flags m script opcode s = Inr s' \<Longrightarrow> state_ok s \<Longrightarrow> state_ok s'"
  by (auto simp: op_checkmultisig_def state_ok_def Let_def dest: elems_ok_drop
      split: if_splits list.splits sum.splits)

lemma op_hash_eq:
  "op_hash opcode s = (case es_stack s of [] \<Rightarrow> Inl SCRIPT_ERR_INVALID_STACK_OPERATION
     | vch # r \<Rightarrow> Inr (s\<lparr>es_stack := (if opcode = OP_RIPEMD160 then RIPEMD160 vch
         else if opcode = OP_SHA1 then SHA1 vch else if opcode = OP_SHA256 then SHA256 vch
         else if opcode = OP_HASH160 then RIPEMD160 (SHA256 vch) else SHA256 (SHA256 vch)) # r\<rparr>))"
  by (simp add: op_hash_def Let_def split: list.split)

lemma op_hash_ok: "op_hash opcode s = Inr s' \<Longrightarrow> state_ok s \<Longrightarrow> state_ok s'"
  by (auto simp: op_hash_eq state_ok_def MAX_SCRIPT_ELEMENT_SIZE_def length_SHA256 length_SHA1 length_RIPEMD160
      split: list.splits)

lemmas ops_ok = op_push_value_ok op_control_ok op_stack_a_ok op_stack_b_ok op_equal_ok op_unary_num_ok
  op_binary_num_ok op_within_ok op_hash_ok op_checksig_ok op_checkmultisig_ok

definition keeps_ok :: "eval_state \<Rightarrow> eval_result \<Rightarrow> bool" where
  "keeps_ok s r \<longleftrightarrow> (\<forall>s'. r = Inr s' \<longrightarrow> state_ok s \<longrightarrow> state_ok s')"

lemma ops_keep:
  "keeps_ok s (op_push_value opcode s)" "keeps_ok s (op_checklocktimeverify checker flags m s)"
  "keeps_ok s (op_nop_n flags s)" "keeps_ok s (op_control opcode fExec s)" "keeps_ok s (op_stack_a opcode s)"
  "keeps_ok s (op_stack_b opcode m s)" "keeps_ok s (op_equal opcode s)" "keeps_ok s (op_unary_num opcode m s)"
  "keeps_ok s (op_binary_num opcode m s)" "keeps_ok s (op_within m s)" "keeps_ok s (op_hash opcode s)"
  "keeps_ok s (op_checksig CheckLowS checker flags script opcode s)"
  "keeps_ok s (op_checkmultisig CheckLowS checker flags m script opcode s)" "keeps_ok s (Inr s)" "keeps_ok s (Inl e)"
  by (auto simp: keeps_ok_def dest: ops_ok op_checklocktimeverify_same op_nop_n_same)

lemma EvalOp_ok:
  "EvalOp CheckLowS checker flags script fExec opcode s = Inr s' \<Longrightarrow> state_ok s \<Longrightarrow> state_ok s'"
proof -
  have "keeps_ok s (EvalOp CheckLowS checker flags script fExec opcode s)"
    by (simp add: EvalOp_def Let_def if_distrib [of "keeps_ok s"] ops_keep cong del: if_cong)
  then show "EvalOp CheckLowS checker flags script fExec opcode s = Inr s' \<Longrightarrow> state_ok s \<Longrightarrow> state_ok s'"
    by (simp add: keeps_ok_def)
qed

text \<open>The machine between two instructions.\<close>

definition machine_ok :: "eval_state \<Rightarrow> bool" where
  "machine_ok s \<longleftrightarrow> state_ok s \<and> length (es_stack s) + length (es_altstack s) \<le> 1000"

lemma EvalStep_ok:
  assumes "EvalStep CheckLowS checker flags script opcode vch s = Inr s'" "state_ok s"
  shows "machine_ok s'"
proof -
  let ?s1 = "if opcode > OP_16 then s\<lparr>es_nOpCount := es_nOpCount s + 1\<rparr> else s"
  have vch: "length vch \<le> MAX_SCRIPT_ELEMENT_SIZE" and cnt: "\<not> (opcode > OP_16 \<and> es_nOpCount ?s1 > 201)"
    using assms(1) by (auto simp: EvalStep_def Let_def split: if_splits)
  then have s1: "state_ok ?s1" using assms(2) by (auto simp: state_ok_def)
  then have p: "state_ok (?s1\<lparr>es_stack := vch # es_stack ?s1\<rparr>)" using vch by (auto simp: state_ok_def)
  have "state_ok s' \<and> length (es_stack s') + length (es_altstack s') \<le> 1000"
    using assms(1) s1 p unfolding EvalStep_def Let_def
    by (auto simp: not_less dest: EvalOp_ok split: if_splits sum.splits)
  then show ?thesis by (simp add: machine_ok_def)
qed

lemma EvalLoop_ok:
  "EvalLoop CheckLowS checker flags script pc s = Inr s' \<Longrightarrow> machine_ok s \<Longrightarrow> machine_ok s'"
proof (induction CheckLowS checker flags script pc s rule: EvalLoop.induct)
  case (1 CheckLowS checker flags script pc s)
  show ?case
  proof (cases "pc = []")
    case True
    then show ?thesis using "1.prems" by (simp add: EvalLoop.simps)
  next
    case False
    then obtain opcode vch pc' s1 where g: "GetOp2 pc = Some (opcode, vch, pc')"
      and st: "EvalStep CheckLowS checker flags script opcode vch s = Inr s1"
      and rest: "EvalLoop CheckLowS checker flags script pc' s1 = Inr s'"
      using "1.prems"(1) by (subst (asm) EvalLoop.simps) (auto split: option.splits prod.splits sum.splits)
    have "machine_ok s1" using EvalStep_ok [OF st] "1.prems"(2) by (simp add: machine_ok_def)
    then show ?thesis using "1.IH" [OF False g refl refl st rest] by simp
  qed
qed

section \<open>Pay to script hash\<close>

lemma EvalLoop_read:
  "GetOp2 pc = Some (opcode, vch, pc') \<Longrightarrow>
   EvalLoop CheckLowS checker flags script pc s =
     (case EvalStep CheckLowS checker flags script opcode vch s of Inl e \<Rightarrow> Inl e
      | Inr s' \<Rightarrow> EvalLoop CheckLowS checker flags script pc' s')"
  by (subst EvalLoop.simps) (auto simp: GetOp2_def)

lemma EvalLoop_Nil [simp]: "EvalLoop CheckLowS checker flags script [] s = Inr s"
  by (simp add: EvalLoop.simps)

text \<open>The bytes of a P2SH output between the opcodes.\<close>

definition script_hash :: "bytes \<Rightarrow> bytes" where
  "script_hash script = take 20 (drop 2 script)"

lemma P2SH_shape:
  assumes "IsPayToScriptHash script"
  shows "script = OP_HASH160 # 0x14 # script_hash script @ [OP_EQUAL]" "length (script_hash script) = 20"
proof -
  have len: "length script = 23" and b: "script ! 0 = OP_HASH160" "script ! 1 = 0x14" "script ! 22 = OP_EQUAL"
    using assms by (simp_all add: IsPayToScriptHash_def)
  show l: "length (script_hash script) = 20" using len by (simp add: script_hash_def)
  show "script = OP_HASH160 # 0x14 # script_hash script @ [OP_EQUAL]"
  proof (rule nth_equalityI)
    fix i assume "i < length script"
    then consider "i = 0" | "i = 1" | "2 \<le> i" "i < 22" | "i = 22" using len by linarith
    then show "script ! i = (OP_HASH160 # 0x14 # script_hash script @ [OP_EQUAL]) ! i"
    proof cases
      case 3
      then have "i = Suc (Suc (i - 2))" "i - 2 < 20" by linarith+
      then obtain j where "i = Suc (Suc j)" "j < 20" by blast
      then show ?thesis using len l by (simp add: nth_append script_hash_def)
    qed (use b len l in \<open>simp_all add: nth_append numeral_eq_Suc\<close>)
  qed (use len l in simp)
qed

lemma EvalScript_P2SH:
  assumes "IsPayToScriptHash script"
  shows "EvalScript CheckLowS checker flags stack script =
    (case stack of [] \<Rightarrow> Inl SCRIPT_ERR_INVALID_STACK_OPERATION
     | v # r \<Rightarrow> if length stack \<ge> 1000 then Inl SCRIPT_ERR_STACK_SIZE
                else Inr (bool_vch (Hash160 v = script_hash script) # r))"
proof -
  let ?h = "script_hash script"
  have h: "length ?h = 20" and s: "script = OP_HASH160 # 0x14 # ?h @ [OP_EQUAL]" by (rule P2SH_shape [OF assms])+
  have g1: "GetOp2 script = Some (OP_HASH160, [], 0x14 # ?h @ [OP_EQUAL])"
    by (subst s) (simp add: GetOp2_def)
  have g2: "GetOp2 (0x14 # ?h @ [OP_EQUAL]) = Some (0x14, ?h, [OP_EQUAL])"
    using h by (simp add: GetOp2_def)
  have g3: "GetOp2 [OP_EQUAL] = Some (OP_EQUAL, [], [])" by (simp add: GetOp2_def)
  have m: "CheckMinimalPush ?h 0x14" using h by (simp add: CheckMinimalPush_def)
  have len: "length script = 23" using assms by (simp add: IsPayToScriptHash_def)
  let ?s = "\<lambda>st n. \<lparr>es_stack = st, es_altstack = [], es_vfExec = [], es_nOpCount = n\<rparr>"
  have e1: "EvalStep CheckLowS checker flags script OP_HASH160 [] (?s stack 0) =
      (case stack of [] \<Rightarrow> Inl SCRIPT_ERR_INVALID_STACK_OPERATION
       | v # r \<Rightarrow> if length stack > 1000 then Inl SCRIPT_ERR_STACK_SIZE else Inr (?s (Hash160 v # r) 1))"
    by (simp add: EvalStep_def EvalOp_def op_hash_eq Let_def disabled_opcodes_def Hash_SHA256 split: list.split)
  have e2: "EvalStep CheckLowS checker flags script 0x14 ?h (?s st 1) =
      (if length st \<ge> 1000 then Inl SCRIPT_ERR_STACK_SIZE else Inr (?s (?h # st) 1))" for st
    using h by (simp add: EvalStep_def Let_def disabled_opcodes_def m MAX_SCRIPT_ELEMENT_SIZE_def less_Suc_eq_le)
  have e3: "EvalStep CheckLowS checker flags script OP_EQUAL [] (?s (x # v # r) 1) =
      (if length r \<ge> 1000 then Inl SCRIPT_ERR_STACK_SIZE else Inr (?s (bool_vch (v = x) # r) 2))" for x v r
    by (simp add: EvalStep_def EvalOp_def op_equal_def Let_def disabled_opcodes_def less_Suc_eq_le)
  show ?thesis
    using len by (simp add: EvalScript_def EvalLoop_read [OF g1] EvalLoop_read [OF g2] EvalLoop_read [OF g3]
        e1 e2 e3 MAX_SCRIPT_SIZE_def split: list.split)
qed

section \<open>Errors are never reported as success\<close>

lemma stack_num_error: "stack_num vch m n = Inl e \<Longrightarrow> e = SCRIPT_ERR_UNKNOWN_ERROR"
  by (auto simp: stack_num_def split: sum.splits)

lemma sig_encodings_error: "sig_encodings CheckLowS flags sig key = (False, e) \<Longrightarrow> e \<noteq> SCRIPT_ERR_OK"
  by (auto simp: sig_encodings_def CheckSignatureEncoding_def CheckPubKeyEncoding_def IsLowDERSignature_def
      split: if_splits)

lemma multisig_loop_error:
  "multisig_loop CheckLowS checker flags script sigs keys = Inl e \<Longrightarrow> e \<noteq> SCRIPT_ERR_OK"
  by (induction CheckLowS checker flags script sigs keys rule: multisig_loop.induct)
     (auto simp: Let_def dest: sig_encodings_error split: prod.splits bool.splits if_splits)

named_theorems op_errors

lemma basic_op_errors [op_errors]:
  "op_push_value opcode s = Inl e \<Longrightarrow> e \<noteq> SCRIPT_ERR_OK"
  "op_nop_n flags s = Inl e \<Longrightarrow> e \<noteq> SCRIPT_ERR_OK"
  "op_control opcode fExec s = Inl e \<Longrightarrow> e \<noteq> SCRIPT_ERR_OK"
  "op_equal opcode s = Inl e \<Longrightarrow> e \<noteq> SCRIPT_ERR_OK"
  "op_hash opcode s = Inl e \<Longrightarrow> e \<noteq> SCRIPT_ERR_OK"
  by (auto simp: op_push_value_def op_nop_n_def op_control_def op_equal_def op_hash_def Let_def
      split: if_splits list.splits)

lemma op_stack_a_error [op_errors]: "op_stack_a opcode s = Inl e \<Longrightarrow> e \<noteq> SCRIPT_ERR_OK"
  by (auto simp: op_stack_a_def Let_def split: if_splits list.splits)

lemma op_stack_b_error [op_errors]: "op_stack_b opcode m s = Inl e \<Longrightarrow> e \<noteq> SCRIPT_ERR_OK"
  by (auto simp: op_stack_b_def Let_def dest: stack_num_error split: if_splits list.splits sum.splits)

lemma numeric_op_errors [op_errors]:
  "op_checklocktimeverify checker flags m s = Inl e \<Longrightarrow> e \<noteq> SCRIPT_ERR_OK"
  "op_unary_num opcode m s = Inl e \<Longrightarrow> e \<noteq> SCRIPT_ERR_OK"
  "op_binary_num opcode m s = Inl e \<Longrightarrow> e \<noteq> SCRIPT_ERR_OK"
  "op_within m s = Inl e \<Longrightarrow> e \<noteq> SCRIPT_ERR_OK"
  by (auto simp: op_checklocktimeverify_def op_unary_num_def op_binary_num_def op_within_def Let_def
      dest: stack_num_error split: if_splits list.splits sum.splits)

lemma sig_op_errors [op_errors]:
  "op_checksig CheckLowS checker flags script opcode s = Inl e \<Longrightarrow> e \<noteq> SCRIPT_ERR_OK"
  "op_checkmultisig CheckLowS checker flags m script opcode s = Inl e \<Longrightarrow> e \<noteq> SCRIPT_ERR_OK"
  by (auto simp: op_checksig_def op_checkmultisig_def Let_def
      dest: sig_encodings_error multisig_loop_error stack_num_error
      split: if_splits list.splits sum.splits prod.splits bool.splits)

definition reports :: "eval_result \<Rightarrow> bool" where
  "reports r \<longleftrightarrow> r \<noteq> Inl SCRIPT_ERR_OK"

lemma ops_report:
  "reports (op_push_value opcode s)" "reports (op_checklocktimeverify checker flags m s)"
  "reports (op_nop_n flags s)" "reports (op_control opcode fExec s)" "reports (op_stack_a opcode s)"
  "reports (op_stack_b opcode m s)" "reports (op_equal opcode s)" "reports (op_unary_num opcode m s)"
  "reports (op_binary_num opcode m s)" "reports (op_within m s)" "reports (op_hash opcode s)"
  "reports (op_checksig CheckLowS checker flags script opcode s)"
  "reports (op_checkmultisig CheckLowS checker flags m script opcode s)" "reports (Inr s)"
  "reports (Inl SCRIPT_ERR_BAD_OPCODE)"
  by (auto simp: reports_def dest: op_errors)

lemma EvalOp_error: "EvalOp CheckLowS checker flags script fExec opcode s = Inl e \<Longrightarrow> e \<noteq> SCRIPT_ERR_OK"
proof -
  have "reports (EvalOp CheckLowS checker flags script fExec opcode s)"
    by (simp add: EvalOp_def Let_def if_distrib [of reports] ops_report cong del: if_cong)
  then show "EvalOp CheckLowS checker flags script fExec opcode s = Inl e \<Longrightarrow> e \<noteq> SCRIPT_ERR_OK"
    by (auto simp: reports_def)
qed

lemma EvalStep_error: "EvalStep CheckLowS checker flags script opcode vch s = Inl e \<Longrightarrow> e \<noteq> SCRIPT_ERR_OK"
  unfolding EvalStep_def Let_def by (auto dest: EvalOp_error split: if_splits sum.splits)

lemma EvalLoop_error: "EvalLoop CheckLowS checker flags script pc s = Inl e \<Longrightarrow> e \<noteq> SCRIPT_ERR_OK"
proof (induction CheckLowS checker flags script pc s rule: EvalLoop.induct)
  case (1 CheckLowS checker flags script pc s)
  show ?case
  proof (cases "pc = [] \<or> GetOp2 pc = None")
    case True
    then show ?thesis using "1.prems" by (subst (asm) EvalLoop.simps) (auto split: if_splits)
  next
    case False
    then obtain opcode vch pc' where g: "GetOp2 pc = Some (opcode, vch, pc')" by auto
    show ?thesis
    proof (cases "EvalStep CheckLowS checker flags script opcode vch s")
      case (Inl a)
      then show ?thesis using "1.prems" EvalStep_error [OF Inl] by (simp add: EvalLoop_read [OF g])
    next
      case (Inr s1)
      then have "EvalLoop CheckLowS checker flags script pc' s1 = Inl e" using "1.prems" by (simp add: EvalLoop_read [OF g])
      then show ?thesis using "1.IH" [OF _ g refl refl Inr] False by blast
    qed
  qed
qed

lemma EvalScript_error: "EvalScript CheckLowS checker flags stack script = Inl e \<Longrightarrow> e \<noteq> SCRIPT_ERR_OK"
  by (auto simp: EvalScript_def dest: EvalLoop_error split: if_splits sum.splits)

lemma EvalScript_unspendable:
  assumes "IsUnspendable script"
  shows "EvalScript CheckLowS checker flags stack script =
    Inl (if length script > MAX_SCRIPT_SIZE then SCRIPT_ERR_SCRIPT_SIZE else SCRIPT_ERR_OP_RETURN)"
proof (cases "length script > MAX_SCRIPT_SIZE")
  case False
  then obtain r where s: "script = OP_RETURN # r" using assms by (cases script) (auto simp: IsUnspendable_def)
  have g: "GetOp2 script = Some (OP_RETURN, [], r)" by (simp add: s GetOp2_def)
  show ?thesis using False
    by (simp add: EvalScript_def EvalLoop_read [OF g] EvalStep_def EvalOp_def op_control_def Let_def
        disabled_opcodes_def)
qed (simp add: EvalScript_def)

lemma CastToBool_bool_vch [simp]: "CastToBool (bool_vch b) = b"
  by (simp add: bool_vch_def vchTrue_def vchFalse_def)

section \<open>The greedy multisignature loop\<close>

definition sig_matching :: "sig_checker \<Rightarrow> bytes \<Rightarrow> bytes list \<Rightarrow> bytes list \<Rightarrow> bool" where
  "sig_matching checker script sigs keys \<longleftrightarrow>
     (\<exists>ks. subseq ks keys \<and> list_all2 (\<lambda>sig key. ck_CheckSig checker sig key script) sigs ks)"

lemma sig_matching_length: "sig_matching checker script sigs keys \<Longrightarrow> length sigs \<le> length keys"
  by (metis sig_matching_def list_all2_lengthD list_emb_length)

lemma sig_matching_Nil [simp]: "sig_matching checker script [] keys"
  by (auto simp: sig_matching_def)

lemma sig_matching_miss:
  assumes "\<not> ck_CheckSig checker sig key script"
  shows "sig_matching checker script (sig # sigs) (key # keys) \<longleftrightarrow> sig_matching checker script (sig # sigs) keys"
proof
  assume "sig_matching checker script (sig # sigs) (key # keys)"
  then obtain k ks where k: "subseq (k # ks) (key # keys)" "ck_CheckSig checker sig k script"
    and l: "list_all2 (\<lambda>sig key. ck_CheckSig checker sig key script) sigs ks"
    by (auto simp: sig_matching_def list_all2_Cons1)
  then have "subseq (k # ks) keys" using assms by (auto split: if_splits)
  then show "sig_matching checker script (sig # sigs) keys" using k(2) l by (auto simp: sig_matching_def)
qed (auto simp: sig_matching_def)

lemma sig_matching_hit:
  assumes "ck_CheckSig checker sig key script"
  shows "sig_matching checker script (sig # sigs) (key # keys) \<longleftrightarrow> sig_matching checker script sigs keys"
proof
  assume "sig_matching checker script (sig # sigs) (key # keys)"
  then obtain k ks where k: "subseq (k # ks) (key # keys)"
    and l: "list_all2 (\<lambda>sig key. ck_CheckSig checker sig key script) sigs ks"
    by (auto simp: sig_matching_def list_all2_Cons1)
  have "subseq ks keys" using k by (auto dest: subseq_Cons' split: if_splits)
  then show "sig_matching checker script sigs keys" using l by (auto simp: sig_matching_def)
next
  assume "sig_matching checker script sigs keys"
  then obtain ks where "subseq ks keys" "list_all2 (\<lambda>sig key. ck_CheckSig checker sig key script) sigs ks"
    by (auto simp: sig_matching_def)
  then show "sig_matching checker script (sig # sigs) (key # keys)"
    unfolding sig_matching_def using assms by (intro exI [of _ "key # ks"]) simp
qed

lemma multisig_loop_matching:
  assumes "\<forall>sig \<in> set sigs. \<forall>key \<in> set keys. fst (sig_encodings CheckLowS flags sig key)"
    "length sigs \<le> length keys"
  shows "multisig_loop CheckLowS checker flags script sigs keys = Inr (sig_matching checker script sigs keys)"
  using assms
proof (induction CheckLowS checker flags script sigs keys rule: multisig_loop.induct)
  case (3 CheckLowS checker flags script sig sigs key keys)
  let ?ok = "ck_CheckSig checker sig key script"
  let ?sigs = "if ?ok then sigs else sig # sigs"
  obtain e where enc: "sig_encodings CheckLowS flags sig key = (True, e)"
    using "3.prems"(1) by (cases "sig_encodings CheckLowS flags sig key") auto
  have m: "sig_matching checker script (sig # sigs) (key # keys) \<longleftrightarrow> sig_matching checker script ?sigs keys"
    using sig_matching_hit [of checker sig key script sigs keys]
      sig_matching_miss [of checker sig key script sigs keys] by simp
  show ?case
  proof (cases "length ?sigs > length keys")
    case True
    then have "\<not> sig_matching checker script ?sigs keys" by (meson leD sig_matching_length)
    then show ?thesis using True enc m by (simp add: Let_def)
  next
    case False
    have "multisig_loop CheckLowS checker flags script ?sigs keys = Inr (sig_matching checker script ?sigs keys)"
    proof (rule "3.IH" [OF enc [symmetric] refl refl refl])
      show "\<forall>s \<in> set ?sigs. \<forall>k \<in> set keys. fst (sig_encodings CheckLowS flags s k)" using "3.prems"(1) by auto
    qed (use False in auto)
    then show ?thesis using False enc m by (simp add: Let_def)
  qed
qed auto

section \<open>Signature encodings\<close>

text \<open>A DER integer that is positive and has no superfluous zero byte, and the encoding of a pair of them.\<close>

definition der_int :: "bytes \<Rightarrow> bool" where
  "der_int v \<longleftrightarrow> v \<noteq> [] \<and> v ! 0 AND 0x80 = 0 \<and> (length v > 1 \<and> v ! 0 = 0 \<longrightarrow> v ! 1 AND 0x80 \<noteq> 0)"

definition der_signature :: "bytes \<Rightarrow> bytes \<Rightarrow> u8 \<Rightarrow> bytes" where
  "der_signature R S hashtype =
     [0x30, of_nat (length R + length S + 4), 0x02, of_nat (length R)] @ R @
     [0x02, of_nat (length S)] @ S @ [hashtype]"

lemma der_signature_nth:
  fixes R S :: bytes and h :: u8
  defines "sig \<equiv> der_signature R S h"
  shows "sig ! 0 = 0x30" "sig ! 1 = of_nat (length R + length S + 4)" "sig ! 2 = 0x02"
    "sig ! 3 = of_nat (length R)" "i < length R \<Longrightarrow> sig ! (4 + i) = R ! i"
    "sig ! (length R + 4) = 0x02" "sig ! (5 + length R) = of_nat (length S)"
    "i < length S \<Longrightarrow> sig ! (length R + 6 + i) = S ! i" "length sig = length R + length S + 7"
  by (simp_all add: sig_def der_signature_def nth_append nth_Cons' numeral_eq_Suc)

lemma IsValidSignatureEncoding_complete:
  assumes "der_int R" "der_int S" "length R + length S \<le> 66"
  shows "IsValidSignatureEncoding (der_signature R S h)"
proof -
  let ?sig = "der_signature R S h"
  have ne: "0 < length R" "0 < length S" using assms by (auto simp: der_int_def)
  have lR: "unat (?sig ! 3) = length R" and lS: "unat (?sig ! (5 + length R)) = length S"
    and lT: "unat (?sig ! 1) = length R + length S + 4"
    using assms(3) by (simp_all only: der_signature_nth unat_of_nat) simp_all
  have r: "?sig ! 4 = R ! 0" "1 < length R \<Longrightarrow> ?sig ! 5 = R ! 1" "?sig ! (length R + 6) = S ! 0"
    "1 < length S \<Longrightarrow> ?sig ! (length R + 7) = S ! 1"
    using der_signature_nth(5) [of 0 R S h] der_signature_nth(5) [of 1 R S h]
      der_signature_nth(8) [of 0 S R h] der_signature_nth(8) [of 1 S R h] ne
    by (simp_all add: add.commute)
  have two: "\<not> length R + length S < 2" using ne by linarith
  show ?thesis
    unfolding IsValidSignatureEncoding_def lR Let_def lS lT
    using assms ne r two by (auto simp: der_signature_nth der_int_def)
qed

lemma IsValidSignatureEncoding_sound:
  assumes "IsValidSignatureEncoding sig"
  obtains R S h where "der_int R" "der_int S" "length R + length S \<le> 66" "sig = der_signature R S h"
proof -
  define lenR where "lenR = unat (sig ! 3)"
  define lenS where "lenS = unat (sig ! (5 + lenR))"
  have len: "length sig = lenR + lenS + 7" "length sig \<le> 73" "0 < lenR" "0 < lenS"
    and b: "sig ! 0 = 0x30" "unat (sig ! 1) = length sig - 3" "sig ! 2 = 0x02" "sig ! (lenR + 4) = 0x02"
    and r: "sig ! 4 AND 0x80 = 0" "lenR > 1 \<and> sig ! 4 = 0 \<longrightarrow> sig ! 5 AND 0x80 \<noteq> 0"
    and s: "sig ! (lenR + 6) AND 0x80 = 0" "lenS > 1 \<and> sig ! (lenR + 6) = 0 \<longrightarrow> sig ! (lenR + 7) AND 0x80 \<noteq> 0"
    using assms by (auto simp: IsValidSignatureEncoding_def Let_def lenR_def lenS_def split: if_splits)
  define R S where "R = take lenR (drop 4 sig)" and "S = take lenS (drop (6 + lenR) sig)"
  have l: "length R = lenR" "length S = lenS" using len by (simp_all add: R_def S_def)
  have "sig = sig ! 0 # sig ! 1 # sig ! 2 # sig ! 3 # drop 4 sig"
    using len by (simp add: Cons_nth_drop_Suc numeral_eq_Suc)
  also have "drop 4 sig = R @ drop (4 + lenR) sig"
    using append_take_drop_id [of lenR "drop 4 sig"] by (simp add: R_def add.commute)
  also have "drop (4 + lenR) sig = sig ! (4 + lenR) # sig ! (5 + lenR) # drop (6 + lenR) sig"
    using len by (simp add: Cons_nth_drop_Suc numeral_eq_Suc)
  also have "drop (6 + lenR) sig = S @ drop (6 + lenR + lenS) sig"
    using append_take_drop_id [of lenS "drop (6 + lenR) sig"] by (simp add: S_def add.commute add.left_commute)
  also have "drop (6 + lenR + lenS) sig = [sig ! (6 + lenR + lenS)]"
    using len Cons_nth_drop_Suc [of "6 + lenR + lenS" sig] by simp
  finally have eq: "sig = sig ! 0 # sig ! 1 # sig ! 2 # sig ! 3 # R @ sig ! (4 + lenR) # sig ! (5 + lenR) #
      S @ [sig ! (6 + lenR + lenS)]" .
  have "sig ! 1 = of_nat (length R + length S + 4)" "sig ! 3 = of_nat (length R)" "sig ! (5 + lenR) = of_nat (length S)"
    using b(2) l len by (simp_all only: word_unat_eq_iff unat_of_nat lenR_def [symmetric] lenS_def [symmetric]) simp_all
  then have "sig = der_signature R S (sig ! (6 + lenR + lenS))"
    using b(1,3,4) by (subst eq) (simp add: der_signature_def add.commute)
  moreover have "der_int R" "der_int S"
    using l len r s by (auto simp: der_int_def R_def S_def add.commute)
  ultimately show thesis using that len l by simp
qed

section \<open>Numbers pushed by scripts\<close>

lemma EvalScript_single_push:
  assumes g: "GetOp2 script = Some (opcode, vch, [])" and "length script \<le> MAX_SCRIPT_SIZE"
    and st: "\<And>s. es_vfExec s = [] \<Longrightarrow> length (es_stack s) + length (es_altstack s) < 1000 \<Longrightarrow>
      EvalStep CheckLowS checker flags script opcode vch s = Inr (s\<lparr>es_stack := v # es_stack s\<rparr>)"
    and "length stack < 1000"
  shows "EvalScript CheckLowS checker flags stack script = Inr (v # stack)"
  using assms(2,4) by (simp add: EvalScript_def EvalLoop_read [OF g] st)

lemma small_number_opcode:
  fixes n :: int
  defines "opc \<equiv> of_int (n + 80) :: opcodetype"
  assumes "n = - 1 \<or> (n \<ge> 1 \<and> n \<le> 16)"
  shows "uint opc = n + 80" "opc = OP_1NEGATE \<or> (OP_1 \<le> opc \<and> opc \<le> OP_16)" "\<not> opc > OP_16"
    "\<not> opc \<le> OP_PUSHDATA4" "opc \<notin> set disabled_opcodes"
proof -
  show u: "uint opc = n + 80" unfolding opc_def using assms(2) by (subst uint_word_of_int_eq, subst take_bit_int_eq_self) auto
  show "opc = OP_1NEGATE \<or> (OP_1 \<le> opc \<and> opc \<le> OP_16)" "\<not> opc > OP_16" "\<not> opc \<le> OP_PUSHDATA4"
    "opc \<notin> set disabled_opcodes"
    using assms(2) u by (auto simp: word_uint_eq_iff word_le_def word_less_def disabled_opcodes_def)
qed

lemma EvalStep_small_number:
  assumes "n = - 1 \<or> (n \<ge> 1 \<and> n \<le> 16)" "es_vfExec s = []" "length (es_stack s) + length (es_altstack s) < 1000"
  shows "EvalStep CheckLowS checker flags script (of_int (n + 80)) [] s = Inr (s\<lparr>es_stack := serialize n # es_stack s\<rparr>)"
proof -
  define opc where "opc = (of_int (n + 80) :: opcodetype)"
  note o = small_number_opcode [OF assms(1), folded opc_def]
  have "EvalOp CheckLowS checker flags script True opc s = op_push_value opc s"
    unfolding EvalOp_def Let_def using o(2) by (subst if_P) simp_all
  then show ?thesis
    using o assms(2,3) unfolding opc_def [symmetric] by (simp add: EvalStep_def op_push_value_def)
qed

lemma serialize_not_small:
  assumes "\<bar>n\<bar> < 2 ^ 63" "\<not> (n = - 1 \<or> (n \<ge> 0 \<and> n \<le> 16))" "length (serialize n) = 1"
  shows "\<not> (serialize n ! 0 \<ge> 1 \<and> serialize n ! 0 \<le> 16)" "serialize n ! 0 \<noteq> 0x81"
proof -
  obtain b where b: "serialize n = [b]" using assms(3) by (cases "serialize n") auto
  have n: "n = (if 128 \<le> unat b then - int (unat b mod 128) else int (unat b mod 128))"
    using script_num_serialize(1) [OF assms(1)] b by (auto simp: script_num_def Let_def simp flip: magnitude_bits)
  show "serialize n ! 0 \<noteq> 0x81" using n b assms(2) by auto
  show "\<not> (serialize n ! 0 \<ge> 1 \<and> serialize n ! 0 \<le> 16)"
  proof
    assume "serialize n ! 0 \<ge> 1 \<and> serialize n ! 0 \<le> 16"
    then have u: "unat b \<le> 16" using b by (simp add: word_le_nat_alt)
    then have "n = int (unat b)" using n by simp
    then show False using u assms(2) by linarith
  qed
qed

lemma EvalScript_push_int64:
  assumes "\<bar>n\<bar> < 2 ^ 63" "length stack < 1000"
  shows "EvalScript CheckLowS checker flags stack (push_int64 [] n) = Inr (serialize n # stack)"
proof -
  consider "n = - 1 \<or> (n \<ge> 1 \<and> n \<le> 16)" | "n = 0" | "\<not> (n = - 1 \<or> (n \<ge> 0 \<and> n \<le> 16))" by linarith
  then show ?thesis
  proof cases
    case 1
    then have s: "push_int64 [] n = [of_int (n + 80)]" by (simp add: push_int64_def)
    have "GetOp2 [of_int (n + 80)] = Some (of_int (n + 80), [], [])"
      using small_number_opcode(4) [OF 1] by (simp add: GetOp2_def)
    then show ?thesis unfolding s
      by (rule EvalScript_single_push) (use 1 assms(2) EvalStep_small_number in \<open>simp_all add: MAX_SCRIPT_SIZE_def\<close>)
  next
    case 2
    then have s: "push_int64 [] n = [OP_0]" by (simp add: push_int64_def)
    have "GetOp2 [OP_0] = Some (OP_0, [], [])" by (simp add: GetOp2_def)
    then show ?thesis unfolding s
      by (rule EvalScript_single_push)
         (use 2 assms(2) in \<open>simp_all add: MAX_SCRIPT_SIZE_def EvalStep_def Let_def disabled_opcodes_def
            CheckMinimalPush_def serialize_def\<close>)
  next
    case 3
    let ?b = "serialize n"
    have l: "length ?b \<le> 9" by (rule length_serialize)
    have nz: "?b \<noteq> []" using script_num_serialize(1) [OF assms(1)] 3 by (auto simp: script_num_def)
    have s: "push_int64 [] n = push_data [] ?b" using 3 by (auto simp: push_int64_def)
    have g: "GetOp2 (push_data [] ?b) = Some (of_nat (length ?b), ?b, [])"
      using GetOp2_push_data [of ?b "[]"] l by simp
    have "unat (of_nat (length ?b) :: u8) = length ?b" using l by (simp add: unat_of_nat)
    then have op: "CheckMinimalPush ?b (of_nat (length ?b))" "\<not> (of_nat (length ?b) :: u8) > OP_16"
      "(of_nat (length ?b) :: u8) \<le> OP_PUSHDATA4" "of_nat (length ?b) \<notin> set disabled_opcodes"
      using serialize_not_small [OF assms(1) 3] l nz
      by (auto simp: CheckMinimalPush_def word_le_nat_alt word_less_nat_alt word_unat_eq_iff disabled_opcodes_def)
    show ?thesis unfolding s
      using g by (rule EvalScript_single_push)
         (use op assms(2) l in \<open>simp_all add: EvalStep_def Let_def MAX_SCRIPT_ELEMENT_SIZE_def MAX_SCRIPT_SIZE_def push_data_def\<close>)
  qed
qed

section \<open>Error codes that are not produced\<close>

lemma high_s_not_reported:
  "sig_encodings CheckLowS flags sig key \<noteq> (False, SCRIPT_ERR_SIG_HIGH_S)"
  by (auto simp: sig_encodings_def CheckSignatureEncoding_def CheckPubKeyEncoding_def IsLowDERSignature_def
      split: if_splits)

lemma clean_stack_has_no_text: "ScriptErrorString SCRIPT_ERR_CLEANSTACK = ''unknown error''"
  by code_simp

section \<open>Properties\<close>

text \<open>
  C23: Whatever a script does, an evaluation that succeeds leaves at most 1000 elements on the stack,
  none longer than 520 bytes, provided the stack it starts from is so bounded.
\<close>

theorem stack_limits:
  assumes "EvalScript CheckLowS checker flags stack script = Inr stack'"
    and "length stack \<le> 1000" "\<forall>x \<in> set stack. length x \<le> MAX_SCRIPT_ELEMENT_SIZE"
  shows "length stack' \<le> 1000 \<and> (\<forall>x \<in> set stack'. length x \<le> MAX_SCRIPT_ELEMENT_SIZE)"
proof -
  obtain s where l: "EvalLoop CheckLowS checker flags script script
      \<lparr>es_stack = stack, es_altstack = [], es_vfExec = [], es_nOpCount = 0\<rparr> = Inr s" "stack' = es_stack s"
    using assms(1) by (auto simp: EvalScript_def split: if_splits sum.splits)
  have "machine_ok s"
    using EvalLoop_ok [OF l(1)] assms(2,3) by (simp add: machine_ok_def state_ok_def elems_ok_def)
  then show ?thesis using l(2) by (simp add: machine_ok_def state_ok_def elems_ok_def)
qed

theorem stack_limits_witness:
  "EvalScript (\<lambda>_. True) BaseSignatureChecker 0 [] [OP_1, OP_DUP] = Inr [[1], [1]] \<and>
   length [[1], [1 :: u8]] \<le> 1000"
proof -
  have e: "EvalScript (\<lambda>_. True) BaseSignatureChecker 0 [] [OP_1, OP_DUP] = Inr [[1], [1]]" by code_simp
  show ?thesis using stack_limits [OF e] e by simp
qed

text \<open>
  Verification always comes to a verdict, and the error code agrees with it: the assertions in
  \<open>VerifyScript\<close> hold whenever the clean-stack flag comes with the P2SH flag, and the code reported
  is the success code exactly when the scripts are accepted.
\<close>

theorem verification_verdict:
  assumes "flag flags SCRIPT_VERIFY_CLEANSTACK \<longrightarrow> flag flags SCRIPT_VERIFY_P2SH"
  shows "\<exists>ok e. VerifyScript CheckLowS checker flags scriptSig scriptPubKey = Some (ok, e) \<and>
    (ok \<longleftrightarrow> e = SCRIPT_ERR_OK)"
proof -
  let ?eval = "EvalScript CheckLowS checker flags"
  have fc: "\<exists>e. final_checks flags st = Some (e = SCRIPT_ERR_OK, e)" for st
    using assms by (auto simp: final_checks_def)
  have ne: "stack \<noteq> []" if "?eval stack scriptPubKey = Inr r" "IsPayToScriptHash scriptPubKey" for stack r
    using that EvalScript_P2SH [OF that(2), of CheckLowS checker flags stack] by (auto split: list.splits)
  show ?thesis
    unfolding VerifyScript_def
    by (auto simp: fc dest: EvalScript_error ne split: sum.split list.split)
qed

text \<open>
  C24: An output that \<open>IsUnspendable\<close> lets the node forget can never be spent: evaluating its script
  fails on every stack, and no input satisfies it.
\<close>

theorem unspendable_outputs:
  assumes "IsUnspendable scriptPubKey"
  shows "(\<exists>e. EvalScript CheckLowS checker flags stack scriptPubKey = Inl e) \<and>
    (\<exists>e. VerifyScript CheckLowS checker flags scriptSig scriptPubKey = Some (False, e))"
  by (auto simp: VerifyScript_def EvalScript_unspendable [OF assms] split: sum.split)

theorem unspendable_outputs_witness:
  "\<exists>e. VerifyScript (\<lambda>_. True) BaseSignatureChecker 0 [OP_1] [OP_RETURN] = Some (False, e)"
  using unspendable_outputs [of "[OP_RETURN]" "\<lambda>_. True" BaseSignatureChecker 0 "[]" "[OP_1]"]
  by (simp add: IsUnspendable_def)

text \<open>
  C22: What it takes to spend a pay-to-script-hash output under the P2SH rule: the input only pushes
  data, its last push is a script with the hash the output names, and that script evaluates to true
  on the other pushes (and leaves nothing else when the clean-stack flag is set).
\<close>

theorem pay_to_script_hash:
  assumes "flag flags SCRIPT_VERIFY_P2SH" "IsPayToScriptHash scriptPubKey"
  shows "VerifyScript CheckLowS checker flags scriptSig scriptPubKey = Some (True, SCRIPT_ERR_OK) \<longleftrightarrow>
    IsPushOnly scriptSig \<and>
    (\<exists>redeem stack v r. EvalScript CheckLowS checker flags [] scriptSig = Inr (redeem # stack) \<and>
       length stack < 999 \<and> Hash160 redeem = script_hash scriptPubKey \<and>
       EvalScript CheckLowS checker flags stack redeem = Inr (v # r) \<and> CastToBool v \<and>
       (flag flags SCRIPT_VERIFY_CLEANSTACK \<longrightarrow> r = []))"
  using assms(1)
  by (auto simp: VerifyScript_def EvalScript_P2SH [OF assms(2)] assms(2) final_checks_def
      split: sum.splits list.splits if_splits)

theorem pay_to_script_hash_witness:
  "VerifyScript (\<lambda>_. True) BaseSignatureChecker 1 [1, OP_1] (OP_HASH160 # 0x14 # Hash160 [OP_1] @ [OP_EQUAL]) =
     Some (True, SCRIPT_ERR_OK)"
proof -
  let ?spk = "OP_HASH160 # 0x14 # Hash160 [OP_1] @ [OP_EQUAL]"
  have len: "length (Hash160 [OP_1]) = 20" by (simp add: Hash_SHA256 length_RIPEMD160)
  then have p: "IsPayToScriptHash ?spk" by (simp add: IsPayToScriptHash_def nth_append numeral_eq_Suc)
  have e: "EvalScript (\<lambda>_. True) BaseSignatureChecker 1 [] [1, OP_1] = Inr [[OP_1]]"
    "EvalScript (\<lambda>_. True) BaseSignatureChecker 1 [] [OP_1] = Inr [[1]]" "IsPushOnly [1, OP_1]" by code_simp+
  show ?thesis
    using pay_to_script_hash [of 1 ?spk "\<lambda>_. True" BaseSignatureChecker "[1, OP_1]"] p e len
    by (simp add: flag_def script_hash_def)
qed

text \<open>
  C25: The greedy loop of CHECKMULTISIG is exact. When no encoding is refused, it accepts if and only
  if the signatures can be matched, in order, with a subsequence of the keys; giving up as soon as
  more signatures than keys are left loses nothing.
\<close>

theorem multisig_is_matching:
  assumes "\<forall>sig \<in> set sigs. \<forall>key \<in> set keys. fst (sig_encodings CheckLowS flags sig key)"
    "length sigs \<le> length keys"
  shows "multisig_loop CheckLowS checker flags script sigs keys =
    Inr (\<exists>ks. subseq ks keys \<and> list_all2 (\<lambda>sig key. ck_CheckSig checker sig key script) sigs ks)"
  using multisig_loop_matching [OF assms] by (simp add: sig_matching_def)

theorem multisig_is_matching_witness:
  "multisig_loop (\<lambda>_. True) (BaseSignatureChecker\<lparr>ck_CheckSig := \<lambda>sig key _. key = [2]\<rparr>) 0 [] [[]] [[1], [2]] = Inr True"
proof -
  let ?c = "BaseSignatureChecker\<lparr>ck_CheckSig := \<lambda>sig key _. key = [2]\<rparr>"
  have p: "\<forall>sig \<in> set [[]]. \<forall>key \<in> set [[1], [2]]. fst (sig_encodings (\<lambda>_. True) 0 sig key)"
    by (simp add: sig_encodings_def CheckSignatureEncoding_def CheckPubKeyEncoding_def flag_def)
  have "subseq [[2]] [[1], [2 :: u8]]" "list_all2 (\<lambda>sig key. ck_CheckSig ?c sig key []) [[]] [[2]]" by simp_all
  then have m: "\<exists>ks. subseq ks [[1], [2]] \<and> list_all2 (\<lambda>sig key. ck_CheckSig ?c sig key []) [[]] ks" by blast
  have l: "length [[] :: bytes] \<le> length [[1], [2 :: u8]]" by simp
  show ?thesis by (simp only: multisig_is_matching [OF p l] m)
qed

text \<open>
  C26: The strict signature check accepts exactly the canonical encodings: the header bytes and
  lengths, two positive minimal DER integers and one hash type byte, and nothing else.
\<close>

theorem strict_der:
  "IsValidSignatureEncoding sig \<longleftrightarrow>
   (\<exists>R S h. der_int R \<and> der_int S \<and> length R + length S \<le> 66 \<and> sig = der_signature R S h)"
  by (metis IsValidSignatureEncoding_complete IsValidSignatureEncoding_sound)

text \<open>
  A number written into a script with \<open>push_int64\<close> is, under every flag, the minimal push of
  its script number: evaluating the script puts that number on the stack, and it reads back equal.
\<close>

theorem pushed_number_evaluates:
  assumes "\<bar>n\<bar> < 2 ^ 63" "length stack < 1000"
  shows "EvalScript CheckLowS checker flags stack (push_int64 [] n) = Inr (serialize n # stack) \<and>
    (length (serialize n) \<le> 8 \<longrightarrow> stack_num (serialize n) True 8 = Inr n)"
  using EvalScript_push_int64 [OF assms] script_num_serialize [OF assms(1)]
  by (simp add: stack_num_def CScriptNum_eq)

end
