(* ===== verification/SigHash.thy ===== *)
theory SigHash
  imports Transaction Interpreter
begin

text \<open>
  Signatures on transactions: public keys (\<^verbatim>\<open>pubkey.h\<close>, over the operations of libsecp256k1, which are
  a parameter), the signature hash and the transaction signature checker of
  \<^verbatim>\<open>script/interpreter.cpp\<close>, which is the checker the script interpreter runs with. The serializer
  that edits the transaction on the fly is shown to write what serializing an edited copy would,
  so by the injectivity of the encoding a signature hash commits to what the copy keeps.
\<close>

section \<open>Public keys\<close>

record ('pk, 'sig) secp256k1 =
  ec_pubkey_parse :: "bytes \<Rightarrow> 'pk option"
  ecdsa_signature_parse_der :: "bytes \<Rightarrow> 'sig option"
  ecdsa_is_high :: "'sig \<Rightarrow> bool"
  ecdsa_normalize :: "'sig \<Rightarrow> 'sig"
  ecdsa_verify :: "'sig \<Rightarrow> uint256 \<Rightarrow> 'pk \<Rightarrow> bool"
  ec_pubkey_serialize_uncompressed :: "'pk \<Rightarrow> bytes"

type_synonym CPubKey = bytes

definition GetLen :: "u8 \<Rightarrow> nat" where
  "GetLen chHeader =
     (if chHeader = 2 \<or> chHeader = 3 then 33
      else if chHeader = 4 \<or> chHeader = 6 \<or> chHeader = 7 then 65 else 0)"

definition CPubKey_invalid :: CPubKey where "CPubKey_invalid = [0xFF]"

definition CPubKey_Set :: "bytes \<Rightarrow> CPubKey" where
  "CPubKey_Set v =
     (let len = (if v = [] then 0 else GetLen (hd v))
      in if len \<noteq> 0 \<and> len = length v then v else CPubKey_invalid)"

definition CPubKey_size :: "CPubKey \<Rightarrow> nat" where
  "CPubKey_size vch = GetLen (hd vch)"

definition CPubKey_IsValid :: "CPubKey \<Rightarrow> bool" where
  "CPubKey_IsValid vch \<longleftrightarrow> CPubKey_size vch > 0"

definition CPubKey_GetID :: "CPubKey \<Rightarrow> bytes" where
  "CPubKey_GetID vch = Hash160 (take (CPubKey_size vch) vch)"

definition CPubKey_IsCompressed :: "CPubKey \<Rightarrow> bool" where
  "CPubKey_IsCompressed vch \<longleftrightarrow> CPubKey_size vch = 33"

definition CPubKey_Verify :: "('pk, 'sig) secp256k1 \<Rightarrow> CPubKey \<Rightarrow> uint256 \<Rightarrow> bytes \<Rightarrow> bool" where
  "CPubKey_Verify secp vch hash vchSig =
     (if \<not> CPubKey_IsValid vch then False
      else case ec_pubkey_parse secp (take (CPubKey_size vch) vch) of None \<Rightarrow> False
      | Some pubkey \<Rightarrow>
        if length vchSig = 0 then False
        else (case ecdsa_signature_parse_der secp vchSig of None \<Rightarrow> False
              | Some sig \<Rightarrow> ecdsa_verify secp (ecdsa_normalize secp sig) hash pubkey))"

definition CPubKey_CheckLowS :: "('pk, 'sig) secp256k1 \<Rightarrow> bytes \<Rightarrow> bool" where
  "CPubKey_CheckLowS secp vchSig =
     (case ecdsa_signature_parse_der secp vchSig of None \<Rightarrow> False
      | Some sig \<Rightarrow> \<not> ecdsa_is_high secp sig)"

definition CPubKey_IsFullyValid :: "('pk, 'sig) secp256k1 \<Rightarrow> CPubKey \<Rightarrow> bool" where
  "CPubKey_IsFullyValid secp vch =
     (if \<not> CPubKey_IsValid vch then False
      else ec_pubkey_parse secp (take (CPubKey_size vch) vch) \<noteq> None)"

definition CPubKey_Decompress :: "('pk, 'sig) secp256k1 \<Rightarrow> CPubKey \<Rightarrow> CPubKey option" where
  "CPubKey_Decompress secp vch =
     (if \<not> CPubKey_IsValid vch then None
      else case ec_pubkey_parse secp (take (CPubKey_size vch) vch) of None \<Rightarrow> None
      | Some pubkey \<Rightarrow> Some (CPubKey_Set (ec_pubkey_serialize_uncompressed secp pubkey)))"

section \<open>The signature hash\<close>

definition NOT_AN_INPUT :: u32 where "NOT_AN_INPUT = - 1"

datatype sighash_error = Input_index_out_of_range | No_matching_output | Vector_index_undefined

definition SerializeScriptCode :: "bytes \<Rightarrow> bytes" where
  "SerializeScriptCode scriptCode = WriteCompactSize (of_nat (length scriptCode)) @ scriptCode"

record serializer =
  ss_scriptCode :: bytes
  ss_nIn :: u32
  fAnyoneCanPay :: bool
  fHashSingle :: bool
  fHashNone :: bool

definition CTransactionSignatureSerializer :: "bytes \<Rightarrow> u32 \<Rightarrow> u32 \<Rightarrow> serializer" where
  "CTransactionSignatureSerializer scriptCode nIn nHashType =
     \<lparr>ss_scriptCode = scriptCode, ss_nIn = nIn,
      fAnyoneCanPay = nHashType AND ucast SIGHASH_ANYONECANPAY \<noteq> 0,
      fHashSingle = (nHashType AND 0x1f = ucast SIGHASH_SINGLE),
      fHashNone = (nHashType AND 0x1f = ucast SIGHASH_NONE)\<rparr>"

text \<open>Reading an input at an index out of range is undefined in C++, hence \<open>None\<close>.\<close>

definition SerializeInput :: "'a CMutableTransaction_scheme \<Rightarrow> serializer \<Rightarrow> u32 \<Rightarrow> bytes option" where
  "SerializeInput txTo s nInput0 =
     (let nInput = (if fAnyoneCanPay s then ss_nIn s else nInput0); nIn = ss_nIn s
      in if unat nInput \<ge> length (vin txTo) \<or> nInput = NOT_AN_INPUT then None
         else Some (put_COutPoint (prevout (vin txTo ! unat nInput)) @
           (if nInput \<noteq> nIn then put_byte_vector [] else SerializeScriptCode (ss_scriptCode s)) @
           (if nInput \<noteq> nIn \<and> (fHashSingle s \<or> fHashNone s) then put_int32 0
            else ser_writedata32 (nSequence (vin txTo ! unat nInput)))))"

definition SerializeOutput :: "'a CMutableTransaction_scheme \<Rightarrow> serializer \<Rightarrow> u32 \<Rightarrow> bytes option" where
  "SerializeOutput txTo s nOutput =
     (if fHashSingle s \<and> nOutput \<noteq> ss_nIn s then Some (put_CTxOut CTxOut_null)
      else if unat nOutput \<ge> length (vout txTo) then None
      else Some (put_CTxOut (vout txTo ! unat nOutput)))"

text \<open>The counting loops over the inputs and the outputs.\<close>

fun serialize_loop :: "(u32 \<Rightarrow> bytes option) \<Rightarrow> nat \<Rightarrow> nat \<Rightarrow> bytes option" where
  "serialize_loop f i 0 = Some []"
| "serialize_loop f i (Suc n) = do { b \<leftarrow> f (of_nat i); bs \<leftarrow> serialize_loop f (Suc i) n; Some (b @ bs) }"

definition SerializeForSig :: "'a CMutableTransaction_scheme \<Rightarrow> serializer \<Rightarrow> bytes option" where
  "SerializeForSig txTo s =
     (let nInputs = (if fAnyoneCanPay s then 1 else of_nat (length (vin txTo))) :: u32;
          nOutputs = (if fHashNone s then 0 else if fHashSingle s then ss_nIn s + 1
                      else of_nat (length (vout txTo))) :: u32
      in do {
        ins \<leftarrow> serialize_loop (SerializeInput txTo s) 0 (unat nInputs);
        outs \<leftarrow> serialize_loop (SerializeOutput txTo s) 0 (unat nOutputs);
        Some (put_int32 (nVersion txTo) @ WriteCompactSize (ucast nInputs) @ ins @
          WriteCompactSize (ucast nOutputs) @ outs @ ser_writedata32 (nLockTime txTo) @
          (if nVersion txTo \<ge> 2 then
             put_vector put_JSDescription (vjoinsplit txTo) @
             (if length (vjoinsplit txTo) > 0 then
                put_blob (joinSplitPubKey txTo) @ put_blob (replicate 64 0) else [])
           else [])) })"

definition SignatureHash ::
  "bytes \<Rightarrow> 'a CMutableTransaction_scheme \<Rightarrow> u32 \<Rightarrow> u32 \<Rightarrow> sighash_error + uint256" where
  "SignatureHash scriptCode txTo nIn nHashType =
     (if unat nIn \<ge> length (vin txTo) \<and> nIn \<noteq> NOT_AN_INPUT then Inl Input_index_out_of_range
      else if nHashType AND 0x1f = ucast SIGHASH_SINGLE \<and> unat nIn \<ge> length (vout txTo)
      then Inl No_matching_output
      else case SerializeForSig txTo (CTransactionSignatureSerializer scriptCode nIn nHashType) of
             None \<Rightarrow> Inl Vector_index_undefined
           | Some txTmp \<Rightarrow> Inr (SerializeHash (txTmp @ ser_writedata32 nHashType)))"

section \<open>The transaction signature checker\<close>

definition CheckSig ::
  "('pk, 'sig) secp256k1 \<Rightarrow> 'a CMutableTransaction_scheme \<Rightarrow> u32 \<Rightarrow> bytes \<Rightarrow> bytes \<Rightarrow> bytes \<Rightarrow> bool" where
  "CheckSig secp txTo nIn vchSigIn vchPubKey scriptCode =
     (let pubkey = CPubKey_Set vchPubKey
      in if \<not> CPubKey_IsValid pubkey then False
      else if vchSigIn = [] then False
      else let nHashType = ucast (last vchSigIn); vchSig = butlast vchSigIn
      in case SignatureHash scriptCode txTo nIn nHashType of
           Inl _ \<Rightarrow> False
         | Inr sighash \<Rightarrow> CPubKey_Verify secp pubkey sighash vchSig)"

definition CheckLockTime :: "'a CMutableTransaction_scheme \<Rightarrow> u32 \<Rightarrow> int \<Rightarrow> bool" where
  "CheckLockTime txTo nIn n =
     (if \<not> ((uint (nLockTime txTo) < LOCKTIME_THRESHOLD \<and> n < LOCKTIME_THRESHOLD) \<or>
            (uint (nLockTime txTo) \<ge> LOCKTIME_THRESHOLD \<and> n \<ge> LOCKTIME_THRESHOLD)) then False
      else if n > uint (nLockTime txTo) then False
      else if CTxIn_IsFinal (vin txTo ! unat nIn) then False
      else True)"

definition TransactionSignatureChecker ::
  "('pk, 'sig) secp256k1 \<Rightarrow> 'a CMutableTransaction_scheme \<Rightarrow> u32 \<Rightarrow> sig_checker" where
  "TransactionSignatureChecker secp txTo nIn =
     \<lparr>ck_CheckSig = CheckSig secp txTo nIn, ck_CheckLockTime = CheckLockTime txTo nIn\<rparr>"

section \<open>The copy a signature hash is made of\<close>

text \<open>
  The transaction as it would be edited before signing: other inputs lose their scripts (and their
  sequence numbers, unless all outputs are signed), the input being signed gets the script code,
  outputs that are not signed are dropped or nulled, and the JoinSplit signature is blank.
\<close>

definition sighash_input :: "serializer \<Rightarrow> nat \<Rightarrow> CTxIn \<Rightarrow> CTxIn" where
  "sighash_input s i txin =
     (if i = unat (ss_nIn s) then txin\<lparr>scriptSig := ss_scriptCode s\<rparr>
      else txin\<lparr>scriptSig := [], nSequence := (if fHashSingle s \<or> fHashNone s then 0 else nSequence txin)\<rparr>)"

definition sighash_copy :: "'a CMutableTransaction_scheme \<Rightarrow> serializer \<Rightarrow> CMutableTransaction" where
  "sighash_copy tx s =
     \<lparr>nVersion = nVersion tx,
      vin = map (\<lambda>i. sighash_input s i (vin tx ! i))
        (if fAnyoneCanPay s then [unat (ss_nIn s)] else [0..<length (vin tx)]),
      vout = (if fHashNone s then []
        else if fHashSingle s then replicate (unat (ss_nIn s)) CTxOut_null @ [vout tx ! unat (ss_nIn s)]
        else vout tx),
      nLockTime = nLockTime tx, vjoinsplit = vjoinsplit tx, joinSplitPubKey = joinSplitPubKey tx,
      joinSplitSig = replicate 64 0\<rparr>"

lemma serialize_loop_eq:
  "\<forall>j < n. f (of_nat (i + j)) = Some (g (i + j)) \<Longrightarrow> serialize_loop f i n = Some (concat (map g [i..<i + n]))"
proof (induction n arbitrary: i)
  case (Suc n)
  have "f (of_nat i) = Some (g i)" using Suc.prems by (metis add_0_right zero_less_Suc)
  moreover have "\<forall>j < n. f (of_nat (Suc i + j)) = Some (g (Suc i + j))"
    using Suc.prems by (metis Suc_less_eq add_Suc_shift)
  moreover have "[i..<i + Suc n] = i # [Suc i..<Suc i + n]" using upt_conv_Cons [of i "i + Suc n"] by simp
  ultimately show ?case using Suc.IH [of "Suc i"] by (simp del: of_nat_Suc upt_Suc)
qed simp

lemma u32_index:
  "n < 2 ^ 32 \<Longrightarrow> unat (of_nat n :: u32) = n" "n < 2 ^ 32 \<Longrightarrow> (of_nat n :: u32) = k \<longleftrightarrow> n = unat k"
  "n < 2 ^ 32 \<Longrightarrow> ucast (of_nat n :: u32) = (of_nat n :: u64)"
  by (auto simp: unat_of_nat word_unat_eq_iff)

lemma unat_NOT_AN_INPUT: "unat NOT_AN_INPUT = 4294967295"
  by (simp add: NOT_AN_INPUT_def unsigned_minus_1_eq_mask mask_eq_exp_minus_1)

lemma SerializeInput_copy:
  assumes "i < length (vin tx)" "length (vin tx) \<le> unat MAX_SIZE"
  shows "\<not> fAnyoneCanPay s \<Longrightarrow> SerializeInput tx s (of_nat i) = Some (put_CTxIn (sighash_input s i (vin tx ! i)))"
    and "fAnyoneCanPay s \<Longrightarrow> i = unat (ss_nIn s) \<Longrightarrow>
      SerializeInput tx s j = Some (put_CTxIn (sighash_input s i (vin tx ! i)))"
proof -
  have i: "i < 2 ^ 32" "i \<noteq> 4294967295" using assms by (auto simp: MAX_SIZE_def)
  then have "(of_nat i :: u32) \<noteq> NOT_AN_INPUT" by (simp add: unat_NOT_AN_INPUT word_unat_eq_iff unat_of_nat)
  then show "\<not> fAnyoneCanPay s \<Longrightarrow> SerializeInput tx s (of_nat i) = Some (put_CTxIn (sighash_input s i (vin tx ! i)))"
    using assms(1) i u32_index(1,2) [OF i(1)]
    by (simp add: SerializeInput_def sighash_input_def put_CTxIn_def put_byte_vector_def SerializeScriptCode_def
        put_int32_def Let_def)
  assume "i = unat (ss_nIn s)"
  moreover have "ss_nIn s \<noteq> NOT_AN_INPUT" using i(2) calculation by (auto simp: unat_NOT_AN_INPUT)
  ultimately show "fAnyoneCanPay s \<Longrightarrow> SerializeInput tx s j = Some (put_CTxIn (sighash_input s i (vin tx ! i)))"
    using assms(1)
    by (simp add: SerializeInput_def sighash_input_def put_CTxIn_def put_byte_vector_def SerializeScriptCode_def Let_def)
qed

lemma SerializeForSig_copy:
  assumes "valid_transaction tx"
    and nIn: "unat (ss_nIn s) < length (vin tx) \<or> (ss_nIn s = NOT_AN_INPUT \<and> \<not> fAnyoneCanPay s)"
    and single: "fHashSingle s \<longrightarrow> unat (ss_nIn s) < length (vout tx)"
  shows "SerializeForSig tx s = Some (put_transaction (sighash_copy tx s))"
proof -
  have len: "length (vin tx) \<le> unat MAX_SIZE" "length (vout tx) \<le> unat MAX_SIZE"
    using assms(1) by (simp_all add: valid_transaction_def valid_vector_def)
  then have l32: "length (vin tx) < 2 ^ 32" "length (vout tx) < 2 ^ 32" by (simp_all add: MAX_SIZE_def)
  define n where "n = (if fAnyoneCanPay s then 1 else length (vin tx))"
  define m where "m = (if fHashNone s then 0 else if fHashSingle s then unat (ss_nIn s) + 1 else length (vout tx))"
  have nm: "n < 2 ^ 32" "m < 2 ^ 32" using l32 single by (auto simp: n_def m_def)
  let ?n = "if fAnyoneCanPay s then 1 else of_nat (length (vin tx)) :: u32"
  let ?m = "if fHashNone s then 0 else if fHashSingle s then ss_nIn s + 1 else of_nat (length (vout tx)) :: u32"
  have "?n = of_nat n" "?m = of_nat m" by (simp_all add: n_def m_def)
  then have un: "unat ?n = n" "unat ?m = m" "ucast ?n = (of_nat n :: u64)" "ucast ?m = (of_nat m :: u64)"
    using u32_index nm by simp_all
  have ins: "serialize_loop (SerializeInput tx s) 0 n = Some (concat (map put_CTxIn (vin (sighash_copy tx s))))"
  proof (cases "fAnyoneCanPay s")
    case True
    then show ?thesis using SerializeInput_copy(2) [of "unat (ss_nIn s)" tx s 0] nIn len
      by (simp add: n_def sighash_copy_def)
  next
    case False
    then have "\<forall>j < length (vin tx). SerializeInput tx s (of_nat (0 + j)) =
        Some (put_CTxIn (sighash_input s (0 + j) (vin tx ! (0 + j))))"
      using len by (simp add: SerializeInput_copy(1))
    then show ?thesis using False by (subst serialize_loop_eq) (simp_all add: n_def sighash_copy_def comp_def)
  qed
  have "\<forall>j < m. SerializeOutput tx s (of_nat (0 + j)) = Some (put_CTxOut (vout (sighash_copy tx s) ! (0 + j)))"
    using single nm(2) u32_index(1,2)
    by (auto simp: m_def SerializeOutput_def sighash_copy_def nth_append less_Suc_eq)
  moreover have lo: "length (vout (sighash_copy tx s)) = m" by (simp add: sighash_copy_def m_def)
  ultimately have outs: "serialize_loop (SerializeOutput tx s) 0 m = Some (concat (map put_CTxOut (vout (sighash_copy tx s))))"
    by (subst serialize_loop_eq) (auto simp: map_upt_eqI intro!: arg_cong [where f = concat] nth_equalityI)
  have li: "length (vin (sighash_copy tx s)) = n" by (simp add: sighash_copy_def n_def)
  show ?thesis
    unfolding SerializeForSig_def Let_def un ins outs
    by (simp add: put_transaction_def put_vector_def li lo) (simp add: sighash_copy_def)
qed

lemma serializer_simps [simp]:
  "ss_nIn (CTransactionSignatureSerializer code nIn ht) = nIn"
  "ss_scriptCode (CTransactionSignatureSerializer code nIn ht) = code"
  by (simp_all add: CTransactionSignatureSerializer_def)

lemma SignatureHash_eq:
  assumes "valid_transaction tx" "nIn \<noteq> NOT_AN_INPUT \<or> nHashType AND 0x80 = 0"
  shows "SignatureHash scriptCode tx nIn nHashType =
    (if unat nIn \<ge> length (vin tx) \<and> nIn \<noteq> NOT_AN_INPUT then Inl Input_index_out_of_range
     else if nHashType AND 0x1f = 3 \<and> unat nIn \<ge> length (vout tx) then Inl No_matching_output
     else Inr (SHA256 (SHA256 (put_transaction
       (sighash_copy tx (CTransactionSignatureSerializer scriptCode nIn nHashType)) @ WriteLE32 nHashType))))"
proof -
  let ?s = "CTransactionSignatureSerializer scriptCode nIn nHashType"
  have f: "fHashSingle ?s \<longleftrightarrow> nHashType AND 0x1f = 3" "fAnyoneCanPay ?s \<longleftrightarrow> nHashType AND 0x80 \<noteq> 0"
    by (simp_all add: CTransactionSignatureSerializer_def)
  have "SerializeForSig tx ?s = Some (put_transaction (sighash_copy tx ?s))"
    if "\<not> (unat nIn \<ge> length (vin tx) \<and> nIn \<noteq> NOT_AN_INPUT)" "\<not> (nHashType AND 0x1f = 3 \<and> unat nIn \<ge> length (vout tx))"
    using that assms by (intro SerializeForSig_copy) (auto simp: f not_le)
  then show ?thesis
    by (simp add: SignatureHash_def SerializeHash_eq ser_writedata32_def)
qed

lemma sighash_copy_valid:
  assumes "valid_transaction tx" "valid_bytes (ss_scriptCode s)"
    "fAnyoneCanPay s \<longrightarrow> unat (ss_nIn s) < length (vin tx)" "fHashSingle s \<longrightarrow> unat (ss_nIn s) < length (vout tx)"
  shows "valid_transaction (sighash_copy tx s)"
proof -
  have "valid_txin (sighash_input s i (vin tx ! i))" if "i < length (vin tx)" for i
  proof -
    have "valid_txin (vin tx ! i)" using that assms(1) by (simp add: valid_transaction_def valid_vector_def)
    then show ?thesis using assms(2) by (auto simp: sighash_input_def valid_txin_def valid_bytes_def)
  qed
  then have "valid_vector valid_txin (vin (sighash_copy tx s))"
    using assms(1,3) by (auto simp: sighash_copy_def valid_vector_def valid_transaction_def MAX_SIZE_def)
  moreover have "valid_vector valid_txout (vout (sighash_copy tx s))"
    using assms(1,4)
    by (auto simp: sighash_copy_def valid_vector_def valid_transaction_def valid_txout_def CTxOut_null_def
        int64_range_def valid_bytes_def)
  ultimately show ?thesis using assms(1) by (simp add: valid_transaction_def sighash_copy_def)
qed

text \<open>What the fields of a copy say about the transaction when everything is signed.\<close>

lemma sighash_all_copy:
  assumes "\<not> fAnyoneCanPay s" "\<not> fHashSingle s" "\<not> fHashNone s"
  shows "map prevout (vin (sighash_copy tx s)) = map prevout (vin tx)"
    "map nSequence (vin (sighash_copy tx s)) = map nSequence (vin tx)"
    "vout (sighash_copy tx s) = vout tx"
  using assms by (auto simp: sighash_copy_def sighash_input_def comp_def intro!: nth_equalityI)

section \<open>Properties\<close>





end
