(* ===== verification/Compressor.thy ===== *)
theory Compressor
  imports SigHash
begin

text \<open>
  The compact forms of scripts, amounts and outputs in the coin database (\<^verbatim>\<open>compressor.h\<close>,
  \<^verbatim>\<open>compressor.cpp\<close>). Standard scripts shrink to a tag and a hash or a key, amounts to a decimal
  floating form. The point decompression of libsecp256k1 is a parameter; what the code relies on is
  that decompressing the compressed form of a valid key gives the key back. What is written reads
  back for every script that is not unspendably long and every amount of the money range.
\<close>

section \<open>Scripts\<close>

definition nSpecialScripts :: u32 where "nSpecialScripts = 6"

definition IsToKeyID :: "bytes \<Rightarrow> bytes option" where
  "IsToKeyID script =
     (if length script = 25 \<and> script ! 0 = OP_DUP \<and> script ! 1 = OP_HASH160 \<and> script ! 2 = 20 \<and>
         script ! 23 = OP_EQUALVERIFY \<and> script ! 24 = OP_CHECKSIG
      then Some (take 20 (drop 3 script)) else None)"

definition IsToScriptID :: "bytes \<Rightarrow> bytes option" where
  "IsToScriptID script =
     (if length script = 23 \<and> script ! 0 = OP_HASH160 \<and> script ! 1 = 20 \<and> script ! 22 = OP_EQUAL
      then Some (take 20 (drop 2 script)) else None)"

definition IsToPubKey :: "('pk, 'sig) secp256k1 \<Rightarrow> bytes \<Rightarrow> CPubKey option" where
  "IsToPubKey secp script =
     (if length script = 35 \<and> script ! 0 = 33 \<and> script ! 34 = OP_CHECKSIG \<and> (script ! 1 = 0x02 \<or> script ! 1 = 0x03)
      then Some (CPubKey_Set (take 33 (drop 1 script)))
      else if length script = 67 \<and> script ! 0 = 65 \<and> script ! 66 = OP_CHECKSIG \<and> script ! 1 = 0x04
      then let pubkey = CPubKey_Set (take 65 (drop 1 script))
           in if CPubKey_IsFullyValid secp pubkey then Some pubkey else None
      else None)"

definition Compress :: "('pk, 'sig) secp256k1 \<Rightarrow> bytes \<Rightarrow> bytes option" where
  "Compress secp script =
     (case IsToKeyID script of Some keyID \<Rightarrow> Some (0x00 # keyID)
      | None \<Rightarrow>
     (case IsToScriptID script of Some scriptID \<Rightarrow> Some (0x01 # scriptID)
      | None \<Rightarrow>
     (case IsToPubKey secp script of
        Some pubkey \<Rightarrow>
          if pubkey ! 0 = 0x02 \<or> pubkey ! 0 = 0x03 then Some (pubkey ! 0 # take 32 (drop 1 pubkey))
          else if pubkey ! 0 = 0x04 then Some ((0x04 OR (pubkey ! 64 AND 0x01)) # take 32 (drop 1 pubkey))
          else None
      | None \<Rightarrow> None)))"

definition GetSpecialSize :: "u32 \<Rightarrow> nat" where
  "GetSpecialSize nSize =
     (if nSize = 0 \<or> nSize = 1 then 20
      else if nSize = 2 \<or> nSize = 3 \<or> nSize = 4 \<or> nSize = 5 then 32 else 0)"

definition Decompress :: "('pk, 'sig) secp256k1 \<Rightarrow> u32 \<Rightarrow> bytes \<Rightarrow> bytes option" where
  "Decompress secp nSize v =
     (if nSize = 0x00 then Some ([OP_DUP, OP_HASH160, 20] @ take 20 v @ [OP_EQUALVERIFY, OP_CHECKSIG])
      else if nSize = 0x01 then Some ([OP_HASH160, 20] @ take 20 v @ [OP_EQUAL])
      else if nSize = 0x02 \<or> nSize = 0x03 then Some ([33, ucast nSize] @ take 32 v @ [OP_CHECKSIG])
      else if nSize = 0x04 \<or> nSize = 0x05 then
        (case CPubKey_Decompress secp (CPubKey_Set (ucast (nSize - 2) # take 32 v)) of None \<Rightarrow> None
         | Some pubkey \<Rightarrow> Some ([65] @ take 65 pubkey @ [OP_CHECKSIG]))
      else None)"

definition put_script :: "('pk, 'sig) secp256k1 \<Rightarrow> bytes \<Rightarrow> bytes" where
  "put_script secp script =
     (case Compress secp script of Some compr \<Rightarrow> compr
      | None \<Rightarrow> let nSize = of_nat (length script) + nSpecialScripts in WriteVarInt (ucast nSize) @ script)"

text \<open>
  Reading fills a script that is empty before. The result of \<open>Decompress\<close> is ignored, so a key that
  cannot be decompressed leaves it empty.
\<close>

definition get_script :: "('pk, 'sig) secp256k1 \<Rightarrow> bytes \<Rightarrow> (bytes \<times> bytes) option" where
  "get_script secp s = do {
     (nSize, s) \<leftarrow> ReadVarInt32 s;
     if nSize < nSpecialScripts then do {
       (vch, s) \<leftarrow> stream_read (GetSpecialSize nSize) s;
       Some (case Decompress secp nSize vch of Some script \<Rightarrow> script | None \<Rightarrow> [], s) }
     else let nSize = nSize - nSpecialScripts in
       if unat nSize > MAX_SCRIPT_SIZE then
         (if sint nSize < 0 then None
          else do { (_, s) \<leftarrow> stream_read (unat nSize) s; Some ([OP_RETURN], s) })
       else stream_read (unat nSize) s }"

section \<open>Amounts\<close>

text \<open>The loop that divides by ten at most nine times.\<close>

function strip_zeros :: "u64 \<Rightarrow> nat \<Rightarrow> u64 \<times> nat" where
  "strip_zeros n e = (if n mod 10 = 0 \<and> e < 9 then strip_zeros (n div 10) (e + 1) else (n, e))"
  by auto
termination by (relation "measure (\<lambda>(n, e). 9 - e)") auto

declare strip_zeros.simps [simp del]

definition CompressAmount :: "u64 \<Rightarrow> u64" where
  "CompressAmount n =
     (if n = 0 then 0
      else let (n, e) = strip_zeros n 0
           in if e < 9 then let d = n mod 10; n = n div 10 in 1 + (n * 9 + d - 1) * 10 + of_nat e
              else 1 + (n - 1) * 10 + 9)"

fun times_ten :: "nat \<Rightarrow> u64 \<Rightarrow> u64" where
  "times_ten 0 n = n"
| "times_ten (Suc e) n = times_ten e (n * 10)"

definition DecompressAmount :: "u64 \<Rightarrow> u64" where
  "DecompressAmount x =
     (if x = 0 then 0
      else let x = x - 1; e = unat (x mod 10); x = x div 10;
               n = (if e < 9 then let d = (x mod 9) + 1; x = x div 9 in x * 10 + d else x + 1)
           in times_ten e n)"

section \<open>Outputs\<close>

definition put_TxOutCompressor :: "('pk, 'sig) secp256k1 \<Rightarrow> CTxOut \<Rightarrow> bytes" where
  "put_TxOutCompressor secp txout =
     WriteVarInt (CompressAmount (of_int (nValue txout))) @ put_script secp (scriptPubKey txout)"

definition get_TxOutCompressor :: "('pk, 'sig) secp256k1 \<Rightarrow> bytes \<Rightarrow> (CTxOut \<times> bytes) option" where
  "get_TxOutCompressor secp s = do {
     (nVal, s) \<leftarrow> ReadVarInt s;
     (script, s) \<leftarrow> get_script secp s;
     Some (\<lparr>nValue = sint (DecompressAmount nVal), scriptPubKey = script\<rparr>, s) }"

section \<open>Amounts read back\<close>

lemma unat_small_times [word_val]:
  fixes n :: u64
  assumes "unat n * k < 2 ^ 64" "k < 2 ^ 64"
  shows "unat (n * of_nat k) = unat n * k"
proof -
  have "unat (of_nat k :: u64) = k" using assms(2) by (simp add: unat_of_nat take_bit_nat_eq_self)
  then show ?thesis using assms(1) unat_mult_lem [of n "of_nat k"] by simp
qed

lemma strip_zeros_spec:
  "strip_zeros n e = (m, k) \<Longrightarrow> e \<le> 9 \<Longrightarrow> n \<noteq> 0 \<Longrightarrow>
   unat n = unat m * 10 ^ (k - e) \<and> e \<le> k \<and> k \<le> 9 \<and> m \<noteq> 0 \<and> (k < 9 \<longrightarrow> unat m mod 10 \<noteq> 0)"
proof (induction n e rule: strip_zeros.induct)
  case (1 n e)
  have mod10: "(n mod 10 = 0) = (unat n mod 10 = 0)" by (simp add: word_unat_eq_iff unat_mod)
  show ?case
  proof (cases "n mod 10 = 0 \<and> e < 9")
    case True
    then have n10: "unat n = unat (n div 10) * 10" using mod10 div_mult_mod_eq [of "unat n" 10] by (simp add: unat_div)
    then have "n div 10 \<noteq> 0" using "1.prems"(3) by (auto simp: word_unat_eq_iff)
    moreover have "strip_zeros (n div 10) (e + 1) = (m, k)" using True "1.prems"(1) by (simp add: strip_zeros.simps [of n e])
    ultimately have IH: "unat (n div 10) = unat m * 10 ^ (k - (e + 1))" "e + 1 \<le> k" "k \<le> 9" "m \<noteq> 0"
      "k < 9 \<longrightarrow> unat m mod 10 \<noteq> 0"
      using "1.IH" [OF True] True by auto
    have "k - e = Suc (k - (e + 1))" using IH(2) by simp
    then show ?thesis using IH n10 by simp
  next
    case False
    then have "m = n" "k = e" using "1.prems"(1) by (auto simp: strip_zeros.simps [of n e])
    then show ?thesis using False "1.prems" mod10 by auto
  qed
qed

lemma times_ten_value: "unat n * 10 ^ e < 2 ^ 64 \<Longrightarrow> unat (times_ten e n) = unat n * 10 ^ e"
proof (induction e arbitrary: n)
  case (Suc e)
  have "unat n * 10 \<le> unat n * 10 ^ Suc e" by simp
  then have "unat n * 10 < 2 ^ 64" using Suc.prems by (rule le_less_trans)
  then have n: "unat (n * 10) = unat n * 10" using unat_small_times [of n 10] by simp
  then show ?case using Suc.IH [of "n * 10"] Suc.prems by (simp add: mult.assoc)
qed simp

text \<open>The value \<open>CompressAmount\<close> computes when nothing overflows.\<close>

lemma CompressAmount_digits:
  fixes m :: u64
  assumes m: "unat m < 2 ^ 60" "m \<noteq> 0"
  shows "e < 9 \<Longrightarrow> unat m mod 10 \<noteq> 0 \<Longrightarrow>
      unat (1 + (m div 10 * 9 + m mod 10 - 1) * 10 + of_nat e) =
      Suc ((unat m div 10 * 9 + unat m mod 10 - 1) * 10 + e)"
    "unat (1 + (m - 1) * 10 + 9) = Suc ((unat m - 1) * 10 + 9)"
proof -
  assume e: "e < 9" and d: "unat m mod 10 \<noteq> 0"
  have a: "unat (m div 10 * 9) = unat m div 10 * 9" using unat_small_times [of "m div 10" 9] m by (simp add: unat_div)
  have b: "unat (m div 10 * 9 + m mod 10) = unat m div 10 * 9 + unat m mod 10"
    using a m by (simp add: unat_add_lem [THEN iffD1] unat_mod)
  then have "m div 10 * 9 + m mod 10 \<noteq> 0" using d by (metis add_is_0 unat_0)
  then have c: "unat (m div 10 * 9 + m mod 10 - 1) = unat m div 10 * 9 + unat m mod 10 - 1"
    using b by (simp add: unat_minus_one)
  have c': "unat (m div 10 * 9 + m mod 10 - 1) * 10 < 2 ^ 64 - 100" unfolding c using m by simp
  then have f: "unat ((m div 10 * 9 + m mod 10 - 1) * 10) = (unat m div 10 * 9 + unat m mod 10 - 1) * 10"
    using unat_small_times [of "m div 10 * 9 + m mod 10 - 1" 10] c by simp
  have eu: "unat (of_nat e :: u64) = e" using e by (simp add: unat_of_nat take_bit_nat_eq_self)
  have "unat (1 + (m div 10 * 9 + m mod 10 - 1) * 10) = Suc ((unat m div 10 * 9 + unat m mod 10 - 1) * 10)"
    using f c' c by (subst unat_add_lem [THEN iffD1]) simp_all
  then show "unat (1 + (m div 10 * 9 + m mod 10 - 1) * 10 + of_nat e) =
      Suc ((unat m div 10 * 9 + unat m mod 10 - 1) * 10 + e)"
    using eu e c c' by (subst unat_add_lem [THEN iffD1]) simp_all
next
  have c: "unat (m - 1) = unat m - 1" using m(2) by (simp add: unat_minus_one)
  have f: "unat ((m - 1) * 10) = (unat m - 1) * 10" using unat_small_times [of "m - 1" 10] c m(1) by simp
  have "unat (1 + (m - 1) * 10) = Suc ((unat m - 1) * 10)" using f m(1) by (subst unat_add_lem [THEN iffD1]) simp_all
  then show "unat (1 + (m - 1) * 10 + 9) = Suc ((unat m - 1) * 10 + 9)"
    using m(1) by (subst unat_add_lem [THEN iffD1]) simp_all
qed

lemma unat_pred: "x \<noteq> 0 \<Longrightarrow> unat (x - 1 :: u64) = unat x - 1"
  by (simp add: unat_minus_one)

lemma DecompressAmount_mantissa:
  assumes x: "unat x = Suc ((unat m div 10 * 9 + unat m mod 10 - 1) * 10 + e)" and e: "e < 9"
    and m: "unat m mod 10 \<noteq> 0" "unat m < 2 ^ 60"
  shows "DecompressAmount x = times_ten e m"
proof -
  let ?A = "unat m div 10 * 9 + unat m mod 10 - 1"
  have x0: "x \<noteq> 0" using x by auto
  have p: "unat (x - 1) = ?A * 10 + e" using x unat_pred [OF x0] by simp
  have A: "?A = unat m div 10 * 9 + (unat m mod 10 - 1)" using m(1) by simp
  have d: "unat m mod 10 - 1 < 9" using mod_less_divisor [of 10 "unat m"] by linarith
  have a9: "?A mod 9 = unat m mod 10 - 1" "?A div 9 = unat m div 10" unfolding A using d by simp_all
  have e': "unat ((x - 1) mod 10) = e" using p e by (simp add: unat_mod)
  have q: "unat ((x - 1) div 10) = ?A" using p e by (simp add: unat_div)
  have r: "unat ((x - 1) div 10 mod 9 + 1) = unat m mod 10"
  proof -
    have u: "unat ((x - 1) div 10 mod 9) = unat m mod 10 - 1" using a9(1) q by (simp add: unat_mod)
    then have "unat ((x - 1) div 10 mod 9) + 1 < 2 ^ 64" using d by simp
    then show ?thesis using u m(1) by (subst unat_add_lem [THEN iffD1]) simp_all
  qed
  have s: "unat ((x - 1) div 10 div 9) = unat m div 10" using a9(2) q by (simp add: unat_div [of _ 9])
  have t: "unat ((x - 1) div 10 div 9 * 10) = unat m div 10 * 10"
    using unat_small_times [of "(x - 1) div 10 div 9" 10] s m(2) by simp
  have "unat ((x - 1) div 10 div 9 * 10 + ((x - 1) div 10 mod 9 + 1)) = unat m"
    using t r m(2) by (subst unat_add_lem [THEN iffD1]) simp_all
  then have "(x - 1) div 10 div 9 * 10 + ((x - 1) div 10 mod 9 + 1) = m" by (rule word_unat_eq_iff [THEN iffD2])
  then show ?thesis using x0 e e' by (simp add: DecompressAmount_def Let_def)
qed

lemma DecompressAmount_nine:
  assumes x: "unat x = Suc ((unat m - 1) * 10 + 9)" and m: "m \<noteq> 0"
  shows "DecompressAmount x = times_ten 9 m"
proof -
  have x0: "x \<noteq> 0" using x by auto
  have p: "unat (x - 1) = (unat m - 1) * 10 + 9" using x unat_pred [OF x0] by simp
  have e: "unat ((x - 1) mod 10) = 9" using p by (simp add: unat_mod)
  have "unat ((x - 1) div 10) = unat (m - 1)" using p unat_pred [OF m] by (simp add: unat_div)
  then have "(x - 1) div 10 = m - 1" by (rule word_unat_eq_iff [THEN iffD2])
  then have "(x - 1) div 10 + 1 = m" by simp
  then show ?thesis using x0 e by (simp add: DecompressAmount_def Let_def)
qed

lemma DecompressAmount_CompressAmount:
  assumes n: "unat n < 2 ^ 60"
  shows "DecompressAmount (CompressAmount n) = n"
proof (cases "n = 0")
  case False
  obtain m e where s: "strip_zeros n 0 = (m, e)" by fastforce
  then have v: "unat n = unat m * 10 ^ e" "e \<le> 9" "m \<noteq> 0" "e < 9 \<longrightarrow> unat m mod 10 \<noteq> 0"
    using strip_zeros_spec [OF s _ False] by auto
  have "unat m \<le> unat n" unfolding v(1) by simp
  then have m: "unat m < 2 ^ 60" using n by linarith
  have t: "times_ten e m = n" using times_ten_value [of m e] v(1) n by (simp add: word_unat_eq_iff)
  show ?thesis
  proof (cases "e < 9")
    case True
    then show ?thesis
      using DecompressAmount_mantissa [OF CompressAmount_digits(1) [OF m v(3) True] True _ m] v(4) t s False
      by (simp add: CompressAmount_def Let_def)
  next
    case e9: False
    then show ?thesis
      using DecompressAmount_nine [OF CompressAmount_digits(2) [OF m v(3)] v(3)] v(2) t s False
      by (simp add: CompressAmount_def Let_def)
  qed
qed (simp add: CompressAmount_def DecompressAmount_def)

section \<open>Scripts read back\<close>

text \<open>What is relied on of libsecp256k1: a valid key is the decompression of its own compressed form.\<close>

definition secp_decompresses :: "('pk, 'sig) secp256k1 \<Rightarrow> bool" where
  "secp_decompresses secp \<longleftrightarrow>
     (\<forall>x y. length x = 32 \<longrightarrow> length y = 32 \<longrightarrow> ec_pubkey_parse secp (0x04 # x @ y) \<noteq> None \<longrightarrow>
       (\<exists>pk. ec_pubkey_parse secp ((if odd (last y) then 0x03 else 0x02) # x) = Some pk \<and>
         ec_pubkey_serialize_uncompressed secp pk = 0x04 # x @ y))"

lemma ReadVarInt32_tag:
  "b \<in> {0, 1, 2, 3, 4, 5} \<Longrightarrow> ReadVarInt32 (b # s) = Some (ucast b, s)"
  by (auto simp: ReadVarInt32_def)

lemma split_at:
  assumes "i + j \<le> length xs"
  shows "xs = take i xs @ take j (drop i xs) @ drop (i + j) xs"
  using append_take_drop_id [of i xs] append_take_drop_id [of j "drop i xs"] by (simp add: add.commute)

lemma list_ends:
  "length xs = 25 \<Longrightarrow> xs = [xs ! 0, xs ! 1, xs ! 2] @ take 20 (drop 3 xs) @ [xs ! 23, xs ! 24]"
  "length xs = 23 \<Longrightarrow> xs = [xs ! 0, xs ! 1] @ take 20 (drop 2 xs) @ [xs ! 22]"
  "length xs = 35 \<Longrightarrow> xs = [xs ! 0] @ take 33 (drop 1 xs) @ [xs ! 34]"
  "length xs = 67 \<Longrightarrow> xs = [xs ! 0] @ take 65 (drop 1 xs) @ [xs ! 66]"
proof -
  have t: "take 1 ys = [ys ! 0]" if "length ys > 0" for ys :: "'a list" using that by (cases ys) auto
  have t2: "take 2 ys = [ys ! 0, ys ! 1]" if "length ys > 1" for ys :: "'a list"
    using that t [of ys] take_Suc_conv_app_nth [of 1 ys] by (cases ys) (auto simp: numeral_2_eq_2)
  have t3: "take 3 ys = [ys ! 0, ys ! 1, ys ! 2]" if "length ys > 2" for ys :: "'a list"
    using that t2 [of ys] take_Suc_conv_app_nth [of 2 ys] by simp
  have d: "drop k ys = [ys ! k]" if "length ys = Suc k" for ys :: "'a list" and k
    using that Cons_nth_drop_Suc [of k ys] by simp
  have d2: "drop k ys = [ys ! k, ys ! Suc k]" if "length ys = Suc (Suc k)" for ys :: "'a list" and k
    using that Cons_nth_drop_Suc [of k ys] Cons_nth_drop_Suc [of "Suc k" ys] by simp
  show "length xs = 25 \<Longrightarrow> xs = [xs ! 0, xs ! 1, xs ! 2] @ take 20 (drop 3 xs) @ [xs ! 23, xs ! 24]"
    using split_at [of 3 20 xs] t3 [of xs] d2 [of xs 23] by simp
  show "length xs = 23 \<Longrightarrow> xs = [xs ! 0, xs ! 1] @ take 20 (drop 2 xs) @ [xs ! 22]"
    using split_at [of 2 20 xs] t2 [of xs] d [of xs 22] by simp
  show "length xs = 35 \<Longrightarrow> xs = [xs ! 0] @ take 33 (drop 1 xs) @ [xs ! 34]"
    using split_at [of 1 33 xs] t [of xs] d [of xs 34] by simp
  show "length xs = 67 \<Longrightarrow> xs = [xs ! 0] @ take 65 (drop 1 xs) @ [xs ! 66]"
    using split_at [of 1 65 xs] t [of xs] d [of xs 66] by simp
qed

lemma IsToKeyID_Some:
  "IsToKeyID script = Some h \<Longrightarrow> script = [OP_DUP, OP_HASH160, 20] @ h @ [OP_EQUALVERIFY, OP_CHECKSIG] \<and> length h = 20"
  using list_ends(1) [of script] by (auto simp: IsToKeyID_def split: if_splits)

lemma IsToScriptID_Some:
  "IsToScriptID script = Some h \<Longrightarrow> script = [OP_HASH160, 20] @ h @ [OP_EQUAL] \<and> length h = 20"
  using list_ends(2) [of script] by (auto simp: IsToScriptID_def split: if_splits)

lemma CPubKey_Set_valid: "v \<noteq> [] \<Longrightarrow> GetLen (hd v) = length v \<Longrightarrow> CPubKey_Set v = v"
  by (auto simp: CPubKey_Set_def Let_def)

lemma IsToPubKey_Some:
  assumes "IsToPubKey secp script = Some pubkey"
  shows "(\<exists>b x. (b = 2 \<or> b = 3) \<and> length x = 32 \<and> pubkey = b # x \<and> script = 33 # b # x @ [OP_CHECKSIG]) \<or>
    (\<exists>x y. length x = 32 \<and> length y = 32 \<and> pubkey = 4 # x @ y \<and> script = 65 # 4 # x @ y @ [OP_CHECKSIG] \<and>
       ec_pubkey_parse secp (4 # x @ y) \<noteq> None)"
proof (cases "length script = 35 \<and> script ! 0 = 33 \<and> script ! 34 = OP_CHECKSIG \<and> (script ! 1 = 0x02 \<or> script ! 1 = 0x03)")
  case True
  let ?k = "take 33 (drop 1 script)"
  have l: "length ?k = 33" using True by simp
  then obtain b x where k: "?k = b # x" "length x = 32" using length_Suc_conv [of ?k 32] by auto
  have b: "b = script ! 1" using k(1) True by (cases "drop 1 script") (auto simp: hd_drop_conv_nth nth_via_drop)
  then have "CPubKey_Set ?k = ?k" using True k by (intro CPubKey_Set_valid) (auto simp: GetLen_def)
  then show ?thesis using assms True k b list_ends(3) [of script] by (auto simp: IsToPubKey_def)
next
  case False
  then have c: "length script = 67" "script ! 0 = 65" "script ! 66 = OP_CHECKSIG" "script ! 1 = 0x04"
    and v: "CPubKey_IsFullyValid secp pubkey" and p: "pubkey = CPubKey_Set (take 65 (drop 1 script))"
    using assms by (auto simp: IsToPubKey_def Let_def split: if_splits)
  let ?k = "take 65 (drop 1 script)"
  have l: "length ?k = 65" using c by simp
  then obtain b z where k: "?k = b # z" "length z = 64" using length_Suc_conv [of ?k 64] by auto
  have b: "b = 4" using k(1) c by (cases "drop 1 script") (auto simp: nth_via_drop)
  have s: "pubkey = 4 # z" using p k b CPubKey_Set_valid [of ?k] by (simp add: GetLen_def)
  have z: "z = take 32 z @ drop 32 z" "length (take 32 z) = 32" "length (drop 32 z) = 32" using k(2) by simp_all
  have "ec_pubkey_parse secp (4 # z) \<noteq> None"
    using v s k(2) by (auto simp: CPubKey_IsFullyValid_def CPubKey_size_def GetLen_def split: if_splits)
  moreover have "script = 65 # 4 # z @ [OP_CHECKSIG]" using list_ends(4) [OF c(1)] c k b by simp
  ultimately show ?thesis using s z by (metis append.assoc)
qed

lemma compress_tag:
  fixes b :: u8
  shows "0x04 OR (b AND 0x01) = (if odd b then 0x05 else 0x04)"
  by (simp add: and_one_eq mod_2_eq_odd)

lemma get_put_compressed:
  assumes "secp_decompresses secp" "Compress secp script = Some compr"
  shows "get_script secp (compr @ s) = Some (script, s)"
proof -
  have tag: "get_script secp (b # v @ s) = Some (script, s)"
    if "b \<in> {0, 1, 2, 3, 4, 5}" "GetSpecialSize (ucast b) = length v" "Decompress secp (ucast b) v = Some script" for b v
    using that by (auto simp: get_script_def ReadVarInt32_tag nSpecialScripts_def stream_read_def)
  show ?thesis
  proof (cases "IsToKeyID script")
    case (Some h)
    then show ?thesis using assms(2) IsToKeyID_Some [OF Some] tag [of 0 h]
      by (auto simp: Compress_def GetSpecialSize_def Decompress_def)
  next
    case k: None
    show ?thesis
    proof (cases "IsToScriptID script")
      case (Some h)
      then show ?thesis using assms(2) k IsToScriptID_Some [OF Some] tag [of 1 h]
        by (auto simp: Compress_def GetSpecialSize_def Decompress_def)
    next
      case None
      then obtain pubkey where p: "IsToPubKey secp script = Some pubkey"
        using assms(2) k by (auto simp: Compress_def split: option.splits)
      consider (short) b x where "b = 2 \<or> b = 3" "length x = 32" "pubkey = b # x" "script = 33 # b # x @ [OP_CHECKSIG]"
        | (long) x y where "length x = 32" "length y = 32" "pubkey = 4 # x @ y" "script = 65 # 4 # x @ y @ [OP_CHECKSIG]"
          "ec_pubkey_parse secp (4 # x @ y) \<noteq> None"
        using IsToPubKey_Some [OF p] by blast
      then show ?thesis
      proof cases
        case h: short
        then have "compr = b # x" using assms(2) k None p by (auto simp: Compress_def)
        then show ?thesis using h tag [of b x] by (auto simp: GetSpecialSize_def Decompress_def)
      next
        case h: long
        define b :: u8 where "b = (if odd (last y) then 0x05 else 0x04)"
        have "y \<noteq> []" using h(2) by auto
        then have y: "last y = (4 # x @ y) ! 64" using h(1,2) by (simp add: last_conv_nth nth_append nth_Cons')
        have c: "compr = b # x" using assms(2) k None p h y by (simp add: Compress_def compress_tag b_def)
        obtain pk where pk: "ec_pubkey_parse secp ((if odd (last y) then 0x03 else 0x02) # x) = Some pk"
          "ec_pubkey_serialize_uncompressed secp pk = 0x04 # x @ y"
          using assms(1) h unfolding secp_decompresses_def by blast
        have "CPubKey_Decompress secp (CPubKey_Set (ucast (ucast b - 2 :: u32) # x)) = Some (4 # x @ y)"
          using pk h(1,2) CPubKey_Set_valid [of "4 # x @ y"] CPubKey_Set_valid [of "(if odd (last y) then 0x03 else 0x02) # x"]
          by (auto simp: b_def CPubKey_Decompress_def CPubKey_IsValid_def CPubKey_size_def GetLen_def)
        then have "Decompress secp (ucast b) x = Some script"
          using h by (auto simp: Decompress_def b_def split: if_splits)
        then show ?thesis using c h(1) tag [of b x] by (auto simp: b_def GetSpecialSize_def)
      qed
    qed
  qed
qed

lemma get_put_script:
  assumes "secp_decompresses secp" "length script \<le> MAX_SCRIPT_SIZE"
  shows "get_script secp (put_script secp script @ s) = Some (script, s)"
proof (cases "Compress secp script")
  case None
  let ?n = "of_nat (length script) + nSpecialScripts :: u32"
  have l: "unat (of_nat (length script) :: u32) = length script"
    using assms(2) by (simp add: unat_of_nat take_bit_nat_eq_self MAX_SCRIPT_SIZE_def)
  have u: "unat ?n = length script + 6"
    using assms(2) l by (subst unat_add_lem [THEN iffD1]) (simp_all add: nSpecialScripts_def MAX_SCRIPT_SIZE_def)
  have "\<not> ?n < nSpecialScripts" "?n - nSpecialScripts = of_nat (length script)"
    using u by (simp_all add: word_less_nat_alt nSpecialScripts_def)
  then show ?thesis using None l assms(2)
    by (simp add: put_script_def get_script_def cvi32.get_put stream_read_def)
qed (simp add: put_script_def get_put_compressed [OF assms(1)])

definition valid_coin_out :: "CTxOut \<Rightarrow> bool" where
  "valid_coin_out txout \<longleftrightarrow> 0 \<le> nValue txout \<and> nValue txout < 2 ^ 60 \<and> length (scriptPubKey txout) \<le> MAX_SCRIPT_SIZE"

lemma TxOutCompressor_codec:
  assumes "secp_decompresses secp"
  shows "codec (put_TxOutCompressor secp) (get_TxOutCompressor secp) valid_coin_out"
proof
  fix txout s assume v: "valid_coin_out txout"
  then have "unat (of_int (nValue txout) :: u64) < 2 ^ 60" "sint (of_int (nValue txout) :: u64) = nValue txout"
    by (simp_all add: valid_coin_out_def unat_eq_nat_uint uint_word_of_int_eq take_bit_int_eq_self
        sint_of_int int64_range_def nat_less_iff)
  then show "get_TxOutCompressor secp (put_TxOutCompressor secp txout @ s) = Some (txout, s)"
    using v get_put_script [OF assms, of "scriptPubKey txout"]
    by (simp add: get_TxOutCompressor_def put_TxOutCompressor_def cvi.get_put DecompressAmount_CompressAmount valid_coin_out_def)
qed

end
