(* ===== verification/Coins.thy ===== *)
theory Coins
  imports Compressor
begin

text \<open>
  Unspent outputs of one transaction (\<open>CCoins\<close> of \<^verbatim>\<open>coins.h\<close>) and the undo records of
  \<^verbatim>\<open>undo.h\<close>, with their compact serialization. A spent output is null, and trailing null outputs are
  dropped; the serialized form keeps a bit mask of the outputs that are left. What is written reads
  back for every set of outputs with an unspent one that the node can hold.
\<close>

section \<open>Coins\<close>

record CCoins =
  fCoinBase :: bool
  cc_vout :: "CTxOut list"
  cc_nHeight :: int
  cc_nVersion :: int

definition CCoins_empty :: CCoins where
  "CCoins_empty = \<lparr>fCoinBase = False, cc_vout = [], cc_nHeight = 0, cc_nVersion = 0\<rparr>"

definition Cleanup :: "CCoins \<Rightarrow> CCoins" where
  "Cleanup coins = coins\<lparr>cc_vout := rev (dropWhile CTxOut_IsNull (rev (cc_vout coins)))\<rparr>"

definition ClearUnspendable :: "CCoins \<Rightarrow> CCoins" where
  "ClearUnspendable coins =
     Cleanup (coins\<lparr>cc_vout := map (\<lambda>txout. if IsUnspendable (scriptPubKey txout) then CTxOut_null else txout) (cc_vout coins)\<rparr>)"

definition FromTx :: "'a CMutableTransaction_scheme \<Rightarrow> int \<Rightarrow> CCoins" where
  "FromTx tx nHeightIn =
     ClearUnspendable \<lparr>fCoinBase = IsCoinBase tx, cc_vout = vout tx, cc_nHeight = nHeightIn, cc_nVersion = nVersion tx\<rparr>"

definition IsAvailable :: "CCoins \<Rightarrow> u32 \<Rightarrow> bool" where
  "IsAvailable coins nPos \<longleftrightarrow> unat nPos < length (cc_vout coins) \<and> \<not> CTxOut_IsNull (cc_vout coins ! unat nPos)"

definition IsPruned :: "CCoins \<Rightarrow> bool" where
  "IsPruned coins \<longleftrightarrow> list_all CTxOut_IsNull (cc_vout coins)"

definition CCoins_eq :: "CCoins \<Rightarrow> CCoins \<Rightarrow> bool" where
  "CCoins_eq a b =
     (if IsPruned a \<and> IsPruned b then True
      else fCoinBase a = fCoinBase b \<and> cc_nHeight a = cc_nHeight b \<and> cc_nVersion a = cc_nVersion b \<and> cc_vout a = cc_vout b)"

definition Spend :: "CCoins \<Rightarrow> u32 \<Rightarrow> bool \<times> CCoins" where
  "Spend coins nPos =
     (if unat nPos \<ge> length (cc_vout coins) \<or> CTxOut_IsNull (cc_vout coins ! unat nPos) then (False, coins)
      else (True, Cleanup (coins\<lparr>cc_vout := (cc_vout coins)[unat nPos := CTxOut_null]\<rparr>)))"

section \<open>Serialization of coins\<close>

text \<open>The outputs of byte \<open>b\<close> of the mask that are not null.\<close>

definition mask_bit :: "CTxOut list \<Rightarrow> nat \<Rightarrow> nat \<Rightarrow> bool" where
  "mask_bit outs b i \<longleftrightarrow> 2 + b * 8 + i < length outs \<and> \<not> CTxOut_IsNull (outs ! (2 + b * 8 + i))"

definition CalcMaskSize :: "CCoins \<Rightarrow> nat \<times> nat" where
  "CalcMaskSize coins =
     foldl (\<lambda>(nLastUsedByte, nNonzeroBytes) b.
         let fZero = list_all (\<lambda>i. \<not> mask_bit (cc_vout coins) b i) [0..<8]
         in if \<not> fZero then (b + 1, nNonzeroBytes + 1) else (nLastUsedByte, nNonzeroBytes))
       (0, 0) [0..<(length (cc_vout coins) - 2 + 7) div 8]"

definition mask_byte :: "CTxOut list \<Rightarrow> nat \<Rightarrow> u8" where
  "mask_byte outs b = foldl (\<lambda>chAvail i. if mask_bit outs b i then chAvail OR push_bit i 1 else chAvail) 0 [0..<8]"

text \<open>\<open>None\<close> is the failed assertion that an output is left.\<close>

definition put_CCoins :: "('pk, 'sig) secp256k1 \<Rightarrow> CCoins \<Rightarrow> bytes option" where
  "put_CCoins secp coins =
     (let (nMaskSize, nMaskCode) = CalcMaskSize coins;
          outs = cc_vout coins;
          fFirst = (length outs > 0 \<and> \<not> CTxOut_IsNull (outs ! 0));
          fSecond = (length outs > 1 \<and> \<not> CTxOut_IsNull (outs ! 1));
          nCode = 8 * (of_nat nMaskCode - (if fFirst \<or> fSecond then 0 else 1)) + (if fCoinBase coins then 1 else 0) +
            (if fFirst then 2 else 0) + (if fSecond then 4 else 0) :: u32
      in if \<not> (fFirst \<or> fSecond \<or> nMaskCode \<noteq> 0) then None
         else Some (WriteVarInt_int (cc_nVersion coins) @ WriteVarInt (ucast nCode) @
           concat (map (\<lambda>b. ser_writedata8 (mask_byte outs b)) [0..<nMaskSize]) @
           concat (map (put_TxOutCompressor secp) (filter (\<lambda>txout. \<not> CTxOut_IsNull txout) outs)) @
           WriteVarInt_int (cc_nHeight coins)))"

text \<open>Mask bytes are read until the announced number of nonzero ones has been seen.\<close>

fun read_mask :: "nat \<Rightarrow> bytes \<Rightarrow> (bool list \<times> bytes) option" where
  "read_mask 0 s = Some ([], s)"
| "read_mask (Suc nMaskCode) [] = None"
| "read_mask (Suc nMaskCode) (chAvail # s) = do {
     (vAvail, s') \<leftarrow> read_mask (if chAvail \<noteq> 0 then nMaskCode else Suc nMaskCode) s;
     Some (map (\<lambda>p. chAvail AND push_bit p 1 \<noteq> 0) [0..<8] @ vAvail, s') }"

fun read_txouts :: "('pk, 'sig) secp256k1 \<Rightarrow> bool list \<Rightarrow> bytes \<Rightarrow> (CTxOut list \<times> bytes) option" where
  "read_txouts secp [] s = Some ([], s)"
| "read_txouts secp (avail # vAvail) s = do {
     (txout, s) \<leftarrow> (if avail then get_TxOutCompressor secp s else Some (CTxOut_null, s));
     (outs, s) \<leftarrow> read_txouts secp vAvail s;
     Some (txout # outs, s) }"

definition get_CCoins :: "('pk, 'sig) secp256k1 \<Rightarrow> bytes \<Rightarrow> (CCoins \<times> bytes) option" where
  "get_CCoins secp s = do {
     (ver, s) \<leftarrow> ReadVarInt_int s;
     (nCode, s) \<leftarrow> ReadVarInt32 s;
     (vAvail, s) \<leftarrow> read_mask (unat (nCode div 8 + (if nCode AND 6 \<noteq> 0 then 0 else 1))) s;
     (outs, s) \<leftarrow> read_txouts secp ([nCode AND 2 \<noteq> 0, nCode AND 4 \<noteq> 0] @ vAvail) s;
     (height, s) \<leftarrow> ReadVarInt_int s;
     Some (Cleanup \<lparr>fCoinBase = nCode AND 1 \<noteq> 0, cc_vout = outs, cc_nHeight = height, cc_nVersion = ver\<rparr>, s) }"

section \<open>Undo records\<close>

record CTxInUndo =
  undo_txout :: CTxOut
  undo_fCoinBase :: bool
  undo_nHeight :: u32
  undo_nVersion :: int

definition put_CTxInUndo :: "('pk, 'sig) secp256k1 \<Rightarrow> CTxInUndo \<Rightarrow> bytes" where
  "put_CTxInUndo secp undo =
     WriteVarInt (ucast (undo_nHeight undo * 2 + (if undo_fCoinBase undo then 1 else 0))) @
     (if undo_nHeight undo > 0 then WriteVarInt_int (undo_nVersion undo) else []) @
     put_TxOutCompressor secp (undo_txout undo)"

definition get_CTxInUndo :: "('pk, 'sig) secp256k1 \<Rightarrow> bytes \<Rightarrow> (CTxInUndo \<times> bytes) option" where
  "get_CTxInUndo secp s = do {
     (nCode, s) \<leftarrow> ReadVarInt32 s;
     (ver, s) \<leftarrow> (if nCode div 2 > 0 then ReadVarInt_int s else Some (0, s));
     (txout, s) \<leftarrow> get_TxOutCompressor secp s;
     Some (\<lparr>undo_txout = txout, undo_fCoinBase = nCode AND 1 \<noteq> 0, undo_nHeight = nCode div 2, undo_nVersion = ver\<rparr>, s) }"

type_synonym CTxUndo = "CTxInUndo list"

record CBlockUndo =
  vtxundo :: "CTxUndo list"
  old_tree_root :: uint256

definition put_CBlockUndo :: "('pk, 'sig) secp256k1 \<Rightarrow> CBlockUndo \<Rightarrow> bytes" where
  "put_CBlockUndo secp u = put_vector (put_vector (put_CTxInUndo secp)) (vtxundo u) @ put_blob (old_tree_root u)"

definition get_CBlockUndo :: "('pk, 'sig) secp256k1 \<Rightarrow> bytes \<Rightarrow> (CBlockUndo \<times> bytes) option" where
  "get_CBlockUndo secp s = do {
     (v, s) \<leftarrow> get_vector (get_vector (get_CTxInUndo secp)) s; (root, s) \<leftarrow> stream_read 32 s;
     Some (\<lparr>vtxundo = v, old_tree_root = root\<rparr>, s) }"

section \<open>Cleaned up outputs\<close>

definition trim_outs :: "CTxOut list \<Rightarrow> CTxOut list" where
  "trim_outs outs = rev (dropWhile CTxOut_IsNull (rev outs))"

definition clean_outs :: "CTxOut list \<Rightarrow> bool" where
  "clean_outs outs \<longleftrightarrow> outs = [] \<or> \<not> CTxOut_IsNull (last outs)"

definition out_bit :: "CTxOut list \<Rightarrow> nat \<Rightarrow> bool" where
  "out_bit outs k \<longleftrightarrow> k < length outs \<and> \<not> CTxOut_IsNull (outs ! k)"

lemma Cleanup_trim: "Cleanup coins = coins\<lparr>cc_vout := trim_outs (cc_vout coins)\<rparr>"
  by (simp add: Cleanup_def trim_outs_def)

lemma null_IsNull [simp]: "CTxOut_IsNull CTxOut_null"
  by (simp add: CTxOut_IsNull_def CTxOut_null_def)

lemma trim_outs_clean [simp]: "clean_outs (trim_outs outs)"
  using hd_dropWhile [of CTxOut_IsNull "rev outs"] by (auto simp: clean_outs_def trim_outs_def last_rev)

lemma trim_outs_id [simp]: "clean_outs outs \<Longrightarrow> trim_outs outs = outs"
  by (cases outs rule: rev_cases) (auto simp: clean_outs_def trim_outs_def)

lemma trim_outs_append_nulls: "list_all CTxOut_IsNull zs \<Longrightarrow> trim_outs (outs @ zs) = trim_outs outs"
  by (induction zs rule: rev_induct) (auto simp: trim_outs_def simp flip: append_assoc)

lemma trim_outs_prefix: obtains zs where "outs = trim_outs outs @ zs" "list_all CTxOut_IsNull zs"
proof
  show "outs = trim_outs outs @ rev (takeWhile CTxOut_IsNull (rev outs))"
    unfolding trim_outs_def by (metis rev_append rev_rev_ident takeWhile_dropWhile_id)
  show "list_all CTxOut_IsNull (rev (takeWhile CTxOut_IsNull (rev outs)))"
    by (auto simp: list_all_iff dest: set_takeWhileD)
qed

lemma trim_outs_Nil: "trim_outs outs = [] \<longleftrightarrow> list_all CTxOut_IsNull outs"
  by (auto simp: trim_outs_def list_all_iff)

lemma trim_outs_length: "length (trim_outs outs) \<le> length outs"
  by (metis trim_outs_prefix length_append le_add1)

lemma set_trim_outs: "set (trim_outs outs) \<subseteq> set outs"
  by (auto simp: trim_outs_def dest: set_dropWhileD)

lemma IsPruned_Cleanup [simp]: "IsPruned (Cleanup coins) = IsPruned coins"
proof -
  obtain zs where "cc_vout coins = trim_outs (cc_vout coins) @ zs" "list_all CTxOut_IsNull zs"
    by (rule trim_outs_prefix)
  then show ?thesis by (simp add: IsPruned_def Cleanup_trim) (metis list_all_append)
qed

lemma IsPruned_clean: "clean_outs (cc_vout coins) \<Longrightarrow> IsPruned coins \<longleftrightarrow> cc_vout coins = []"
  by (metis IsPruned_def trim_outs_Nil trim_outs_id)

lemma nulls_bit: "list_all CTxOut_IsNull zs \<Longrightarrow> out_bit (outs @ zs) k = out_bit outs k"
  by (auto simp: out_bit_def nth_append list_all_length)

lemma out_bit_trim [simp]: "out_bit (trim_outs outs) k = out_bit outs k"
  by (metis nulls_bit trim_outs_prefix)

lemma IsAvailable_bit: "IsAvailable coins nPos = out_bit (cc_vout coins) (unat nPos)"
  by (simp add: IsAvailable_def out_bit_def)

lemma IsAvailable_Cleanup [simp]: "IsAvailable (Cleanup coins) nPos = IsAvailable coins nPos"
  by (simp add: IsAvailable_bit Cleanup_trim)

section \<open>The mask\<close>

lemma mask_bit_out: "mask_bit outs b i = out_bit outs (2 + b * 8 + i)"
  by (simp add: mask_bit_def out_bit_def)

lemma bit_fold_or:
  fixes a :: u8
  shows "bit (foldl (\<lambda>ch i. if P i then ch OR push_bit i 1 else ch) a is) j \<longleftrightarrow>
     bit a j \<or> (j \<in> set is \<and> P j \<and> j < 8)"
  by (induction "is" arbitrary: a) (auto simp: bit_simps)

lemma bit_mask_byte: "bit (mask_byte outs b) j \<longleftrightarrow> j < 8 \<and> mask_bit outs b j"
  by (auto simp: mask_byte_def bit_fold_or)

lemma mask_byte_zero: "mask_byte outs b = 0 \<longleftrightarrow> list_all (\<lambda>i. \<not> mask_bit outs b i) [0..<8]"
  by (auto simp: bit_eq_iff bit_mask_byte list_all_iff)

lemma avail_bits:
  "map (\<lambda>p. mask_byte outs b AND push_bit p 1 \<noteq> 0) [0..<8] = map (\<lambda>p. out_bit outs (2 + b * 8 + p)) [0..<8]"
proof (rule map_cong [OF refl])
  fix p assume "p \<in> set [0..<8]"
  then show "(mask_byte outs b AND push_bit p 1 \<noteq> 0) = out_bit outs (2 + b * 8 + p)"
    using and_exp_eq_0_iff_not_bit [of "mask_byte outs b" p]
    by (simp add: bit_mask_byte mask_bit_out push_bit_eq_mult)
qed

lemma read_mask_bytes:
  "bs = [] \<or> last bs \<noteq> 0 \<Longrightarrow>
   read_mask (length (filter (\<lambda>c. c \<noteq> 0) bs)) (bs @ s) =
     Some (concat (map (\<lambda>c. map (\<lambda>p. c AND push_bit p 1 \<noteq> 0) [0..<8]) bs), s)"
proof (induction bs)
  case (Cons c bs)
  have IH: "read_mask (length (filter (\<lambda>c. c \<noteq> 0) bs)) (bs @ s) =
     Some (concat (map (\<lambda>c. map (\<lambda>p. c AND push_bit p 1 \<noteq> 0) [0..<8]) bs), s)"
    using Cons by (cases "bs = []") auto
  show ?case
  proof (cases "c = 0")
    case True
    then have "bs \<noteq> []" "last bs \<noteq> 0" using Cons.prems by (auto split: if_splits)
    then have "filter (\<lambda>c. c \<noteq> 0) bs \<noteq> []" by (metis (mono_tags, lifting) filter_empty_conv last_in_set)
    then obtain n where "length (filter (\<lambda>c. c \<noteq> 0) bs) = Suc n" by (cases "filter (\<lambda>c. c \<noteq> 0) bs") auto
    then show ?thesis using IH True by (simp del: upt_Suc)
  next
    case False
    then show ?thesis using IH by (simp del: upt_Suc)
  qed
qed simp

section \<open>Coins read back\<close>

lemma CalcMaskSize_counts:
  "foldl (\<lambda>(l, c) b. let z = Z b in if \<not> z then (b + 1, c + 1) else (l, c)) (l, c) [m..<m + n] =
     (if list_all Z [m..<m + n] then l else last (filter (\<lambda>b. \<not> Z b) [m..<m + n]) + 1,
      c + length (filter (\<lambda>b. \<not> Z b) [m..<m + n]))"
proof (induction n)
  case (Suc n)
  then show ?case by (auto simp: list_all_iff)
qed simp

definition mask_bytes :: "CTxOut list \<Rightarrow> nat" where
  "mask_bytes outs = (length outs - 2 + 7) div 8"

lemma mask_bytes_cover: "length outs \<le> 2 + mask_bytes outs * 8"
proof -
  have "length outs - 2 + 7 < (length outs - 2 + 7) div 8 * 8 + 8"
    by (metis div_mod_decomp mod_less_divisor nat_add_left_cancel_less zero_less_numeral)
  then show ?thesis by (simp add: mask_bytes_def)
qed

lemma last_mask_byte:
  assumes "clean_outs outs" "mask_bytes outs = Suc n"
  shows "mask_byte outs n \<noteq> 0"
proof -
  have l: "2 < length outs" using assms(2) by (simp add: mask_bytes_def)
  define i where "i = length outs - 1 - (2 + n * 8)"
  have "n = (length outs - 3) div 8" using assms(2) l by (simp add: mask_bytes_def div_add_self2)
  then have n: "n * 8 \<le> length outs - 3" "length outs - 3 < n * 8 + 8"
    using div_mult_mod_eq [of "length outs - 3" 8] mod_less_divisor [of 8 "length outs - 3"] by linarith+
  then have i: "i < 8" "2 + n * 8 + i = length outs - 1" using l by (auto simp: i_def)
  have "outs \<noteq> []" using l by auto
  then have "out_bit outs (length outs - 1)" using assms(1) l by (auto simp: clean_outs_def out_bit_def last_conv_nth)
  then have "mask_bit outs n i" unfolding mask_bit_out i(2) by simp
  then show ?thesis using i(1) by (auto simp: mask_byte_zero list_all_iff)
qed

lemma CalcMaskSize_clean:
  assumes "clean_outs (cc_vout coins)"
  shows "CalcMaskSize coins =
    (mask_bytes (cc_vout coins), length (filter (\<lambda>c. c \<noteq> 0) (map (mask_byte (cc_vout coins)) [0..<mask_bytes (cc_vout coins)])))"
proof -
  let ?o = "cc_vout coins" let ?n = "mask_bytes ?o"
  let ?Z = "\<lambda>b. list_all (\<lambda>i. \<not> mask_bit ?o b i) [0..<8]"
  have e: "CalcMaskSize coins = (if list_all ?Z [0..<?n] then 0 else last (filter (\<lambda>b. \<not> ?Z b) [0..<?n]) + 1,
      length (filter (\<lambda>b. \<not> ?Z b) [0..<?n]))"
    using CalcMaskSize_counts [of ?Z 0 0 0 ?n] by (simp add: CalcMaskSize_def mask_bytes_def)
  have z: "(\<not> ?Z b) = (mask_byte ?o b \<noteq> 0)" for b using mask_byte_zero [of ?o b] by blast
  have "length (filter (\<lambda>b. \<not> ?Z b) [0..<?n]) = length (filter (\<lambda>c. c \<noteq> 0) (map (mask_byte ?o) [0..<?n]))"
    unfolding z by (simp add: filter_map comp_def)
  moreover have "(if list_all ?Z [0..<?n] then 0 else last (filter (\<lambda>b. \<not> ?Z b) [0..<?n]) + 1) = ?n"
  proof (cases ?n)
    case (Suc n)
    then have "\<not> ?Z n" using last_mask_byte [OF assms Suc] unfolding z by blast
    then show ?thesis using Suc by (auto simp: list_all_iff)
  qed simp
  ultimately show ?thesis using e by simp
qed

definition valid_coins :: "CCoins \<Rightarrow> bool" where
  "valid_coins coins \<longleftrightarrow> clean_outs (cc_vout coins) \<and> length (cc_vout coins) \<le> unat MAX_SIZE \<and>
     (\<forall>txout \<in> set (cc_vout coins). txout = CTxOut_null \<or> valid_coin_out txout) \<and>
     0 \<le> cc_nHeight coins \<and> cc_nHeight coins < 2 ^ 31 \<and> 0 \<le> cc_nVersion coins \<and> cc_nVersion coins < 2 ^ 31"

lemma valid_coin_out_not_null: "valid_coin_out txout \<Longrightarrow> \<not> CTxOut_IsNull txout"
  by (simp add: valid_coin_out_def CTxOut_IsNull_def)

lemma read_txouts_put:
  assumes "secp_decompresses secp" "\<forall>txout \<in> set outs. txout = CTxOut_null \<or> valid_coin_out txout"
  shows "read_txouts secp (map (\<lambda>txout. \<not> CTxOut_IsNull txout) outs)
     (concat (map (put_TxOutCompressor secp) (filter (\<lambda>txout. \<not> CTxOut_IsNull txout) outs)) @ s) = Some (outs, s)"
  using assms(2)
proof (induction outs)
  case (Cons txout outs)
  then show ?case
    using codec.get_put [OF TxOutCompressor_codec [OF assms(1)], of txout] valid_coin_out_not_null [of txout] by auto
qed simp

text \<open>The header code: the number of nonzero mask bytes above three flags.\<close>

lemma low_bits:
  fixes x :: u32
  assumes "unat x = 8 * m + c" "c < 8"
  shows "unat (x div 8) = m" "(x AND 1 \<noteq> 0) = odd c" "(x AND 2 \<noteq> 0) = odd (c div 2)" "(x AND 4 \<noteq> 0) = odd (c div 4)"
    "(x AND 6 \<noteq> 0) = (odd (c div 2) \<or> odd (c div 4))"
proof -
  have b: "bit x i = odd ((8 * m + c) div 2 ^ i)" for i
    unfolding assms(1) [symmetric] by (simp add: bit_unsigned_iff flip: bit_iff_odd)
  have d: "(8 * m + c) div 2 = 4 * m + c div 2" "(8 * m + c) div 4 = 2 * m + c div 4" by presburger+
  have b0: "bit x 0 = odd c" unfolding b by simp
  have b1: "bit x 1 = odd (c div 2)" unfolding b using d(1) by simp
  have b2: "bit x 2 = odd (c div 4)" unfolding b using d(2) by simp
  show "unat (x div 8) = m" using assms by (simp add: unat_div)
  show "(x AND 1 \<noteq> 0) = odd c" using b0 and_exp_eq_0_iff_not_bit [of x 0] by simp
  show 2: "(x AND 2 \<noteq> 0) = odd (c div 2)" using b1 and_exp_eq_0_iff_not_bit [of x 1] by simp
  show 4: "(x AND 4 \<noteq> 0) = odd (c div 4)" using b2 and_exp_eq_0_iff_not_bit [of x 2] by simp
  have "x AND 6 = (x AND 2) OR (x AND 4)" by (simp flip: bit.conj_disj_distrib)
  then show "(x AND 6 \<noteq> 0) = (odd (c div 2) \<or> odd (c div 4))" using 2 4 or_eq_0_iff [of "x AND 2" "x AND 4"] by simp
qed

lemma code_word:
  assumes "m < 2 ^ 28" "c < (8 :: nat)"
  shows "unat (8 * of_nat m + of_nat c :: u32) = 8 * m + c"
proof -
  have "unat (of_nat (8 * m + c) :: u32) = 8 * m + c"
    using assms by (simp only: unat_of_nat) (simp add: take_bit_nat_eq_self)
  then show ?thesis by simp
qed

lemma avail_map: "map (out_bit outs) [0..<length outs] = map (\<lambda>txout. \<not> CTxOut_IsNull txout) outs"
  by (rule nth_equalityI) (auto simp: out_bit_def)

lemma concat_chunks:
  "concat (map (\<lambda>b. map (\<lambda>p. f (2 + b * 8 + p)) [0..<8]) [0..<n]) = map f [2..<2 + n * 8]"
proof (induction n)
  case (Suc n)
  have "[2..<2 + Suc n * 8] = [2..<2 + n * 8] @ map (\<lambda>p. 2 + n * 8 + p) [0..<8]"
    using upt_add_eq_append [of 2 "2 + n * 8" 8] map_add_upt [of "2 + n * 8" 8] by (simp add: add.commute)
  then show ?case using Suc by simp
qed simp

lemma mask_count_small:
  assumes "length outs \<le> unat MAX_SIZE"
  shows "length (filter P (map f [0..<mask_bytes outs])) < 2 ^ 28"
proof -
  have "length (filter P (map f [0..<mask_bytes outs])) \<le> mask_bytes outs"
    by (metis length_filter_le length_map diff_zero length_upt)
  moreover have "mask_bytes outs \<le> length outs + 7" by (simp add: mask_bytes_def)
  ultimately show ?thesis using assms by (simp add: MAX_SIZE_def)
qed

lemma no_mask_bytes:
  assumes "clean_outs outs" "mask_bytes outs = 0 \<or> length (filter (\<lambda>c. c \<noteq> 0) (map (mask_byte outs) [0..<mask_bytes outs])) = 0"
    "\<not> out_bit outs 0" "\<not> out_bit outs 1"
  shows "list_all CTxOut_IsNull outs"
proof -
  have "mask_bytes outs = 0"
  proof (rule ccontr)
    assume "mask_bytes outs \<noteq> 0"
    then obtain n where n: "mask_bytes outs = Suc n" by (cases "mask_bytes outs") auto
    then show False using assms(2) last_mask_byte [OF assms(1) n] by (auto simp: filter_empty_conv)
  qed
  then have l: "length outs \<le> 2" using mask_bytes_cover [of outs] by simp
  show ?thesis unfolding list_all_length
  proof (intro allI impI)
    fix k assume "k < length outs"
    then have "k = 0 \<or> k = 1" using l by auto
    then show "CTxOut_IsNull (outs ! k)" using assms(3,4) \<open>k < length outs\<close> by (auto simp: out_bit_def)
  qed
qed

text \<open>The header code keeps the flags and the number of mask bytes.\<close>

lemma header_code:
  fixes k :: nat and cb first second :: bool
  assumes "k < 2 ^ 28" "first \<or> second \<or> k \<noteq> 0"
  defines "code \<equiv> 8 * (of_nat k - (if first \<or> second then 0 else 1)) + (if cb then 1 else 0) +
    (if first then 2 else 0) + (if second then 4 else 0) :: u32"
  shows "(code AND 1 \<noteq> 0) = cb" "(code AND 2 \<noteq> 0) = first" "(code AND 4 \<noteq> 0) = second"
    "unat (code div 8 + (if code AND 6 \<noteq> 0 then 0 else 1)) = k"
proof -
  define m where "m = k - (if first \<or> second then 0 else 1)"
  define c :: nat where "c = (if cb then 1 else 0) + (if first then 2 else 0) + (if second then 4 else 0)"
  have "(of_nat k - (if first \<or> second then 0 else 1) :: u32) = of_nat m"
    using assms(2) by (cases k) (auto simp: m_def)
  then have "code = 8 * of_nat m + of_nat c" unfolding code_def c_def by auto
  then have u: "unat code = 8 * m + c" "c < 8" using code_word [of m c] assms(1) by (auto simp: c_def m_def)
  have odd: "odd c = cb" "odd (c div 2) = first" "odd (c div 4) = second" by (auto simp: c_def)
  note bits = low_bits [OF u, unfolded odd]
  show "(code AND 1 \<noteq> 0) = cb" "(code AND 2 \<noteq> 0) = first" "(code AND 4 \<noteq> 0) = second" by (fact bits)+
  have "unat (code div 8) + 1 < 2 ^ 32" using bits(1) assms(1) by (simp add: m_def)
  then show "unat (code div 8 + (if code AND 6 \<noteq> 0 then 0 else 1)) = k"
    using bits(1,5) assms(2) by (auto simp: m_def unat_add_lem [THEN iffD1])
qed

definition pad_outs :: "CTxOut list \<Rightarrow> CTxOut list" where
  "pad_outs outs = replicate (2 + mask_bytes outs * 8 - length outs) CTxOut_null"

lemma pad_outs_null: "list_all CTxOut_IsNull (pad_outs outs)" "filter (\<lambda>txout. \<not> CTxOut_IsNull txout) (pad_outs outs) = []"
  by (simp_all add: pad_outs_def list_all_iff)

lemma avail_padded:
  "[out_bit outs 0, out_bit outs 1] @
     concat (map (\<lambda>c. map (\<lambda>p. c AND push_bit p 1 \<noteq> 0) [0..<8]) (map (mask_byte outs) [0..<mask_bytes outs])) =
   map (\<lambda>txout. \<not> CTxOut_IsNull txout) (outs @ pad_outs outs)"
proof -
  let ?n = "mask_bytes outs"
  have l: "length (outs @ pad_outs outs) = 2 + ?n * 8" using mask_bytes_cover [of outs] by (simp add: pad_outs_def)
  have "concat (map (\<lambda>c. map (\<lambda>p. c AND push_bit p 1 \<noteq> 0) [0..<8]) (map (mask_byte outs) [0..<?n])) =
      map (out_bit outs) [2..<2 + ?n * 8]"
    unfolding map_map comp_def avail_bits by (rule concat_chunks)
  then have "[out_bit outs 0, out_bit outs 1] @
     concat (map (\<lambda>c. map (\<lambda>p. c AND push_bit p 1 \<noteq> 0) [0..<8]) (map (mask_byte outs) [0..<?n])) =
     map (out_bit outs) (0 # 1 # [2..<2 + ?n * 8])"
    by (simp only: append.simps list.map)
  moreover have "0 # 1 # [2..<2 + ?n * 8] = [0..<2 + ?n * 8]"
    by (simp add: upt_conv_Cons numeral_2_eq_2 del: upt_Suc)
  ultimately have "[out_bit outs 0, out_bit outs 1] @
     concat (map (\<lambda>c. map (\<lambda>p. c AND push_bit p 1 \<noteq> 0) [0..<8]) (map (mask_byte outs) [0..<?n])) =
     map (out_bit outs) [0..<length (outs @ pad_outs outs)]" by (simp only: l)
  then show ?thesis unfolding avail_map [symmetric] nulls_bit [OF pad_outs_null(1)] .
qed

lemma CCoins_roundtrip:
  assumes secp: "secp_decompresses secp" and v: "valid_coins coins" and np: "\<not> IsPruned coins"
  shows "\<exists>b. put_CCoins secp coins = Some b \<and> (\<forall>s. get_CCoins secp (b @ s) = Some (coins, s))"
proof -
  let ?o = "cc_vout coins"
  let ?bs = "map (mask_byte ?o) [0..<mask_bytes ?o]"
  let ?k = "length (filter (\<lambda>c. c \<noteq> 0) ?bs)"
  let ?body = "concat (map (put_TxOutCompressor secp) (filter (\<lambda>txout. \<not> CTxOut_IsNull txout) ?o))"
  have cl: "clean_outs ?o" using v by (simp add: valid_coins_def)
  have left: "out_bit ?o 0 \<or> out_bit ?o 1 \<or> ?k \<noteq> 0"
    using no_mask_bytes [OF cl] np by (auto simp: IsPruned_def)
  have "?k < 2 ^ 28" by (rule mask_count_small) (use v in \<open>simp add: valid_coins_def\<close>)
  note code = header_code [OF this left, of "fCoinBase coins"]
  define code where "code = 8 * (of_nat ?k - (if out_bit ?o 0 \<or> out_bit ?o 1 then 0 else 1)) +
    (if fCoinBase coins then 1 else 0) + (if out_bit ?o 0 then 2 else 0) + (if out_bit ?o 1 then 4 else 0 :: u32)"
  let ?b = "WriteVarInt_int (cc_nVersion coins) @ WriteVarInt (ucast code) @ ?bs @ ?body @ WriteVarInt_int (cc_nHeight coins)"
  have f: "(length ?o > 0 \<and> \<not> CTxOut_IsNull (?o ! 0)) = out_bit ?o 0" "(length ?o > 1 \<and> \<not> CTxOut_IsNull (?o ! 1)) = out_bit ?o 1"
    by (simp_all add: out_bit_def)
  have "concat (map (\<lambda>b. ser_writedata8 (mask_byte ?o b)) [0..<mask_bytes ?o]) = ?bs"
    by (simp add: ser_writedata8_def)
  then have put: "put_CCoins secp coins = Some ?b"
    unfolding put_CCoins_def CalcMaskSize_clean [OF cl] Let_def prod.case f code_def [symmetric] using left by simp
  have bs: "?bs = [] \<or> last ?bs \<noteq> 0" using last_mask_byte [OF cl] by (cases "mask_bytes ?o") auto
  have "\<forall>txout \<in> set (?o @ pad_outs ?o). txout = CTxOut_null \<or> valid_coin_out txout"
    using v by (auto simp: valid_coins_def pad_outs_def)
  from read_txouts_put [OF secp this, folded avail_padded]
  have outs: "read_txouts secp ([out_bit ?o 0, out_bit ?o 1] @
      concat (map (\<lambda>c. map (\<lambda>p. c AND push_bit p 1 \<noteq> 0) [0..<8]) ?bs)) (?body @ s) = Some (?o @ pad_outs ?o, s)" for s
    by (simp only: filter_append pad_outs_null append_Nil2)
  have "Cleanup \<lparr>fCoinBase = fCoinBase coins, cc_vout = ?o @ pad_outs ?o, cc_nHeight = cc_nHeight coins, cc_nVersion = cc_nVersion coins\<rparr> = coins"
    using trim_outs_append_nulls [OF pad_outs_null(1), of ?o] cl by (simp add: Cleanup_trim)
  then have "get_CCoins secp (?b @ s) = Some (coins, s)" for s
    using v read_mask_bytes [OF bs] outs cvii.get_put
    by (simp add: get_CCoins_def cvi32.get_put code [folded code_def] valid_coins_def del: read_txouts.simps)
  then show ?thesis using put by blast
qed

section \<open>Undo records read back\<close>

definition valid_undo :: "CTxInUndo \<Rightarrow> bool" where
  "valid_undo undo \<longleftrightarrow> valid_coin_out (undo_txout undo) \<and> unat (undo_nHeight undo) < 2 ^ 31 \<and>
     0 \<le> undo_nVersion undo \<and> undo_nVersion undo < 2 ^ 31 \<and> (undo_nHeight undo = 0 \<longrightarrow> undo_nVersion undo = 0)"

lemma undo_code:
  fixes h :: u32 and cb :: bool
  assumes "unat h < 2 ^ 31"
  defines "code \<equiv> h * 2 + (if cb then 1 else 0)"
  shows "code div 2 = h" "(code AND 1 \<noteq> 0) = cb"
proof -
  have h2: "unat (h * 2) = unat h * 2" using assms(1) unat_mult_lem [of h 2] by simp
  have u: "unat code = unat h * 2 + (if cb then 1 else 0)"
    unfolding code_def using h2 assms(1) by (auto simp: unat_add_lem [THEN iffD1])
  then show "code div 2 = h" by (simp add: word_unat_eq_iff unat_div)
  show "(code AND 1 \<noteq> 0) = cb" using u by (simp add: and_one_eq word_unat_eq_iff unat_mod)
qed

lemma CTxInUndo_codec:
  assumes "secp_decompresses secp"
  shows "codec (put_CTxInUndo secp) (get_CTxInUndo secp) valid_undo"
proof
  fix undo s assume v: "valid_undo undo"
  then have "unat (undo_nHeight undo) < 2 ^ 31" by (simp add: valid_undo_def)
  note code = undo_code [OF this, of "undo_fCoinBase undo"]
  show "get_CTxInUndo secp (put_CTxInUndo secp undo @ s) = Some (undo, s)"
    using v codec.get_put [OF TxOutCompressor_codec [OF assms]]
    by (cases "undo_nHeight undo = 0")
       (auto simp: get_CTxInUndo_def put_CTxInUndo_def cvi32.get_put code cvii.get_put valid_undo_def word_gt_0)
qed

definition valid_block_undo :: "CBlockUndo \<Rightarrow> bool" where
  "valid_block_undo u \<longleftrightarrow> valid_vector (valid_vector valid_undo) (vtxundo u) \<and> length (old_tree_root u) = 32"

lemma CBlockUndo_codec:
  assumes "secp_decompresses secp"
  shows "codec (put_CBlockUndo secp) (get_CBlockUndo secp) valid_block_undo"
proof
  fix u s assume v: "valid_block_undo u"
  note vec = codec.plain_vector_codec [OF codec.plain_vector_codec [OF CTxInUndo_codec [OF assms]]]
  show "get_CBlockUndo secp (put_CBlockUndo secp u @ s) = Some (u, s)"
    using v codec.get_put [OF vec] cblob.get_put
    by (simp add: get_CBlockUndo_def put_CBlockUndo_def valid_block_undo_def)
qed

section \<open>Spending\<close>

lemma out_bit_update_null: "k \<noteq> n \<Longrightarrow> out_bit (outs[n := CTxOut_null]) k = out_bit outs k" "\<not> out_bit (outs[n := CTxOut_null]) n"
  by (auto simp: out_bit_def nth_list_update)

lemma Spend_available: "fst (Spend coins nPos) = IsAvailable coins nPos"
  by (auto simp: Spend_def IsAvailable_def)

lemma Spend_spends:
  assumes "Spend coins nPos = (True, coins')"
  shows "IsAvailable coins' k \<longleftrightarrow> IsAvailable coins k \<and> k \<noteq> nPos"
    "clean_outs (cc_vout coins')" "fCoinBase coins' = fCoinBase coins" "cc_nHeight coins' = cc_nHeight coins"
    "cc_nVersion coins' = cc_nVersion coins"
proof -
  have c: "coins' = Cleanup (coins\<lparr>cc_vout := (cc_vout coins)[unat nPos := CTxOut_null]\<rparr>)"
    using assms by (auto simp: Spend_def split: if_splits)
  then show "clean_outs (cc_vout coins')" "fCoinBase coins' = fCoinBase coins" "cc_nHeight coins' = cc_nHeight coins"
    "cc_nVersion coins' = cc_nVersion coins"
    by (simp_all add: Cleanup_trim)
  show "IsAvailable coins' k \<longleftrightarrow> IsAvailable coins k \<and> k \<noteq> nPos"
    unfolding c IsAvailable_Cleanup
    using out_bit_update_null(1) [of "unat k" "unat nPos" "cc_vout coins"] out_bit_update_null(2) [of "cc_vout coins" "unat nPos"] by (cases "k = nPos") (auto simp: IsAvailable_bit word_unat_eq_iff)
qed

section \<open>Properties\<close>

text \<open>A stand-in for the curve on which every abscissa has two points, told apart by their parity.\<close>

definition sample_secp :: "(bool \<times> bytes, unit) secp256k1" where
  "sample_secp = \<lparr>
     ec_pubkey_parse = (\<lambda>v.
       if length v = 33 \<and> (hd v = 2 \<or> hd v = 3) then Some (hd v = 3, tl v)
       else if length v = 65 \<and> hd v = 4 \<and> take 31 (drop 33 v) = replicate 31 0 \<and> (last v = 0 \<or> last v = 1)
       then Some (last v = 1, take 32 (tl v)) else None),
     ecdsa_signature_parse_der = (\<lambda>_. None), ecdsa_is_high = (\<lambda>_. False), ecdsa_normalize = (\<lambda>s. s),
     ecdsa_verify = (\<lambda>_ _ _. False),
     ec_pubkey_serialize_uncompressed = (\<lambda>(p, x). 4 # x @ replicate 31 0 @ [if p then 1 else 0])\<rparr>"

lemma sample_secp_decompresses: "secp_decompresses sample_secp"
  unfolding secp_decompresses_def
proof (intro allI impI)
  fix x y :: bytes
  assume l: "length x = 32" "length y = 32" and p: "ec_pubkey_parse sample_secp (0x04 # x @ y) \<noteq> None"
  obtain z b where y: "y = z @ [b]" "length z = 31" using l(2) by (cases y rule: rev_cases) auto
  have "z = replicate 31 0" "b = 0 \<or> b = 1"
    using p l y by (auto simp: sample_secp_def split: if_splits)
  then show "\<exists>pk. ec_pubkey_parse sample_secp ((if odd (last y) then 0x03 else 0x02) # x) = Some pk \<and>
      ec_pubkey_serialize_uncompressed sample_secp pk = 0x04 # x @ y"
    using l y by (auto simp: sample_secp_def)
qed

definition sample_coins :: CCoins where
  "sample_coins = \<lparr>fCoinBase = True, cc_vout = [CTxOut_null, \<lparr>nValue = 600000, scriptPubKey = [OP_CHECKSIG]\<rparr>],
     cc_nHeight = 7, cc_nVersion = 1\<rparr>"

lemma sample_coins_valid: "valid_coins sample_coins" "\<not> IsPruned sample_coins"
  by (simp_all add: valid_coins_def sample_coins_def clean_outs_def CTxOut_IsNull_def MAX_SIZE_def
      valid_coin_out_def MAX_SCRIPT_SIZE_def IsPruned_def CTxOut_null_def)

text \<open>
  C13: What the coin database and the undo files keep reads back. Unspent outputs of a transaction, of
  which at least one is left, are never refused by the serializer, and reading restores them from
  the bit mask, the compressed amounts and the compressed scripts; undo data of a block reads back too.
\<close>

theorem coins_read_back:
  assumes "secp_decompresses secp"
  shows "(valid_coins coins \<and> \<not> IsPruned coins \<longrightarrow>
      (\<exists>b. put_CCoins secp coins = Some b \<and> get_CCoins secp (b @ s) = Some (coins, s))) \<and>
    (valid_block_undo u \<longrightarrow> get_CBlockUndo secp (put_CBlockUndo secp u @ s) = Some (u, s))"
  using CCoins_roundtrip [OF assms] codec.get_put [OF CBlockUndo_codec [OF assms]] by blast

theorem coins_read_back_witness:
  "\<exists>b. put_CCoins sample_secp sample_coins = Some b \<and> get_CCoins sample_secp (b @ [1]) = Some (sample_coins, [1])"
  using coins_read_back [OF sample_secp_decompresses, of sample_coins "[1]"] sample_coins_valid by simp

end
