(* ===== verification/IncMerkle.thy ===== *)
theory IncMerkle
  imports Serialize Hashing
begin

text \<open>
  The incremental Merkle trees of \<^verbatim>\<open>zcash/IncrementalMerkleTree.cpp\<close>: a tree of note commitments that
  keeps only the frontier, and the witnesses that follow one leaf while the tree grows. The
  template parameters are arguments: the depth, the hash combining two nodes and the empty leaf.
  The specification is the root of the full binary tree over a list of leaves. A tree represents
  the list of leaves appended to it; its root, size and fullness are those of that list, and a
  witness computes the same root as the tree that received the same leaves.
\<close>

section \<open>Nodes\<close>

text \<open>Two blobs of 32 bytes fill one block, so the exception of \<open>FinalizeNoPadding\<close> is not raised.\<close>

definition SHA256Compress_combine :: "uint256 \<Rightarrow> uint256 \<Rightarrow> uint256" where
  "SHA256Compress_combine a b =
     (case CSHA256_FinalizeNoPadding (CSHA256_Write (CSHA256_Write CSHA256_new a) b) True of
        Some res \<Rightarrow> res | None \<Rightarrow> uint256_null)"

fun empty_root :: "('h \<Rightarrow> 'h \<Rightarrow> 'h) \<Rightarrow> 'h \<Rightarrow> nat \<Rightarrow> 'h" where
  "empty_root cb e 0 = e"
| "empty_root cb e (Suc d) = cb (empty_root cb e d) (empty_root cb e d)"

definition filler_next :: "('h \<Rightarrow> 'h \<Rightarrow> 'h) \<Rightarrow> 'h \<Rightarrow> 'h list \<Rightarrow> nat \<Rightarrow> 'h \<times> 'h list" where
  "filler_next cb e queue depth =
     (case queue of h # q \<Rightarrow> (h, q) | [] \<Rightarrow> (empty_root cb e depth, []))"

section \<open>The tree\<close>

record 'h IncrementalMerkleTree =
  tr_left :: "'h option"
  tr_right :: "'h option"
  tr_parents :: "'h option list"

definition tree_new :: "'h IncrementalMerkleTree" where
  "tree_new = \<lparr>tr_left = None, tr_right = None, tr_parents = []\<rparr>"

definition wfcheck :: "nat \<Rightarrow> 'h IncrementalMerkleTree \<Rightarrow> bool" where
  "wfcheck Depth t =
     (if length (tr_parents t) \<ge> Depth then False
      else if tr_parents t \<noteq> [] \<and> last (tr_parents t) = None then False
      else if tr_left t = None \<and> tr_right t \<noteq> None then False
      else if tr_left t = None \<and> length (tr_parents t) > 0 then False
      else True)"

definition tree_last :: "'h IncrementalMerkleTree \<Rightarrow> 'h option" where
  "tree_last t = (case tr_right t of Some r \<Rightarrow> Some r | None \<Rightarrow> tr_left t)"

definition tree_size :: "'h IncrementalMerkleTree \<Rightarrow> nat" where
  "tree_size t =
     (if tr_left t \<noteq> None then 1 else 0) + (if tr_right t \<noteq> None then 1 else 0) +
     sum_list (map (\<lambda>i. if tr_parents t ! i \<noteq> None then 2 ^ (i + 1) else 0) [0..<length (tr_parents t)])"

definition is_complete :: "'h IncrementalMerkleTree \<Rightarrow> nat \<Rightarrow> bool" where
  "is_complete t depth =
     (if tr_left t = None \<or> tr_right t = None then False
      else if \<not> (0 < depth \<and> length (tr_parents t) = depth - 1) then False
      else list_all (\<lambda>parent. parent \<noteq> None) (tr_parents t))"

text \<open>The loop of \<open>append\<close>; the first argument counts the iterations left.\<close>

fun append_loop :: "('h \<Rightarrow> 'h \<Rightarrow> 'h) \<Rightarrow> nat \<Rightarrow> 'h \<Rightarrow> 'h option list \<Rightarrow> 'h option list" where
  "append_loop cb 0 combined ps = ps"
| "append_loop cb (Suc n) combined [] = [Some combined]"
| "append_loop cb (Suc n) combined (Some p # ps) = None # append_loop cb n (cb p combined) ps"
| "append_loop cb (Suc n) combined (None # ps) = Some combined # ps"

definition tree_append ::
  "('h \<Rightarrow> 'h \<Rightarrow> 'h) \<Rightarrow> nat \<Rightarrow> 'h IncrementalMerkleTree \<Rightarrow> 'h \<Rightarrow> 'h IncrementalMerkleTree option" where
  "tree_append cb Depth t obj =
     (if is_complete t Depth then None
      else case tr_left t of None \<Rightarrow> Some (t\<lparr>tr_left := Some obj\<rparr>)
      | Some l \<Rightarrow>
        (case tr_right t of None \<Rightarrow> Some (t\<lparr>tr_right := Some obj\<rparr>)
         | Some r \<Rightarrow> Some \<lparr>tr_left = Some obj, tr_right = None,
                      tr_parents = append_loop cb Depth (cb l r) (tr_parents t)\<rparr>))"

definition take_skip :: "'a option \<Rightarrow> nat option \<Rightarrow> nat option" where
  "take_skip x skip =
     (case skip of None \<Rightarrow> None
      | Some k \<Rightarrow> if x = None then (if k > 0 then Some (k - 1) else None) else Some k)"

fun next_depth_loop :: "nat \<Rightarrow> nat \<Rightarrow> 'h option list \<Rightarrow> nat" where
  "next_depth_loop skip d [] = d + skip"
| "next_depth_loop skip d (parent # ps) =
     (if parent = None then (if skip > 0 then next_depth_loop (skip - 1) (d + 1) ps else d)
      else next_depth_loop skip (d + 1) ps)"

definition next_depth :: "'h IncrementalMerkleTree \<Rightarrow> nat \<Rightarrow> nat" where
  "next_depth t skip =
     (case take_skip (tr_right t) (take_skip (tr_left t) (Some skip)) of
        None \<Rightarrow> 0 | Some k \<Rightarrow> next_depth_loop k 1 (tr_parents t))"

fun root_parents ::
  "('h \<Rightarrow> 'h \<Rightarrow> 'h) \<Rightarrow> 'h \<Rightarrow> nat \<Rightarrow> 'h option list \<Rightarrow> 'h \<Rightarrow> 'h list \<Rightarrow> nat \<times> 'h \<times> 'h list" where
  "root_parents cb e d [] root q = (d, root, q)"
| "root_parents cb e d (Some p # ps) root q = root_parents cb e (d + 1) ps (cb p root) q"
| "root_parents cb e d (None # ps) root q =
     (let (h, q') = filler_next cb e q d in root_parents cb e (d + 1) ps (cb root h) q')"

text \<open>The rest of the way up; the first argument is how many levels are left below \<open>depth\<close>.\<close>

fun root_fill :: "('h \<Rightarrow> 'h \<Rightarrow> 'h) \<Rightarrow> 'h \<Rightarrow> nat \<Rightarrow> nat \<Rightarrow> 'h \<Rightarrow> 'h list \<Rightarrow> 'h" where
  "root_fill cb e 0 d root q = root"
| "root_fill cb e (Suc n) d root q =
     (let (h, q') = filler_next cb e q d in root_fill cb e n (d + 1) (cb root h) q')"

definition tree_root ::
  "('h \<Rightarrow> 'h \<Rightarrow> 'h) \<Rightarrow> 'h \<Rightarrow> 'h IncrementalMerkleTree \<Rightarrow> nat \<Rightarrow> 'h list \<Rightarrow> 'h" where
  "tree_root cb e t depth filler_hashes =
     (let (combine_left, q1) = (case tr_left t of Some l \<Rightarrow> (l, filler_hashes) | None \<Rightarrow> filler_next cb e filler_hashes 0);
          (combine_right, q2) = (case tr_right t of Some r \<Rightarrow> (r, q1) | None \<Rightarrow> filler_next cb e q1 0);
          (d, root, q3) = root_parents cb e 1 (tr_parents t) (cb combine_left combine_right) q2
      in root_fill cb e (depth - d) d root q3)"

text \<open>The authentication path from the leaf up, with the side the sibling is on.\<close>

fun path_parents ::
  "('h \<Rightarrow> 'h \<Rightarrow> 'h) \<Rightarrow> 'h \<Rightarrow> nat \<Rightarrow> 'h option list \<Rightarrow> 'h list \<Rightarrow> (bool \<times> 'h) list \<times> nat \<times> 'h list" where
  "path_parents cb e d [] q = ([], d, q)"
| "path_parents cb e d (Some p # ps) q =
     (let (path, d', q') = path_parents cb e (d + 1) ps q in ((True, p) # path, d', q'))"
| "path_parents cb e d (None # ps) q =
     (let (h, q1) = filler_next cb e q d; (path, d', q') = path_parents cb e (d + 1) ps q1
      in ((False, h) # path, d', q'))"

fun path_fill :: "('h \<Rightarrow> 'h \<Rightarrow> 'h) \<Rightarrow> 'h \<Rightarrow> nat \<Rightarrow> nat \<Rightarrow> 'h list \<Rightarrow> (bool \<times> 'h) list" where
  "path_fill cb e 0 d q = []"
| "path_fill cb e (Suc n) d q =
     (let (h, q') = filler_next cb e q d in (False, h) # path_fill cb e n (d + 1) q')"

definition tree_path ::
  "('h \<Rightarrow> 'h \<Rightarrow> 'h) \<Rightarrow> 'h \<Rightarrow> nat \<Rightarrow> 'h IncrementalMerkleTree \<Rightarrow> 'h list \<Rightarrow> (bool \<times> 'h) list option" where
  "tree_path cb e Depth t filler_hashes =
     (case tr_left t of None \<Rightarrow> None
      | Some l \<Rightarrow>
          let (leaf, q1) = (case tr_right t of Some r \<Rightarrow> ((True, l), filler_hashes)
                            | None \<Rightarrow> let (h, q) = filler_next cb e filler_hashes 0 in ((False, h), q));
              (path, d, q2) = path_parents cb e 1 (tr_parents t) q1
          in Some (rev (leaf # path @ path_fill cb e (Depth - d) d q2)))"

section \<open>Witnesses\<close>

record 'h IncrementalWitness =
  wit_tree :: "'h IncrementalMerkleTree"
  wit_filled :: "'h list"
  wit_cursor :: "'h IncrementalMerkleTree option"
  wit_cursor_depth :: nat

definition tree_witness :: "'h IncrementalMerkleTree \<Rightarrow> 'h IncrementalWitness" where
  "tree_witness t = \<lparr>wit_tree = t, wit_filled = [], wit_cursor = None, wit_cursor_depth = 0\<rparr>"

definition partial_path :: "('h \<Rightarrow> 'h \<Rightarrow> 'h) \<Rightarrow> 'h \<Rightarrow> 'h IncrementalWitness \<Rightarrow> 'h list" where
  "partial_path cb e w =
     wit_filled w @ (case wit_cursor w of None \<Rightarrow> [] | Some c \<Rightarrow> [tree_root cb e c (wit_cursor_depth w) []])"

definition witness_root :: "('h \<Rightarrow> 'h \<Rightarrow> 'h) \<Rightarrow> 'h \<Rightarrow> nat \<Rightarrow> 'h IncrementalWitness \<Rightarrow> 'h" where
  "witness_root cb e Depth w = tree_root cb e (wit_tree w) Depth (partial_path cb e w)"

definition witness_path :: "('h \<Rightarrow> 'h \<Rightarrow> 'h) \<Rightarrow> 'h \<Rightarrow> nat \<Rightarrow> 'h IncrementalWitness \<Rightarrow> (bool \<times> 'h) list option" where
  "witness_path cb e Depth w = tree_path cb e Depth (wit_tree w) (partial_path cb e w)"

definition witness_element :: "'h IncrementalWitness \<Rightarrow> 'h option" where
  "witness_element w = tree_last (wit_tree w)"

definition witness_append ::
  "('h \<Rightarrow> 'h \<Rightarrow> 'h) \<Rightarrow> 'h \<Rightarrow> nat \<Rightarrow> 'h IncrementalWitness \<Rightarrow> 'h \<Rightarrow> 'h IncrementalWitness option" where
  "witness_append cb e Depth w obj =
     (case wit_cursor w of
        Some cursor \<Rightarrow>
          (case tree_append cb Depth cursor obj of None \<Rightarrow> None
           | Some c \<Rightarrow>
               if is_complete c (wit_cursor_depth w)
               then Some (w\<lparr>wit_filled := wit_filled w @ [tree_root cb e c (wit_cursor_depth w) []], wit_cursor := None\<rparr>)
               else Some (w\<lparr>wit_cursor := Some c\<rparr>))
      | None \<Rightarrow>
          let depth = next_depth (wit_tree w) (length (wit_filled w))
          in if depth \<ge> Depth then None
             else if depth = 0 then Some (w\<lparr>wit_filled := wit_filled w @ [obj], wit_cursor_depth := depth\<rparr>)
             else (case tree_append cb Depth tree_new obj of None \<Rightarrow> None
                   | Some c \<Rightarrow> Some (w\<lparr>wit_cursor := Some c, wit_cursor_depth := depth\<rparr>)))"

section \<open>Serialization\<close>

definition put_optional :: "('a \<Rightarrow> bytes) \<Rightarrow> 'a option \<Rightarrow> bytes" where
  "put_optional put item = (case item of None \<Rightarrow> ser_writedata8 0x00 | Some x \<Rightarrow> ser_writedata8 0x01 @ put x)"

definition get_optional :: "(bytes \<Rightarrow> ('a \<times> bytes) option) \<Rightarrow> bytes \<Rightarrow> ('a option \<times> bytes) option" where
  "get_optional get s = do {
     (discriminant, s) \<leftarrow> ser_readdata8 s;
     if discriminant = 0x00 then Some (None, s)
     else if discriminant = 0x01 then do { (x, s) \<leftarrow> get s; Some (Some x, s) }
     else None }"

definition put_tree :: "uint256 IncrementalMerkleTree \<Rightarrow> bytes" where
  "put_tree t = put_optional put_blob (tr_left t) @ put_optional put_blob (tr_right t) @
     put_vector (put_optional put_blob) (tr_parents t)"

definition get_tree :: "nat \<Rightarrow> bytes \<Rightarrow> (uint256 IncrementalMerkleTree \<times> bytes) option" where
  "get_tree Depth s = do {
     (l, s) \<leftarrow> get_optional (stream_read 32) s; (r, s) \<leftarrow> get_optional (stream_read 32) s;
     (ps, s) \<leftarrow> get_vector (get_optional (stream_read 32)) s;
     let t = \<lparr>tr_left = l, tr_right = r, tr_parents = ps\<rparr>
     in if wfcheck Depth t then Some (t, s) else None }"

definition INCREMENTAL_MERKLE_TREE_DEPTH :: nat where "INCREMENTAL_MERKLE_TREE_DEPTH = 29"

section \<open>The root of a full tree\<close>

fun mroot :: "('h \<Rightarrow> 'h \<Rightarrow> 'h) \<Rightarrow> 'h \<Rightarrow> nat \<Rightarrow> 'h list \<Rightarrow> 'h" where
  "mroot cb e 0 xs = (case xs of [] \<Rightarrow> e | x # _ \<Rightarrow> x)"
| "mroot cb e (Suc d) xs = cb (mroot cb e d (take (2 ^ d) xs)) (mroot cb e d (drop (2 ^ d) xs))"

lemma mroot_Nil [simp]: "mroot cb e d [] = empty_root cb e d"
  by (induction d) simp_all

lemma mroot_short: "length xs \<le> 2 ^ d \<Longrightarrow> mroot cb e (Suc d) xs = cb (mroot cb e d xs) (empty_root cb e d)"
  by simp

lemma mroot_halves: "length xs = 2 ^ d \<Longrightarrow> mroot cb e (Suc d) (xs @ ys) = cb (mroot cb e d xs) (mroot cb e d ys)"
  by simp

declare mroot.simps(2) [simp del]

section \<open>The leaves a tree stands for\<close>

text \<open>The parents from level \<open>i\<close> on stand for full subtrees; the highest comes first in the list.\<close>

fun rep_parents :: "('h \<Rightarrow> 'h \<Rightarrow> 'h) \<Rightarrow> 'h \<Rightarrow> nat \<Rightarrow> 'h option list \<Rightarrow> 'h list \<Rightarrow> bool" where
  "rep_parents cb e i [] ys \<longleftrightarrow> ys = []"
| "rep_parents cb e i (None # ps) ys \<longleftrightarrow> rep_parents cb e (Suc i) ps ys"
| "rep_parents cb e i (Some p # ps) ys \<longleftrightarrow>
     (\<exists>ys' b. ys = ys' @ b \<and> length b = 2 ^ i \<and> p = mroot cb e i b \<and> rep_parents cb e (Suc i) ps ys')"

fun rep_leaves :: "'h option \<Rightarrow> 'h option \<Rightarrow> 'h list \<Rightarrow> bool" where
  "rep_leaves None None zs \<longleftrightarrow> zs = []"
| "rep_leaves (Some a) None zs \<longleftrightarrow> zs = [a]"
| "rep_leaves (Some a) (Some b) zs \<longleftrightarrow> zs = [a, b]"
| "rep_leaves None (Some b) zs \<longleftrightarrow> False"

definition tree_rep :: "('h \<Rightarrow> 'h \<Rightarrow> 'h) \<Rightarrow> 'h \<Rightarrow> 'h IncrementalMerkleTree \<Rightarrow> 'h list \<Rightarrow> bool" where
  "tree_rep cb e t xs \<longleftrightarrow>
     (\<exists>ys zs. xs = ys @ zs \<and> rep_leaves (tr_left t) (tr_right t) zs \<and> rep_parents cb e 1 (tr_parents t) ys \<and>
        (zs = [] \<longrightarrow> tr_parents t = []) \<and> (tr_parents t \<noteq> [] \<longrightarrow> last (tr_parents t) \<noteq> None))"

lemma rep_parents_upper: "rep_parents cb e i ps ys \<Longrightarrow> length ys + 2 ^ i \<le> 2 ^ (i + length ps)"
proof (induction cb e i ps ys rule: rep_parents.induct)
  case (2 cb e i ps ys)
  then show ?case by simp
next
  case (3 cb e i p ps ys)
  then obtain ys' b where "ys = ys' @ b" "length b = 2 ^ i" "rep_parents cb e (Suc i) ps ys'" by auto
  then show ?case using 3 by fastforce
qed simp

lemma rep_parents_full:
  "rep_parents cb e i ps ys \<Longrightarrow> length ys + 2 ^ i = 2 ^ (i + length ps) \<longleftrightarrow> list_all (\<lambda>p. p \<noteq> None) ps"
proof (induction cb e i ps ys rule: rep_parents.induct)
  case (2 cb e i ps ys)
  then have "length ys + 2 ^ Suc i \<le> 2 ^ (Suc i + length ps)" using rep_parents_upper by fastforce
  then have "length ys + 2 * 2 ^ i \<le> 2 ^ (i + length (None # ps))" by simp
  moreover have "(0 :: nat) < 2 ^ i" by simp
  ultimately have "length ys + 2 ^ i < 2 ^ (i + length (None # ps))" by linarith
  then show ?case by simp
next
  case (3 cb e i p ps ys)
  then obtain ys' b where "ys = ys' @ b" "length b = 2 ^ i" "rep_parents cb e (Suc i) ps ys'" by auto
  then show ?case using 3 by fastforce
qed simp

lemma rep_parents_lower:
  "rep_parents cb e i ps ys \<Longrightarrow> ps \<noteq> [] \<Longrightarrow> last ps \<noteq> None \<Longrightarrow> 2 ^ (i + length ps - 1) \<le> length ys"
proof (induction cb e i ps ys rule: rep_parents.induct)
  case (2 cb e i ps ys)
  then show ?case by (auto split: if_splits)
next
  case (3 cb e i p ps ys)
  then obtain ys' b where b: "ys = ys' @ b" "length b = 2 ^ i" "rep_parents cb e (Suc i) ps ys'" by auto
  show ?case
  proof (cases "ps = []")
    case False
    then have "2 ^ (Suc i + length ps - 1) \<le> length ys'" using 3 b by auto
    then show ?thesis using b by simp
  qed (use b in simp)
qed simp

lemma rep_parents_even: "rep_parents cb e (Suc i) ps ys \<Longrightarrow> even (length ys)"
  by (induction cb e "Suc i" ps ys arbitrary: i rule: rep_parents.induct) auto

lemma rep_leaves_length: "rep_leaves l r zs \<Longrightarrow> length zs \<le> 2 \<and> (zs = [] \<longleftrightarrow> l = None) \<and> (length zs = 2 \<longleftrightarrow> r \<noteq> None)"
  by (cases "(l, r, zs)" rule: rep_leaves.cases) auto

lemma tree_rep_new: "tree_rep cb e tree_new []"
  by (simp add: tree_rep_def tree_new_def)

lemma tree_rep_Nil: "tree_rep cb e t [] \<longleftrightarrow> t = tree_new"
  by (cases "(tr_left t, tr_right t, [] :: 'a list)" rule: rep_leaves.cases)
     (auto simp: tree_rep_def tree_new_def)

lemma tree_rep_left: "tree_rep cb e t xs \<Longrightarrow> tr_left t = None \<longleftrightarrow> xs = []"
  by (auto simp: tree_rep_def dest: rep_leaves_length)

lemma tree_rep_parents:
  assumes "tree_rep cb e t xs" "length xs \<le> 2 ^ d" "0 < d"
  shows "length (tr_parents t) < d"
proof (cases "tr_parents t = []")
  case False
  obtain ys zs where xs: "xs = ys @ zs" "rep_parents cb e 1 (tr_parents t) ys" "zs \<noteq> []" "last (tr_parents t) \<noteq> None"
    using assms(1) False by (auto simp: tree_rep_def)
  have "2 ^ length (tr_parents t) \<le> length ys" using rep_parents_lower [OF xs(2) False xs(4)] by simp
  moreover have "length ys < 2 ^ d" using xs(1,3) assms(2) by (cases zs) auto
  ultimately have "(2 :: nat) ^ length (tr_parents t) < 2 ^ d" by linarith
  then show ?thesis by simp
qed (use assms in simp)

lemma tree_rep_complete:
  assumes "tree_rep cb e t xs" "0 < d"
  shows "is_complete t d \<longleftrightarrow> length xs = 2 ^ d"
proof -
  let ?ps = "tr_parents t"
  obtain ys zs where xs: "xs = ys @ zs" "rep_leaves (tr_left t) (tr_right t) zs" "rep_parents cb e 1 ?ps ys"
    "?ps \<noteq> [] \<longrightarrow> last ?ps \<noteq> None" "zs = [] \<longrightarrow> ?ps = []" using assms(1) by (auto simp: tree_rep_def)
  note z = rep_leaves_length [OF xs(2)]
  have up: "length ys + 2 \<le> 2 ^ Suc (length ?ps)" using rep_parents_upper [OF xs(3)] by simp
  have full: "length ys + 2 = 2 ^ Suc (length ?ps) \<longleftrightarrow> list_all (\<lambda>p. p \<noteq> None) ?ps"
    using rep_parents_full [OF xs(3)] by simp
  show ?thesis
  proof
    assume c: "is_complete t d"
    then have "length zs = 2" "length ?ps = d - 1" "list_all (\<lambda>p. p \<noteq> None) ?ps"
      using z by (auto simp: is_complete_def split: if_splits)
    then show "length xs = 2 ^ d" using full xs(1) assms(2) by (cases d) auto
  next
    assume l: "length xs = 2 ^ d"
    have "even (length ys)" using rep_parents_even [of cb e 0 ?ps ys] xs(3) by simp
    moreover have "even (length ys + length zs)" using l assms(2) xs(1) by simp
    ultimately have "even (length zs)" by simp
    moreover have "zs \<noteq> []" using l xs(1,3,5) by auto
    then have "0 < length zs" by simp
    moreover have "length zs \<le> 2" using z by simp
    ultimately have z2: "length zs = 2" by presburger
    have ge: "Suc (length ?ps) \<ge> d"
    proof -
      have "length ys + 2 = 2 ^ d" using l z2 xs(1) by simp
      then have "(2 :: nat) ^ d \<le> 2 ^ Suc (length ?ps)" using up by linarith
      then show ?thesis by (rule power_le_imp_le_exp [rotated]) simp
    qed
    have lt: "length ?ps < d" using tree_rep_parents [OF assms(1) _ assms(2)] l by simp
    then have "length ?ps = d - 1" using ge by simp
    then show "is_complete t d"
      using z z2 full l xs(1) assms(2) lt by (cases d) (auto simp: is_complete_def)
  qed
qed

lemma append_loop_rep:
  "rep_parents cb e i ps ys \<Longrightarrow> length b = 2 ^ i \<Longrightarrow> length ps < n \<Longrightarrow> (ps \<noteq> [] \<longrightarrow> last ps \<noteq> None) \<Longrightarrow>
   rep_parents cb e i (append_loop cb n (mroot cb e i b) ps) (ys @ b) \<and>
   append_loop cb n (mroot cb e i b) ps \<noteq> [] \<and> last (append_loop cb n (mroot cb e i b) ps) \<noteq> None"
proof (induction cb e i ps ys arbitrary: n b rule: rep_parents.induct)
  case (1 cb e i ys)
  then show ?case by (cases n) auto
next
  case (2 cb e i ps ys)
  then show ?case by (cases n) (auto split: if_splits)
next
  case (3 cb e i p ps ys)
  then obtain ys' b' m where b: "ys = ys' @ b'" "length b' = 2 ^ i" "p = mroot cb e i b'" "rep_parents cb e (Suc i) ps ys'"
    and n: "n = Suc m" by (cases n) auto
  have c: "cb p (mroot cb e i b) = mroot cb e (Suc i) (b' @ b)" using b by (simp add: mroot_halves)
  have "rep_parents cb e (Suc i) (append_loop cb m (mroot cb e (Suc i) (b' @ b)) ps) (ys' @ b' @ b) \<and>
      append_loop cb m (mroot cb e (Suc i) (b' @ b)) ps \<noteq> [] \<and>
      last (append_loop cb m (mroot cb e (Suc i) (b' @ b)) ps) \<noteq> None"
    using "3.prems" b n by (intro "3.IH") (auto split: if_splits)
  then show ?case using b(1) n c by simp
qed

lemma tree_append_rep:
  assumes "tree_rep cb e t xs" "0 < Depth" "length xs \<le> 2 ^ Depth"
  shows "if length xs < 2 ^ Depth then \<exists>t'. tree_append cb Depth t x = Some t' \<and> tree_rep cb e t' (xs @ [x])
    else tree_append cb Depth t x = None"
proof (cases "length xs < 2 ^ Depth")
  case False
  then have "is_complete t Depth" using tree_rep_complete [OF assms(1,2)] assms(3) by simp
  then show ?thesis using False by (simp add: tree_append_def)
next
  case True
  let ?ps = "tr_parents t"
  have nc: "\<not> is_complete t Depth" using tree_rep_complete [OF assms(1,2)] True by simp
  obtain ys zs where xs: "xs = ys @ zs" "rep_leaves (tr_left t) (tr_right t) zs" "rep_parents cb e 1 ?ps ys"
    "zs = [] \<longrightarrow> ?ps = []" "?ps \<noteq> [] \<longrightarrow> last ?ps \<noteq> None" using assms(1) by (auto simp: tree_rep_def)
  have "\<exists>t'. tree_append cb Depth t x = Some t' \<and> tree_rep cb e t' (xs @ [x])"
  proof (cases "(tr_left t, tr_right t, zs)" rule: rep_leaves.cases)
    case 1
    then show ?thesis using xs nc by (auto simp: tree_append_def tree_rep_def)
  next
    case (2 a)
    then show ?thesis using xs nc by (auto simp: tree_append_def tree_rep_def)
  next
    case (3 a b)
    have "length ?ps < Depth" using tree_rep_parents [OF assms(1,3,2)] .
    then have "rep_parents cb e 1 (append_loop cb Depth (mroot cb e 1 [a, b]) ?ps) (ys @ [a, b]) \<and>
        append_loop cb Depth (mroot cb e 1 [a, b]) ?ps \<noteq> [] \<and> last (append_loop cb Depth (mroot cb e 1 [a, b]) ?ps) \<noteq> None"
      using xs(3,5) by (intro append_loop_rep) simp_all
    moreover have "mroot cb e 1 [a, b] = cb a b" by (simp add: mroot.simps(2))
    ultimately show ?thesis using 3 xs nc by (auto simp: tree_append_def tree_rep_def)
  qed (use xs in auto)
  then show ?thesis using True by simp
qed

lemma parents_size:
  "rep_parents cb e i ps ys \<Longrightarrow>
   sum_list (map (\<lambda>k. if ps ! k \<noteq> None then 2 ^ (k + i) else 0) [0..<length ps]) = length ys"
proof (induction cb e i ps ys rule: rep_parents.induct)
  case (2 cb e i ps ys)
  then show ?case by (simp add: upt_conv_Cons map_Suc_upt [symmetric] comp_def del: upt_Suc cong: if_cong)
next
  case (3 cb e i p ps ys)
  then obtain ys' b where "ys = ys' @ b" "length b = 2 ^ i" "rep_parents cb e (Suc i) ps ys'" by auto
  then show ?case using 3 by (simp add: upt_conv_Cons map_Suc_upt [symmetric] comp_def del: upt_Suc cong: if_cong)
qed simp

lemma tree_size_rep: "tree_rep cb e t xs \<Longrightarrow> tree_size t = length xs"
proof -
  assume "tree_rep cb e t xs"
  then obtain ys zs where xs: "xs = ys @ zs" "rep_leaves (tr_left t) (tr_right t) zs" "rep_parents cb e 1 (tr_parents t) ys"
    by (auto simp: tree_rep_def)
  have "(if tr_left t \<noteq> None then 1 else 0) + (if tr_right t \<noteq> None then 1 else 0) = length zs"
    using xs(2) by (cases "(tr_left t, tr_right t, zs)" rule: rep_leaves.cases) auto
  then show ?thesis using parents_size [OF xs(3)] xs(1) by (simp add: tree_size_def)
qed

section \<open>Roots with the hashes of later subtrees\<close>

text \<open>
  The levels at which a right sibling is missing, and when a queue of hashes stands for the leaves
  \<open>us\<close> that follow: each hash is the root of the next subtree of its level.
\<close>

fun missing :: "nat \<Rightarrow> 'h option list \<Rightarrow> nat list" where
  "missing d [] = []"
| "missing d (None # ps) = d # missing (Suc d) ps"
| "missing d (Some p # ps) = missing (Suc d) ps"

fun fillers_ok :: "('h \<Rightarrow> 'h \<Rightarrow> 'h) \<Rightarrow> 'h \<Rightarrow> nat list \<Rightarrow> 'h list \<Rightarrow> 'h list \<Rightarrow> bool" where
  "fillers_ok cb e ls [] us \<longleftrightarrow> us = []"
| "fillers_ok cb e [] (f # fs) us \<longleftrightarrow> False"
| "fillers_ok cb e (d # ls) (f # fs) us \<longleftrightarrow> f = mroot cb e d (take (2 ^ d) us) \<and> fillers_ok cb e ls fs (drop (2 ^ d) us)"

lemma missing_append: "missing d (ps @ qs) = missing d ps @ missing (d + length ps) qs"
  by (induction d ps rule: missing.induct) simp_all

lemma missing_replicate: "missing d (replicate n None) = [d..<d + n]"
  by (induction n arbitrary: d) (simp_all add: upt_conv_Cons del: upt_Suc)

lemma rep_parents_replicate: "rep_parents cb e i (ps @ replicate n None) ys \<longleftrightarrow> rep_parents cb e i ps ys"
proof (induction ps arbitrary: i ys)
  case Nil
  show ?case by (induction n arbitrary: i) simp_all
next
  case (Cons p ps)
  then show ?case by (cases p) simp_all
qed

lemma root_parents_append:
  "root_parents cb e d (ps @ qs) root q =
     (case root_parents cb e d ps root q of (d', root', q') \<Rightarrow> root_parents cb e d' qs root' q')"
  by (induction cb e d ps root q rule: root_parents.induct) (simp_all split: prod.split)

lemma root_parents_depth: "fst (root_parents cb e d ps root q) = d + length ps"
  by (induction cb e d ps root q rule: root_parents.induct) (simp_all split: prod.split)

lemma root_fill_parents: "root_fill cb e n d root q = fst (snd (root_parents cb e d (replicate n None) root q))"
  by (induction n arbitrary: d root q) (simp_all split: prod.split)

lemma root_parents_mroot:
  "rep_parents cb e d ps ys \<Longrightarrow> length cur \<le> 2 ^ d \<Longrightarrow> (us \<noteq> [] \<longrightarrow> length cur = 2 ^ d) \<Longrightarrow>
   fillers_ok cb e (missing d ps) q us \<Longrightarrow>
   fst (snd (root_parents cb e d ps (mroot cb e d cur) q)) = mroot cb e (d + length ps) (ys @ cur @ us)"
proof (induction cb e d ps ys arbitrary: cur us q rule: rep_parents.induct)
  case (1 cb e i ys)
  then show ?case by (cases q) auto
next
  case (3 cb e i p ps ys)
  then obtain ys' b where b: "ys = ys' @ b" "length b = 2 ^ i" "p = mroot cb e i b" "rep_parents cb e (Suc i) ps ys'" by auto
  have c: "cb p (mroot cb e i cur) = mroot cb e (Suc i) (b @ cur)" using b by (simp add: mroot_halves)
  have "fst (snd (root_parents cb e (Suc i) ps (mroot cb e (Suc i) (b @ cur)) q)) =
      mroot cb e (Suc i + length ps) (ys' @ (b @ cur) @ us)"
    using "3.prems" b by (intro "3.IH") auto
  then show ?case using b(1) c by simp
next
  case (2 cb e i ps ys)
  show ?case
  proof (cases "us = []")
    case True
    obtain h q' where h: "filler_next cb e q i = (h, q')" by fastforce
    then have "h = empty_root cb e i" "fillers_ok cb e (missing (Suc i) ps) q' []"
      using "2.prems"(4) True by (cases q; auto simp: filler_next_def)+
    moreover have "cb (mroot cb e i cur) (empty_root cb e i) = mroot cb e (Suc i) cur"
      using "2.prems"(2) by (simp add: mroot_short)
    ultimately show ?thesis using "2.IH" [of cur "[]" q'] "2.prems" h True by simp
  next
    case False
    then obtain f fs where q: "q = f # fs" "f = mroot cb e i (take (2 ^ i) us)"
      "fillers_ok cb e (missing (Suc i) ps) fs (drop (2 ^ i) us)"
      using "2.prems"(4) by (cases q) auto
    let ?cur = "cur @ take (2 ^ i) us"
    have "cb (mroot cb e i cur) f = mroot cb e (Suc i) ?cur" using "2.prems"(3) False q(2) by (simp add: mroot_halves)
    moreover have "fst (snd (root_parents cb e (Suc i) ps (mroot cb e (Suc i) ?cur) fs)) =
        mroot cb e (Suc i + length ps) (ys @ ?cur @ drop (2 ^ i) us)"
      using "2.prems" False q(3) by (intro "2.IH") (auto simp: min_def)
    ultimately show ?thesis using q(1) by (simp add: filler_next_def)
  qed
qed

definition levels :: "'h IncrementalMerkleTree \<Rightarrow> nat \<Rightarrow> nat list" where
  "levels t depth = (if tr_right t = None then [0] else []) @ missing 1 (tr_parents t) @ [1 + length (tr_parents t)..<depth]"

lemma tree_root_fillers:
  assumes "tree_rep cb e t xs" "xs \<noteq> []" "length (tr_parents t) < depth" "fillers_ok cb e (levels t depth) q us"
  shows "tree_root cb e t depth q = mroot cb e depth (xs @ us)"
proof -
  let ?ps = "tr_parents t"
  let ?qs = "?ps @ replicate (depth - (1 + length ?ps)) None"
  obtain ys zs where xs: "xs = ys @ zs" "rep_leaves (tr_left t) (tr_right t) zs" "rep_parents cb e 1 ?ps ys" "zs \<noteq> []"
    using assms(1,2) by (auto simp: tree_rep_def)
  have lv: "missing 1 ?qs = missing 1 ?ps @ [1 + length ?ps..<depth]"
    using assms(3) by (simp add: missing_append missing_replicate)
  have r: "tree_root cb e t depth q = fst (snd (root_parents cb e 1 ?qs (cb l r) q'))"
    if "tr_left t = Some l" "(case tr_right t of Some r \<Rightarrow> (r, q) | None \<Rightarrow> filler_next cb e q 0) = (r, q')" for l r q'
    using that root_parents_depth [of cb e 1 ?ps "cb l r" q']
    by (auto simp: tree_root_def root_parents_append root_fill_parents split: prod.split)
  have m: "fst (snd (root_parents cb e 1 ?qs (mroot cb e 1 cur) q')) = mroot cb e depth (ys @ cur @ us')"
    if "length cur \<le> 2" "us' \<noteq> [] \<longrightarrow> length cur = 2" "fillers_ok cb e (missing 1 ?qs) q' us'" for cur us' q'
    using root_parents_mroot [of cb e 1 ?qs ys cur us' q'] that xs(3) assms(3) by (simp add: rep_parents_replicate)
  show ?thesis
  proof (cases "(tr_left t, tr_right t, zs)" rule: rep_leaves.cases)
    case (2 a zs')
    then have z: "zs = [a]" using xs(2) by simp
    show ?thesis
    proof (cases q)
      case Nil
      then have "us = []" using assms(4) by simp
      then show ?thesis using r [of a e "[]"] m [of "[a]" "[]" "[]"] 2 Nil z xs(1)
        by (simp add: filler_next_def mroot.simps(2))
    next
      case (Cons f fs)
      then have f: "f = mroot cb e 0 (take 1 us)" "fillers_ok cb e (missing 1 ?qs) fs (drop 1 us)"
        using assms(4) 2 lv by (auto simp: levels_def)
      have "cb a f = mroot cb e 1 (a # take 1 us)" using f(1) by (cases us) (simp_all add: mroot.simps(2))
      then show ?thesis using r [of a f fs] m [of "a # take 1 us" "drop 1 us" fs] 2 Cons z xs(1) f(2)
        by (cases us) (auto simp: filler_next_def)
    qed
  next
    case (3 a b zs')
    then have z: "zs = [a, b]" using xs(2) by simp
    have "fillers_ok cb e (missing 1 ?qs) q us" using assms(4) 3 lv by (simp add: levels_def)
    then show ?thesis using r [of a b q] m [of "[a, b]" us q] 3 z xs(1) by (auto simp: mroot.simps(2))
  qed (use xs in auto)
qed

lemma tree_root_rep:
  assumes "tree_rep cb e t xs" "length (tr_parents t) < depth"
  shows "tree_root cb e t depth [] = mroot cb e depth xs"
proof (cases "xs = []")
  case True
  then have t: "t = tree_new" using assms(1) by (simp add: tree_rep_Nil)
  obtain d where d: "depth = Suc d" using assms(2) by (cases depth) auto
  have "tree_root cb e t depth [] = fst (snd (root_parents cb e 1 (replicate d None) (mroot cb e 1 []) []))"
    using d t by (simp add: tree_root_def tree_new_def filler_next_def root_fill_parents)
  also have "\<dots> = mroot cb e (1 + d) []"
    using root_parents_mroot [of cb e 1 "replicate d None" "[]" "[]" "[]" "[]"]
    by (simp add: rep_parents_replicate [where ps = "[]", simplified])
  finally show ?thesis using True d by simp
qed (use tree_root_fillers [OF assms(1) _ assms(2), of "[]" "[]"] in simp)

section \<open>Witnesses follow the tree\<close>

lemma next_depth_loop_missing:
  "next_depth_loop k d ps =
     (if k < length (missing d ps) then missing d ps ! k else d + length ps + (k - length (missing d ps)))"
  by (induction k d ps rule: next_depth_loop.induct) (auto simp: nth_Cons' not_less)

lemma next_depth_levels:
  assumes "tr_left t \<noteq> None" "length (tr_parents t) < depth"
  shows "next_depth t k = (if k < length (levels t depth) then levels t depth ! k else next_depth t k)"
    and "\<not> k < length (levels t depth) \<Longrightarrow> depth \<le> next_depth t k"
proof -
  let ?m = "missing 1 (tr_parents t)"
  have *: "next_depth t k = (if k < length (levels t depth) then levels t depth ! k else next_depth t k) \<and>
      (\<not> k < length (levels t depth) \<longrightarrow> depth \<le> next_depth t k)"
  proof (cases "tr_right t")
    case None
    then show ?thesis using assms
      by (cases k) (auto simp: next_depth_def take_skip_def levels_def next_depth_loop_missing nth_append)
  next
    case (Some r)
    then show ?thesis using assms
      by (auto simp: next_depth_def take_skip_def levels_def next_depth_loop_missing nth_append)
  qed
  then show "next_depth t k = (if k < length (levels t depth) then levels t depth ! k else next_depth t k)"
    "\<not> k < length (levels t depth) \<Longrightarrow> depth \<le> next_depth t k" by blast+
qed

lemma missing_sizes:
  "rep_parents cb e d ps ys \<Longrightarrow> length ys + 2 ^ d + sum_list (map ((^) 2) (missing d ps)) = 2 ^ (d + length ps)"
proof (induction cb e d ps ys rule: rep_parents.induct)
  case (3 cb e i p ps ys)
  then obtain ys' b where "ys = ys' @ b" "length b = 2 ^ i" "rep_parents cb e (Suc i) ps ys'" by auto
  then show ?case using 3 by fastforce
qed auto

lemma sum_upt_powers: "a \<le> b \<Longrightarrow> 2 ^ a + sum_list (map ((^) 2) [a..<b]) = (2 :: nat) ^ b"
  by (induction rule: dec_induct) simp_all

text \<open>The levels account for all leaves that are still to come.\<close>

lemma levels_sizes:
  assumes "tree_rep cb e t xs" "xs \<noteq> []" "length (tr_parents t) < depth"
  shows "length xs + sum_list (map ((^) 2) (levels t depth)) = 2 ^ depth"
proof -
  obtain ys zs where xs: "xs = ys @ zs" "rep_leaves (tr_left t) (tr_right t) zs" "rep_parents cb e 1 (tr_parents t) ys" "zs \<noteq> []"
    using assms(1,2) by (auto simp: tree_rep_def)
  have "length zs + sum_list (map ((^) 2) (if tr_right t = None then [0] else [])) = 2"
    using xs(2,4) by (cases "(tr_left t, tr_right t, zs)" rule: rep_leaves.cases) auto
  moreover have "2 ^ (1 + length (tr_parents t)) + sum_list (map ((^) 2) [1 + length (tr_parents t)..<depth]) = (2 :: nat) ^ depth"
    using assms(3) by (intro sum_upt_powers) simp
  ultimately show ?thesis using missing_sizes [OF xs(3)] xs(1) by (simp add: levels_def)
qed

text \<open>Hashes of full subtrees, one per level, that together stand for the leaves \<open>us\<close>.\<close>

fun full_blocks :: "('h \<Rightarrow> 'h \<Rightarrow> 'h) \<Rightarrow> 'h \<Rightarrow> nat list \<Rightarrow> 'h list \<Rightarrow> 'h list \<Rightarrow> bool" where
  "full_blocks cb e ls [] us \<longleftrightarrow> us = []"
| "full_blocks cb e [] (f # fs) us \<longleftrightarrow> False"
| "full_blocks cb e (d # ls) (f # fs) us \<longleftrightarrow>
     2 ^ d \<le> length us \<and> f = mroot cb e d (take (2 ^ d) us) \<and> full_blocks cb e ls fs (drop (2 ^ d) us)"

lemma full_blocks_length:
  "full_blocks cb e ls fs us \<Longrightarrow> length fs \<le> length ls \<and> length us = sum_list (map ((^) 2) (take (length fs) ls))"
  by (induction cb e ls fs us rule: full_blocks.induct) auto

lemma full_blocks_snoc:
  "full_blocks cb e ls fs us \<Longrightarrow> length fs < length ls \<Longrightarrow> length b = 2 ^ (ls ! length fs) \<Longrightarrow>
   full_blocks cb e ls (fs @ [mroot cb e (ls ! length fs) b]) (us @ b)"
proof (induction cb e ls fs us rule: full_blocks.induct)
  case (1 cb e ls us)
  then show ?case by (cases ls) auto
qed auto

lemma full_blocks_fillers:
  "full_blocks cb e ls fs us \<Longrightarrow> (qs = [] \<and> rest = []) \<or>
     (length fs < length ls \<and> length rest \<le> 2 ^ (ls ! length fs) \<and> qs = [mroot cb e (ls ! length fs) rest]) \<Longrightarrow>
   fillers_ok cb e ls (fs @ qs) (us @ rest)"
proof (induction cb e ls fs us rule: full_blocks.induct)
  case (1 cb e ls us)
  then show ?case by (cases ls) auto
qed auto

definition witness_rep ::
  "('h \<Rightarrow> 'h \<Rightarrow> 'h) \<Rightarrow> 'h \<Rightarrow> nat \<Rightarrow> 'h IncrementalWitness \<Rightarrow> 'h list \<Rightarrow> 'h list \<Rightarrow> bool" where
  "witness_rep cb e Depth w xs us \<longleftrightarrow>
     tree_rep cb e (wit_tree w) xs \<and> xs \<noteq> [] \<and> length (tr_parents (wit_tree w)) < Depth \<and>
     (\<exists>vs rest. us = vs @ rest \<and> full_blocks cb e (levels (wit_tree w) Depth) (wit_filled w) vs \<and>
        (case wit_cursor w of None \<Rightarrow> rest = []
         | Some c \<Rightarrow> tree_rep cb e c rest \<and> rest \<noteq> [] \<and> length (wit_filled w) < length (levels (wit_tree w) Depth) \<and>
             wit_cursor_depth w = levels (wit_tree w) Depth ! length (wit_filled w) \<and>
             0 < wit_cursor_depth w \<and> wit_cursor_depth w < Depth \<and> length rest < 2 ^ wit_cursor_depth w))"

lemma witness_rep_new:
  assumes "tree_rep cb e t xs" "xs \<noteq> []" "length xs \<le> 2 ^ Depth" "0 < Depth"
  shows "witness_rep cb e Depth (tree_witness t) xs []"
  using assms tree_rep_parents [OF assms(1,3,4)] by (simp add: witness_rep_def tree_witness_def)

lemma witness_fillers:
  assumes "witness_rep cb e Depth w xs us"
  shows "fillers_ok cb e (levels (wit_tree w) Depth) (partial_path cb e w) us"
proof -
  let ?k = "length (wit_filled w)" and ?ls = "levels (wit_tree w) Depth"
  obtain vs rest where us: "us = vs @ rest" "full_blocks cb e ?ls (wit_filled w) vs"
    and c: "case wit_cursor w of None \<Rightarrow> rest = []
         | Some c \<Rightarrow> tree_rep cb e c rest \<and> rest \<noteq> [] \<and> ?k < length ?ls \<and> wit_cursor_depth w = ?ls ! ?k \<and>
             0 < wit_cursor_depth w \<and> wit_cursor_depth w < Depth \<and> length rest < 2 ^ wit_cursor_depth w"
    using assms by (auto simp: witness_rep_def)
  show ?thesis
  proof (cases "wit_cursor w")
    case None
    then show ?thesis using us c full_blocks_fillers [OF us(2), of "[]" "[]"] by (simp add: partial_path_def)
  next
    case (Some t)
    then have t: "tree_rep cb e t rest" "0 < ?ls ! ?k" "length rest \<le> 2 ^ (?ls ! ?k)" using c by auto
    have "tree_root cb e t (?ls ! ?k) [] = mroot cb e (?ls ! ?k) rest"
      using tree_root_rep [OF t(1) tree_rep_parents [OF t(1,3,2)]] .
    then show ?thesis using us c Some t(3) full_blocks_fillers [OF us(2), of "[mroot cb e (?ls ! ?k) rest]" rest]
      by (simp add: partial_path_def)
  qed
qed

lemma witness_root_rep: "witness_rep cb e Depth w xs us \<Longrightarrow> witness_root cb e Depth w = mroot cb e Depth (xs @ us)"
  using witness_fillers [of cb e Depth w xs us]
  by (auto simp: witness_root_def witness_rep_def intro!: tree_root_fillers)

lemma witness_append_cursor:
  assumes "witness_rep cb e Depth w xs us" "wit_cursor w = Some t"
  shows "\<exists>w'. witness_append cb e Depth w x = Some w' \<and> witness_rep cb e Depth w' xs (us @ [x])"
proof -
  let ?ls = "levels (wit_tree w) Depth" and ?d = "wit_cursor_depth w"
  obtain vs rest where us: "us = vs @ rest" "full_blocks cb e ?ls (wit_filled w) vs"
    and c: "tree_rep cb e t rest" "length (wit_filled w) < length ?ls"
      "?d = ?ls ! length (wit_filled w)" "0 < ?d" "?d < Depth" "length rest < 2 ^ ?d"
    and w: "tree_rep cb e (wit_tree w) xs" "xs \<noteq> []" "length (tr_parents (wit_tree w)) < Depth"
    using assms by (auto simp: witness_rep_def)
  have "(2 :: nat) ^ ?d \<le> 2 ^ Depth" using c(5) by (intro power_increasing) simp_all
  then have lt: "length rest < 2 ^ Depth" using c(6) by linarith
  then obtain t' where t': "tree_append cb Depth t x = Some t'" "tree_rep cb e t' (rest @ [x])"
    using tree_append_rep [OF c(1), of Depth x] c(5) by auto
  have r: "length (rest @ [x]) \<le> 2 ^ ?d" using c(6) by simp
  have root: "tree_root cb e t' ?d [] = mroot cb e ?d (rest @ [x])"
    by (rule tree_root_rep [OF t'(2) tree_rep_parents [OF t'(2) r c(4)]])
  show ?thesis
  proof (cases "is_complete t' ?d")
    case True
    then have "length (rest @ [x]) = 2 ^ ?d" using tree_rep_complete [OF t'(2) c(4)] by simp
    then have "full_blocks cb e ?ls (wit_filled w @ [mroot cb e ?d (rest @ [x])]) (vs @ rest @ [x])"
      using full_blocks_snoc [OF us(2) c(2), of "rest @ [x]"] c(3) by simp
    then show ?thesis using True assms(2) t'(1) root us(1) w by (simp add: witness_append_def witness_rep_def)
  next
    case False
    then have "length (rest @ [x]) < 2 ^ ?d" using tree_rep_complete [OF t'(2) c(4)] r by simp
    then have "witness_rep cb e Depth (w\<lparr>wit_cursor := Some t'\<rparr>) xs (us @ [x])"
      unfolding witness_rep_def using us c w t'(2) by (intro conjI exI [of _ vs] exI [of _ "rest @ [x]"]) simp_all
    then show ?thesis using False assms(2) t'(1) by (simp add: witness_append_def)
  qed
qed

lemma witness_append_next:
  assumes "witness_rep cb e Depth w xs us" "wit_cursor w = None" "length xs + length us < 2 ^ Depth"
  shows "\<exists>w'. witness_append cb e Depth w x = Some w' \<and> witness_rep cb e Depth w' xs (us @ [x])"
proof -
  let ?ls = "levels (wit_tree w) Depth" and ?k = "length (wit_filled w)"
  have us: "full_blocks cb e ?ls (wit_filled w) us"
    and w: "tree_rep cb e (wit_tree w) xs" "xs \<noteq> []" "length (tr_parents (wit_tree w)) < Depth"
    using assms(1,2) by (auto simp: witness_rep_def)
  have k: "?k < length ?ls"
  proof (rule ccontr)
    assume "\<not> ?k < length ?ls"
    then have "length us = sum_list (map ((^) 2) ?ls)" using full_blocks_length [OF us] by simp
    then show False using levels_sizes [OF w] assms(3) by simp
  qed
  have l: "tr_left (wit_tree w) \<noteq> None" using tree_rep_left [OF w(1)] w(2) by simp
  have d: "next_depth (wit_tree w) ?k = ?ls ! ?k" using next_depth_levels(1) [OF l w(3), of ?k] k by simp
  have "?ls ! ?k \<in> set ?ls" using k by simp
  moreover have "set (missing i ps) \<subseteq> {i..<i + length ps}" for i and ps :: "'a option list"
    by (induction i ps rule: missing.induct) auto
  ultimately have lt: "?ls ! ?k < Depth" using w(3) by (fastforce simp: levels_def split: if_splits)
  show ?thesis
  proof (cases "?ls ! ?k = 0")
    case True
    then have "full_blocks cb e ?ls (wit_filled w @ [x]) (us @ [x])"
      using full_blocks_snoc [OF us k, of "[x]"] by simp
    then show ?thesis using True assms(2) d lt w by (simp add: witness_append_def witness_rep_def Let_def)
  next
    case False
    have D: "0 < Depth" using lt by simp
    obtain t' where t': "tree_append cb Depth tree_new x = Some t'" "tree_rep cb e t' [x]"
      using tree_append_rep [OF tree_rep_new D, of cb x] by auto
    have "length [x] < 2 ^ (?ls ! ?k)" using False one_less_power [of "2 :: nat" "?ls ! ?k"] by simp
    then have "witness_rep cb e Depth (w\<lparr>wit_cursor := Some t', wit_cursor_depth := ?ls ! ?k\<rparr>) xs (us @ [x])"
      unfolding witness_rep_def using us k lt False w t'(2)
      by (intro conjI exI [of _ us] exI [of _ "[x]"]) simp_all
    then show ?thesis using False assms(2) d lt t'(1) by (simp add: witness_append_def Let_def)
  qed
qed

lemma witness_append_rep:
  assumes "witness_rep cb e Depth w xs us" "length xs + length us < 2 ^ Depth"
  shows "\<exists>w'. witness_append cb e Depth w x = Some w' \<and> witness_rep cb e Depth w' xs (us @ [x])"
  using witness_append_cursor [OF assms(1)] witness_append_next [OF assms(1) _ assms(2)]
  by (cases "wit_cursor w") blast+

section \<open>Paths\<close>

text \<open>The root computed from a leaf and its authentication path, from the leaf up.\<close>

definition path_root :: "('h \<Rightarrow> 'h \<Rightarrow> 'h) \<Rightarrow> 'h \<Rightarrow> (bool \<times> 'h) list \<Rightarrow> 'h" where
  "path_root cb leaf path = foldl (\<lambda>acc (right, h). if right then cb h acc else cb acc h) leaf path"

lemma path_root_simps [simp]:
  "path_root cb leaf [] = leaf"
  "path_root cb leaf ((right, h) # p) = path_root cb (if right then cb h leaf else cb leaf h) p"
  by (simp_all add: path_root_def)

lemma path_parents_root:
  "root_parents cb e d ps root q =
     (case path_parents cb e d ps q of (path, d', q') \<Rightarrow> (d', path_root cb root path, q'))"
  by (induction cb e d ps root q rule: root_parents.induct)
     (auto split: prod.splits)

lemma path_fill_root: "root_fill cb e n d root q = path_root cb root (path_fill cb e n d q)"
  by (induction n arbitrary: d root q) (auto split: prod.splits)

lemma path_root_append: "path_root cb leaf (p @ q) = path_root cb (path_root cb leaf p) q"
  by (simp add: path_root_def)

lemma path_parents_length: "case path_parents cb e d ps q of (path, d', q') \<Rightarrow> length path = length ps \<and> d' = d + length ps"
  by (induction cb e d ps q rule: path_parents.induct) (auto split: prod.splits)

lemma length_path_fill [simp]: "length (path_fill cb e n d q) = n"
  by (induction n arbitrary: d q) (auto split: prod.split)

lemma tree_path_root:
  assumes "tree_path cb e Depth t q = Some path" "tree_last t = Some leaf" "length (tr_parents t) < Depth"
  shows "tree_root cb e t Depth q = path_root cb leaf (rev path)" "length path = Depth"
proof -
  obtain l where l: "tr_left t = Some l" using assms(1) by (auto simp: tree_path_def split: option.splits)
  show "tree_root cb e t Depth q = path_root cb leaf (rev path)"
    using assms(1,2) l
    by (cases "tr_right t")
       (auto simp: tree_path_def tree_root_def tree_last_def path_parents_root path_fill_root path_root_append
         split: prod.splits)
  have pl: "length p = length (tr_parents t) \<and> d = 1 + length (tr_parents t)"
    if "path_parents cb e 1 (tr_parents t) q' = (p, d, q'')" for q' p d q''
    using path_parents_length [where cb = cb and e = e and d = 1 and ps = "tr_parents t" and q = q'] that by simp
  show "length path = Depth"
    using assms(1,3) l by (cases "tr_right t") (auto simp: tree_path_def dest!: pl [simplified] split: prod.splits)
qed

lemma tree_last_rep: "tree_rep cb e t xs \<Longrightarrow> xs \<noteq> [] \<Longrightarrow> tree_last t = Some (last xs)"
  by (cases "tr_left t"; cases "tr_right t") (auto simp: tree_rep_def tree_last_def)

lemma tree_rep_wfcheck: "tree_rep cb e t xs \<Longrightarrow> length xs \<le> 2 ^ Depth \<Longrightarrow> 0 < Depth \<Longrightarrow> wfcheck Depth t"
  using tree_rep_parents [of cb e t xs Depth]
  by (cases "tr_left t"; cases "tr_right t") (auto simp: wfcheck_def tree_rep_def)

section \<open>Serialization of trees\<close>

definition valid_optional :: "('a \<Rightarrow> bool) \<Rightarrow> 'a option \<Rightarrow> bool" where
  "valid_optional valid item \<longleftrightarrow> (\<forall>x. item = Some x \<longrightarrow> valid x)"

context canonical_codec
begin

lemma optional_codec: "canonical_codec (put_optional put) (get_optional get) (valid_optional valid)"
proof
  fix x s assume "valid_optional valid x"
  then show "get_optional get (put_optional put x @ s) = Some (x, s)"
    by (cases x) (simp_all add: put_optional_def get_optional_def valid_optional_def c8.get_put get_put)
next
  fix s x s' assume "get_optional get s = Some (x, s')"
  then show "valid_optional valid x \<and> s = put_optional put x @ s'"
    by (auto simp: put_optional_def get_optional_def valid_optional_def c8.get_iff get_iff bind_eq_Some_conv
        split: if_splits)
qed

end

interpretation copth: canonical_codec "put_optional put_blob" "get_optional (stream_read n)"
    "valid_optional (\<lambda>v. length v = n)" for n
  by (rule cblob.optional_codec)

interpretation cpars: canonical_codec "put_vector (put_optional put_blob)" "get_vector (get_optional (stream_read n))"
    "valid_vector (valid_optional (\<lambda>v. length v = n))" for n
  by (rule copth.vector_codec)

definition valid_tree :: "nat \<Rightarrow> uint256 IncrementalMerkleTree \<Rightarrow> bool" where
  "valid_tree Depth t \<longleftrightarrow> valid_optional (\<lambda>v. length v = 32) (tr_left t) \<and>
     valid_optional (\<lambda>v. length v = 32) (tr_right t) \<and>
     valid_vector (valid_optional (\<lambda>v. length v = 32)) (tr_parents t) \<and> wfcheck Depth t"

lemma tree_eta: "\<lparr>tr_left = tr_left t, tr_right = tr_right t, tr_parents = tr_parents t\<rparr> = t"
  by (cases t) simp

interpretation ctree: canonical_codec put_tree "get_tree Depth" "valid_tree Depth" for Depth
  by unfold_locales
     (auto simp: put_tree_def get_tree_def valid_tree_def tree_eta copth.get_put cpars.get_put copth.get_iff cpars.get_iff
       bind_eq_Some_conv Let_def split: if_splits)

section \<open>Properties\<close>

fun tree_appends :: "('h \<Rightarrow> 'h \<Rightarrow> 'h) \<Rightarrow> nat \<Rightarrow> 'h IncrementalMerkleTree \<Rightarrow> 'h list \<Rightarrow> 'h IncrementalMerkleTree option" where
  "tree_appends cb Depth t [] = Some t"
| "tree_appends cb Depth t (x # xs) = do { t' \<leftarrow> tree_append cb Depth t x; tree_appends cb Depth t' xs }"

fun witness_appends ::
  "('h \<Rightarrow> 'h \<Rightarrow> 'h) \<Rightarrow> 'h \<Rightarrow> nat \<Rightarrow> 'h IncrementalWitness \<Rightarrow> 'h list \<Rightarrow> 'h IncrementalWitness option" where
  "witness_appends cb e Depth w [] = Some w"
| "witness_appends cb e Depth w (x # xs) = do { w' \<leftarrow> witness_append cb e Depth w x; witness_appends cb e Depth w' xs }"

lemma tree_appends_rep:
  "tree_rep cb e t xs \<Longrightarrow> 0 < Depth \<Longrightarrow> length xs + length ys \<le> 2 ^ Depth \<Longrightarrow>
   \<exists>t'. tree_appends cb Depth t ys = Some t' \<and> tree_rep cb e t' (xs @ ys)"
proof (induction ys arbitrary: t xs)
  case (Cons y ys)
  obtain t' where t': "tree_append cb Depth t y = Some t'" "tree_rep cb e t' (xs @ [y])"
    using tree_append_rep [OF Cons.prems(1,2), of y] Cons.prems(3) by auto
  then show ?case using Cons.IH [OF t'(2) Cons.prems(2)] Cons.prems(3) by simp
qed simp

lemma witness_appends_rep:
  "witness_rep cb e Depth w xs us \<Longrightarrow> length xs + length us + length vs \<le> 2 ^ Depth \<Longrightarrow>
   \<exists>w'. witness_appends cb e Depth w vs = Some w' \<and> witness_rep cb e Depth w' xs (us @ vs) \<and> wit_tree w' = wit_tree w"
proof (induction vs arbitrary: w us)
  case (Cons v vs)
  obtain w' where w': "witness_append cb e Depth w v = Some w'" "witness_rep cb e Depth w' xs (us @ [v])"
    using witness_append_rep [OF Cons.prems(1), of v] Cons.prems(2) by auto
  moreover have "wit_tree w' = wit_tree w"
    using w'(1) by (auto simp: witness_append_def Let_def split: option.splits if_splits)
  ultimately show ?case using Cons.IH [OF w'(2)] Cons.prems(2) by simp
qed simp

lemma tree_path_total: "tr_left t \<noteq> None \<Longrightarrow> tree_path cb e Depth t q \<noteq> None"
  by (auto simp: tree_path_def Let_def split: prod.splits option.splits)

text \<open>
  C35: Appending leaves one by one to an empty tree keeps the tree a faithful summary of them: as long
  as they fit into the depth every append succeeds, the root is the root of the full binary tree
  over the leaves, the size is their number, the checks made after reading a tree hold, and the
  next append is refused exactly when the tree is full.
\<close>

theorem commitment_tree_refines:
  assumes "0 < Depth" "length xs \<le> 2 ^ Depth"
  shows "\<exists>t. tree_appends cb Depth tree_new xs = Some t \<and> tree_root cb e t Depth [] = mroot cb e Depth xs \<and>
    tree_size t = length xs \<and> wfcheck Depth t \<and> (\<forall>x. tree_append cb Depth t x = None \<longleftrightarrow> length xs = 2 ^ Depth)"
proof -
  obtain t where t: "tree_appends cb Depth tree_new xs = Some t" "tree_rep cb e t xs"
    using tree_appends_rep [OF tree_rep_new assms(1), where ys = xs and cb = cb] assms(2) by auto
  then show ?thesis
    using tree_root_rep [OF t(2) tree_rep_parents [OF t(2) assms(2,1)]] tree_size_rep [OF t(2)]
      tree_rep_wfcheck [OF t(2) assms(2,1)] tree_append_rep [OF t(2) assms] assms(2)
    by (metis less_irrefl option.discI nat_less_le)
qed

theorem commitment_tree_refines_witness:
  "\<exists>t. tree_appends SHA256Compress_combine 29 tree_new [uint256_null, uint256_null, uint256_null] = Some t \<and> tree_size t = 3"
proof -
  have "length [uint256_null, uint256_null, uint256_null] \<le> 2 ^ 29" by simp
  then show ?thesis
    using commitment_tree_refines [of 29 "[uint256_null, uint256_null, uint256_null]" SHA256Compress_combine uint256_null]
    by auto
qed

text \<open>
  C36: A witness taken when a leaf was the last one keeps up with the tree: after the same later
  leaves have been appended, which never fails before the tree is full, it has the root of the full
  tree over all leaves, and its authentication path leads from the leaf to that root.
\<close>

theorem witness_follows_tree:
  assumes "0 < Depth" "xs \<noteq> []" "length xs + length us \<le> 2 ^ Depth"
  shows "\<exists>t w path. tree_appends cb Depth tree_new xs = Some t \<and> witness_appends cb e Depth (tree_witness t) us = Some w \<and>
    witness_root cb e Depth w = mroot cb e Depth (xs @ us) \<and> witness_element w = Some (last xs) \<and>
    witness_path cb e Depth w = Some path \<and> length path = Depth \<and>
    path_root cb (last xs) (rev path) = mroot cb e Depth (xs @ us)"
proof -
  obtain t where t: "tree_appends cb Depth tree_new xs = Some t" "tree_rep cb e t xs"
    using tree_appends_rep [OF tree_rep_new assms(1), where ys = xs and cb = cb] assms(3) by auto
  have "length xs \<le> 2 ^ Depth" using assms(3) by simp
  then have "witness_rep cb e Depth (tree_witness t) xs []" using witness_rep_new [OF t(2) assms(2) _ assms(1)] by simp
  then obtain w where w: "witness_appends cb e Depth (tree_witness t) us = Some w" "witness_rep cb e Depth w xs us"
    "wit_tree w = t"
    using witness_appends_rep [of cb e Depth "tree_witness t" xs "[]" us] assms(3) by (auto simp: tree_witness_def)
  have el: "witness_element w = Some (last xs)"
    using tree_last_rep [OF t(2) assms(2)] w(3) by (simp add: witness_element_def)
  have l: "tr_left t \<noteq> None" using tree_rep_left [OF t(2)] assms(2) by simp
  then obtain path where p: "witness_path cb e Depth w = Some path"
    using w(3) tree_path_total [of t cb e Depth] by (auto simp: witness_path_def)
  have "length (tr_parents t) < Depth" using w(2,3) by (simp add: witness_rep_def)
  then have "witness_root cb e Depth w = path_root cb (last xs) (rev path)" "length path = Depth"
    using tree_path_root [of cb e Depth "wit_tree w" _ path "last xs"] p el w(3)
    by (auto simp: witness_path_def witness_root_def witness_element_def)
  then show ?thesis using t w el p witness_root_rep [OF w(2)] by metis
qed

theorem witness_follows_tree_witness:
  "\<exists>t w. tree_appends SHA256Compress_combine 29 tree_new [uint256_null] = Some t \<and>
     witness_appends SHA256Compress_combine uint256_null 29 (tree_witness t) [uint256_null, uint256_null] = Some w \<and>
     witness_element w = Some uint256_null"
proof -
  have "length [uint256_null] + length [uint256_null, uint256_null] \<le> 2 ^ 29" by simp
  then show ?thesis
    using witness_follows_tree [of 29 "[uint256_null]" "[uint256_null, uint256_null]" SHA256Compress_combine uint256_null]
    by auto
qed


end
