(* ===== verification/CoinsView.thy ===== *)
theory CoinsView
  imports Coins IncMerkle "HOL-Library.AList"
begin

text \<open>
  Views of the chain state (\<^verbatim>\<open>coins.h\<close>, \<^verbatim>\<open>coins.cpp\<close>) and the view kept in LevelDB (\<^verbatim>\<open>txdb.cpp\<close>):
  unspent coins by transaction, anchors of the commitment tree, spent nullifiers, and the best block
  and anchor. The virtual methods of \<open>CCoinsView\<close> are a record of functions on the state of a view;
  reading may change the state, because a cache keeps what it read. \<open>None\<close> stands for a failed assertion.
  The locale \<open>coins_view\<close> is the contract of a view: reads agree with an abstract chain state, and a
  batch of changes replaces the entries it names. The database fulfils the contract, and a
  \<open>CCoinsViewCache\<close> on top of any view that fulfils it fulfils it too, so caches can be stacked; flushing a
  cache makes the view below show what the cache showed.
  Memory accounting, which depends on allocated capacities, is left out.
\<close>

section \<open>The commitment tree of the chain\<close>

type_synonym ZCIncrementalMerkleTree = "uint256 IncrementalMerkleTree"

definition ZCTree_root :: "ZCIncrementalMerkleTree \<Rightarrow> uint256" where
  "ZCTree_root t = tree_root SHA256Compress_combine uint256_null t INCREMENTAL_MERKLE_TREE_DEPTH []"

definition ZCTree_append :: "ZCIncrementalMerkleTree \<Rightarrow> uint256 \<Rightarrow> ZCIncrementalMerkleTree option" where
  "ZCTree_append t obj = tree_append SHA256Compress_combine INCREMENTAL_MERKLE_TREE_DEPTH t obj"

definition ZCTree_empty_root :: uint256 where
  "ZCTree_empty_root = empty_root SHA256Compress_combine uint256_null INCREMENTAL_MERKLE_TREE_DEPTH"

section \<open>Cache entries and the interface of a view\<close>

record CCoinsCacheEntry =
  ce_coins :: CCoins
  ce_dirty :: bool
  ce_fresh :: bool

record CAnchorsCacheEntry =
  ae_entered :: bool
  ae_tree :: ZCIncrementalMerkleTree
  ae_dirty :: bool

record CNullifiersCacheEntry =
  ne_entered :: bool
  ne_dirty :: bool

type_synonym CCoinsMap = "(uint256 \<times> CCoinsCacheEntry) list"
type_synonym CAnchorsMap = "(uint256 \<times> CAnchorsCacheEntry) list"
type_synonym CNullifiersMap = "(uint256 \<times> CNullifiersCacheEntry) list"

record 's CCoinsView =
  v_GetAnchorAt :: "'s \<Rightarrow> uint256 \<Rightarrow> ZCIncrementalMerkleTree option \<times> 's"
  v_GetNullifier :: "'s \<Rightarrow> uint256 \<Rightarrow> bool \<times> 's"
  v_GetCoins :: "'s \<Rightarrow> uint256 \<Rightarrow> CCoins option \<times> 's"
  v_HaveCoins :: "'s \<Rightarrow> uint256 \<Rightarrow> bool \<times> 's"
  v_GetBestBlock :: "'s \<Rightarrow> uint256 \<times> 's"
  v_GetBestAnchor :: "'s \<Rightarrow> uint256 \<times> 's"
  v_BatchWrite :: "'s \<Rightarrow> CCoinsMap \<Rightarrow> uint256 \<Rightarrow> uint256 \<Rightarrow> CAnchorsMap \<Rightarrow> CNullifiersMap \<Rightarrow> (bool \<times> 's) option"

section \<open>The cache\<close>

record 's CCoinsViewCache =
  base :: 's
  hasModifier :: bool
  hashBlock :: uint256
  cacheCoins :: CCoinsMap
  hashAnchor :: uint256
  cacheAnchors :: CAnchorsMap
  cacheNullifiers :: CNullifiersMap

definition CCoinsViewCache_new :: "'s \<Rightarrow> 's CCoinsViewCache" where
  "CCoinsViewCache_new baseIn = \<lparr>base = baseIn, hasModifier = False, hashBlock = uint256_null, cacheCoins = [],
     hashAnchor = uint256_null, cacheAnchors = [], cacheNullifiers = []\<rparr>"

definition FetchCoins :: "'s CCoinsView \<Rightarrow> 's CCoinsViewCache \<Rightarrow> uint256 \<Rightarrow> CCoinsCacheEntry option \<times> 's CCoinsViewCache" where
  "FetchCoins ops c txid =
     (case map_of (cacheCoins c) txid of Some it \<Rightarrow> (Some it, c)
      | None \<Rightarrow>
          let (r, b) = v_GetCoins ops (base c) txid
          in (case r of None \<Rightarrow> (None, c\<lparr>base := b\<rparr>)
              | Some tmp \<Rightarrow>
                  let ret = \<lparr>ce_coins = tmp, ce_dirty = False, ce_fresh = IsPruned tmp\<rparr>
                  in (Some ret, c\<lparr>base := b, cacheCoins := AList.update txid ret (cacheCoins c)\<rparr>)))"

definition GetAnchorAt ::
  "'s CCoinsView \<Rightarrow> 's CCoinsViewCache \<Rightarrow> uint256 \<Rightarrow> ZCIncrementalMerkleTree option \<times> 's CCoinsViewCache" where
  "GetAnchorAt ops c rt =
     (case map_of (cacheAnchors c) rt of
        Some it \<Rightarrow> (if ae_entered it then Some (ae_tree it) else None, c)
      | None \<Rightarrow>
          let (r, b) = v_GetAnchorAt ops (base c) rt
          in (case r of None \<Rightarrow> (None, c\<lparr>base := b\<rparr>)
              | Some tree \<Rightarrow>
                  (Some tree, c\<lparr>base := b, cacheAnchors :=
                     AList.update rt \<lparr>ae_entered = True, ae_tree = tree, ae_dirty = False\<rparr> (cacheAnchors c)\<rparr>)))"

definition GetNullifier :: "'s CCoinsView \<Rightarrow> 's CCoinsViewCache \<Rightarrow> uint256 \<Rightarrow> bool \<times> 's CCoinsViewCache" where
  "GetNullifier ops c nullifier =
     (case map_of (cacheNullifiers c) nullifier of Some it \<Rightarrow> (ne_entered it, c)
      | None \<Rightarrow>
          let (tmp, b) = v_GetNullifier ops (base c) nullifier
          in (tmp, c\<lparr>base := b, cacheNullifiers :=
                AList.update nullifier \<lparr>ne_entered = tmp, ne_dirty = False\<rparr> (cacheNullifiers c)\<rparr>))"

definition GetBestBlock :: "'s CCoinsView \<Rightarrow> 's CCoinsViewCache \<Rightarrow> uint256 \<times> 's CCoinsViewCache" where
  "GetBestBlock ops c =
     (if IsNull (hashBlock c) then let (h, b) = v_GetBestBlock ops (base c) in (h, c\<lparr>base := b, hashBlock := h\<rparr>)
      else (hashBlock c, c))"

definition GetBestAnchor :: "'s CCoinsView \<Rightarrow> 's CCoinsViewCache \<Rightarrow> uint256 \<times> 's CCoinsViewCache" where
  "GetBestAnchor ops c =
     (if IsNull (hashAnchor c) then let (h, b) = v_GetBestAnchor ops (base c) in (h, c\<lparr>base := b, hashAnchor := h\<rparr>)
      else (hashAnchor c, c))"

definition SetBestBlock :: "'s CCoinsViewCache \<Rightarrow> uint256 \<Rightarrow> 's CCoinsViewCache" where
  "SetBestBlock c hashBlockIn = c\<lparr>hashBlock := hashBlockIn\<rparr>"

definition PushAnchor :: "'s CCoinsView \<Rightarrow> 's CCoinsViewCache \<Rightarrow> ZCIncrementalMerkleTree \<Rightarrow> 's CCoinsViewCache" where
  "PushAnchor ops c tree =
     (let newrt = ZCTree_root tree; (currentRoot, c) = GetBestAnchor ops c
      in if currentRoot \<noteq> newrt
         then c\<lparr>cacheAnchors := AList.update newrt \<lparr>ae_entered = True, ae_tree = tree, ae_dirty = True\<rparr> (cacheAnchors c),
                hashAnchor := newrt\<rparr>
         else c)"

definition PopAnchor :: "'s CCoinsView \<Rightarrow> 's CCoinsViewCache \<Rightarrow> uint256 \<Rightarrow> 's CCoinsViewCache option" where
  "PopAnchor ops c newrt =
     (let (currentRoot, c) = GetBestAnchor ops c
      in if currentRoot \<noteq> newrt
         then let (r, c) = GetAnchorAt ops c currentRoot
              in (case r of None \<Rightarrow> None
                  | Some tree \<Rightarrow>
                      Some (c\<lparr>cacheAnchors := AList.map_entry currentRoot (\<lambda>e. e\<lparr>ae_entered := False, ae_dirty := True\<rparr>) (cacheAnchors c),
                              hashAnchor := newrt\<rparr>))
         else Some c)"

definition SetNullifier :: "'s CCoinsViewCache \<Rightarrow> uint256 \<Rightarrow> bool \<Rightarrow> 's CCoinsViewCache" where
  "SetNullifier c nullifier spent =
     c\<lparr>cacheNullifiers := AList.update nullifier \<lparr>ne_entered = spent, ne_dirty = True\<rparr> (cacheNullifiers c)\<rparr>"

definition GetCoins :: "'s CCoinsView \<Rightarrow> 's CCoinsViewCache \<Rightarrow> uint256 \<Rightarrow> CCoins option \<times> 's CCoinsViewCache" where
  "GetCoins ops c txid = (let (it, c) = FetchCoins ops c txid in (map_option ce_coins it, c))"

definition AccessCoins :: "'s CCoinsView \<Rightarrow> 's CCoinsViewCache \<Rightarrow> uint256 \<Rightarrow> CCoins option \<times> 's CCoinsViewCache" where
  "AccessCoins ops c txid = (let (it, c) = FetchCoins ops c txid in (map_option ce_coins it, c))"

definition HaveCoins :: "'s CCoinsView \<Rightarrow> 's CCoinsViewCache \<Rightarrow> uint256 \<Rightarrow> bool \<times> 's CCoinsViewCache" where
  "HaveCoins ops c txid =
     (let (it, c) = FetchCoins ops c txid
      in (case it of None \<Rightarrow> False | Some e \<Rightarrow> cc_vout (ce_coins e) \<noteq> [], c))"

text \<open>
  A modifier is a reference to a cache entry. \<open>ModifyCoins\<close> brings the entry into the cache and marks it
  dirty; when the modifier goes out of scope the entry is cleaned up, and dropped if the view below
  does not have it either. \<open>with_coins\<close> is the scope of a modifier around a change of the coins.
\<close>

definition ModifyCoins :: "'s CCoinsView \<Rightarrow> 's CCoinsViewCache \<Rightarrow> uint256 \<Rightarrow> 's CCoinsViewCache option" where
  "ModifyCoins ops c txid =
     (if hasModifier c then None
      else Some (case map_of (cacheCoins c) txid of
          Some it \<Rightarrow> c\<lparr>hasModifier := True, cacheCoins := AList.update txid (it\<lparr>ce_dirty := True\<rparr>) (cacheCoins c)\<rparr>
        | None \<Rightarrow>
            let (r, b) = v_GetCoins ops (base c) txid;
                ret = (case r of None \<Rightarrow> \<lparr>ce_coins = CCoins_empty, ce_dirty = True, ce_fresh = True\<rparr>
                       | Some coins \<Rightarrow> \<lparr>ce_coins = coins, ce_dirty = True, ce_fresh = IsPruned coins\<rparr>)
            in c\<lparr>base := b, hasModifier := True, cacheCoins := AList.update txid ret (cacheCoins c)\<rparr>))"

definition CCoinsModifier_end :: "'s CCoinsViewCache \<Rightarrow> uint256 \<Rightarrow> 's CCoinsViewCache option" where
  "CCoinsModifier_end c txid =
     (if \<not> hasModifier c then None
      else case map_of (cacheCoins c) txid of None \<Rightarrow> None
      | Some it \<Rightarrow>
          let it = it\<lparr>ce_coins := Cleanup (ce_coins it)\<rparr>
          in Some (c\<lparr>hasModifier := False, cacheCoins :=
               if ce_fresh it \<and> IsPruned (ce_coins it) then AList.delete txid (cacheCoins c)
               else AList.update txid it (cacheCoins c)\<rparr>))"

definition with_coins ::
  "'s CCoinsView \<Rightarrow> 's CCoinsViewCache \<Rightarrow> uint256 \<Rightarrow> (CCoins \<Rightarrow> ('r \<times> CCoins) option) \<Rightarrow> ('r \<times> 's CCoinsViewCache) option" where
  "with_coins ops c txid f = do {
     c \<leftarrow> ModifyCoins ops c txid;
     it \<leftarrow> map_of (cacheCoins c) txid;
     (r, coins) \<leftarrow> f (ce_coins it);
     c \<leftarrow> CCoinsModifier_end (c\<lparr>cacheCoins := AList.update txid (it\<lparr>ce_coins := coins\<rparr>) (cacheCoins c)\<rparr>) txid;
     Some (r, c) }"

text \<open>
  The loops of \<open>BatchWrite\<close> visit the child's entries in some order and change only the own entry of the
  same key. The step yields the new own entry, or none when it is erased or not created.
\<close>

fun batch_loop :: "('v option \<Rightarrow> 'c \<Rightarrow> 'v option option) \<Rightarrow> ('k \<times> 'c) list \<Rightarrow> ('k \<times> 'v) list \<Rightarrow> ('k \<times> 'v) list option" where
  "batch_loop step [] own = Some own"
| "batch_loop step ((k, child) # m) own =
     (case step (map_of own k) child of None \<Rightarrow> None
      | Some None \<Rightarrow> batch_loop step m (AList.delete k own)
      | Some (Some e) \<Rightarrow> batch_loop step m (AList.update k e own))"

definition batch_coins :: "CCoinsCacheEntry option \<Rightarrow> CCoinsCacheEntry \<Rightarrow> CCoinsCacheEntry option option" where
  "batch_coins itUs it =
     (if ce_dirty it then
        (case itUs of
           None \<Rightarrow>
             if \<not> IsPruned (ce_coins it)
             then (if ce_fresh it then Some (Some \<lparr>ce_coins = ce_coins it, ce_dirty = True, ce_fresh = True\<rparr>) else None)
             else Some None
         | Some us \<Rightarrow>
             if ce_fresh us \<and> IsPruned (ce_coins it) then Some None
             else Some (Some (us\<lparr>ce_coins := ce_coins it, ce_dirty := True\<rparr>)))
      else Some itUs)"

definition batch_anchors :: "CAnchorsCacheEntry option \<Rightarrow> CAnchorsCacheEntry \<Rightarrow> CAnchorsCacheEntry option option" where
  "batch_anchors parent_it child =
     (if ae_dirty child then
        (case parent_it of
           None \<Rightarrow> Some (Some \<lparr>ae_entered = ae_entered child, ae_tree = ae_tree child, ae_dirty = True\<rparr>)
         | Some p \<Rightarrow>
             if ae_entered p \<noteq> ae_entered child then Some (Some (p\<lparr>ae_entered := ae_entered child, ae_dirty := True\<rparr>))
             else Some (Some p))
      else Some parent_it)"

definition batch_nullifiers :: "CNullifiersCacheEntry option \<Rightarrow> CNullifiersCacheEntry \<Rightarrow> CNullifiersCacheEntry option option" where
  "batch_nullifiers parent_it child =
     (if ne_dirty child then
        (case parent_it of
           None \<Rightarrow> Some (Some \<lparr>ne_entered = ne_entered child, ne_dirty = True\<rparr>)
         | Some p \<Rightarrow>
             if ne_entered p \<noteq> ne_entered child then Some (Some (p\<lparr>ne_entered := ne_entered child, ne_dirty := True\<rparr>))
             else Some (Some p))
      else Some parent_it)"

definition BatchWrite ::
  "'s CCoinsViewCache \<Rightarrow> CCoinsMap \<Rightarrow> uint256 \<Rightarrow> uint256 \<Rightarrow> CAnchorsMap \<Rightarrow> CNullifiersMap \<Rightarrow> (bool \<times> 's CCoinsViewCache) option" where
  "BatchWrite c mapCoins hashBlockIn hashAnchorIn mapAnchors mapNullifiers =
     (if hasModifier c then None
      else do {
        coins \<leftarrow> batch_loop batch_coins mapCoins (cacheCoins c);
        anchors \<leftarrow> batch_loop batch_anchors mapAnchors (cacheAnchors c);
        nullifiers \<leftarrow> batch_loop batch_nullifiers mapNullifiers (cacheNullifiers c);
        Some (True, c\<lparr>cacheCoins := coins, cacheAnchors := anchors, cacheNullifiers := nullifiers,
          hashAnchor := hashAnchorIn, hashBlock := hashBlockIn\<rparr>) })"

definition Flush :: "'s CCoinsView \<Rightarrow> 's CCoinsViewCache \<Rightarrow> (bool \<times> 's CCoinsViewCache) option" where
  "Flush ops c = do {
     (fOk, b) \<leftarrow> v_BatchWrite ops (base c) (cacheCoins c) (hashBlock c) (hashAnchor c) (cacheAnchors c) (cacheNullifiers c);
     Some (fOk, c\<lparr>base := b, cacheCoins := [], cacheAnchors := [], cacheNullifiers := []\<rparr>) }"

definition cache_ops :: "'s CCoinsView \<Rightarrow> 's CCoinsViewCache CCoinsView" where
  "cache_ops ops = \<lparr>v_GetAnchorAt = GetAnchorAt ops, v_GetNullifier = GetNullifier ops, v_GetCoins = GetCoins ops,
     v_HaveCoins = HaveCoins ops, v_GetBestBlock = GetBestBlock ops, v_GetBestAnchor = GetBestAnchor ops,
     v_BatchWrite = BatchWrite\<rparr>"

definition GetCacheSize :: "'s CCoinsViewCache \<Rightarrow> nat" where
  "GetCacheSize c = length (cacheCoins c)"

section \<open>Questions about a transaction\<close>

definition GetOutputFor :: "'s CCoinsView \<Rightarrow> 's CCoinsViewCache \<Rightarrow> CTxIn \<Rightarrow> (CTxOut \<times> 's CCoinsViewCache) option" where
  "GetOutputFor ops c input =
     (let (coins, c) = AccessCoins ops c (out_hash (prevout input))
      in case coins of None \<Rightarrow> None
         | Some coins \<Rightarrow>
             if IsAvailable coins (out_n (prevout input))
             then Some (cc_vout coins ! unat (out_n (prevout input)), c) else None)"

fun value_in_loop :: "'s CCoinsView \<Rightarrow> 's CCoinsViewCache \<Rightarrow> CAmount \<Rightarrow> CTxIn list \<Rightarrow> (CAmount \<times> 's CCoinsViewCache) option" where
  "value_in_loop ops c nResult [] = Some (nResult, c)"
| "value_in_loop ops c nResult (txin # ins) = do {
     (txout, c) \<leftarrow> GetOutputFor ops c txin;
     value_in_loop ops c (nResult + nValue txout) ins }"

definition GetValueIn :: "'s CCoinsView \<Rightarrow> 's CCoinsViewCache \<Rightarrow> CTransaction \<Rightarrow> (CAmount \<times> 's CCoinsViewCache) option" where
  "GetValueIn ops c tx =
     (if IsCoinBase tx then Some (0, c)
      else do {
        (nResult, c) \<leftarrow> value_in_loop ops c 0 (vin tx);
        js \<leftarrow> GetJoinSplitValueIn tx;
        Some (nResult + js, c) })"

fun have_inputs_loop :: "'s CCoinsView \<Rightarrow> 's CCoinsViewCache \<Rightarrow> CTxIn list \<Rightarrow> bool \<times> 's CCoinsViewCache" where
  "have_inputs_loop ops c [] = (True, c)"
| "have_inputs_loop ops c (txin # ins) =
     (let (coins, c) = AccessCoins ops c (out_hash (prevout txin))
      in case coins of None \<Rightarrow> (False, c)
         | Some coins \<Rightarrow> if \<not> IsAvailable coins (out_n (prevout txin)) then (False, c) else have_inputs_loop ops c ins)"

definition HaveInputs :: "'s CCoinsView \<Rightarrow> 's CCoinsViewCache \<Rightarrow> CTransaction \<Rightarrow> bool \<times> 's CCoinsViewCache" where
  "HaveInputs ops c tx = (if \<not> IsCoinBase tx then have_inputs_loop ops c (vin tx) else (True, c))"

fun any_nullifier :: "'s CCoinsView \<Rightarrow> 's CCoinsViewCache \<Rightarrow> uint256 list \<Rightarrow> bool \<times> 's CCoinsViewCache" where
  "any_nullifier ops c [] = (False, c)"
| "any_nullifier ops c (nf # nfs) =
     (let (spent, c) = GetNullifier ops c nf in if spent then (True, c) else any_nullifier ops c nfs)"

fun ZCTree_appends :: "ZCIncrementalMerkleTree \<Rightarrow> uint256 list \<Rightarrow> ZCIncrementalMerkleTree option" where
  "ZCTree_appends t [] = Some t"
| "ZCTree_appends t (x # xs) = do { t \<leftarrow> ZCTree_append t x; ZCTree_appends t xs }"

fun joinsplit_loop ::
  "'s CCoinsView \<Rightarrow> 's CCoinsViewCache \<Rightarrow> (uint256 \<times> ZCIncrementalMerkleTree) list \<Rightarrow> JSDescription list \<Rightarrow>
   (bool \<times> 's CCoinsViewCache) option" where
  "joinsplit_loop ops c intermediates [] = Some (True, c)"
| "joinsplit_loop ops c intermediates (joinsplit # js) =
     (let (spent, c) = any_nullifier ops c (nullifiers joinsplit)
      in if spent then Some (False, c)
         else let (tree, c) = (case map_of intermediates (anchor joinsplit) of
                    Some t \<Rightarrow> (Some t, c) | None \<Rightarrow> GetAnchorAt ops c (anchor joinsplit))
              in (case tree of None \<Rightarrow> Some (False, c)
                  | Some tree \<Rightarrow> do {
                      tree \<leftarrow> ZCTree_appends tree (commitments joinsplit);
                      joinsplit_loop ops c
                        (if map_of intermediates (ZCTree_root tree) = None
                         then (ZCTree_root tree, tree) # intermediates else intermediates) js }))"

definition HaveJoinSplitRequirements :: "'s CCoinsView \<Rightarrow> 's CCoinsViewCache \<Rightarrow> CTransaction \<Rightarrow> (bool \<times> 's CCoinsViewCache) option" where
  "HaveJoinSplitRequirements ops c tx = joinsplit_loop ops c [] (vjoinsplit tx)"

section \<open>The database view\<close>

text \<open>LevelDB is a map from keys to values to which a batch of writes and deletions is applied at once.\<close>

type_synonym leveldb = "bytes \<Rightarrow> bytes option"
type_synonym CLevelDBBatch = "(bytes \<times> bytes option) list"

definition WriteBatch :: "leveldb \<Rightarrow> CLevelDBBatch \<Rightarrow> leveldb" where
  "WriteBatch db batch = foldl (\<lambda>db (key, v). db(key := v)) db batch"

definition db_Read :: "leveldb \<Rightarrow> bytes \<Rightarrow> (bytes \<Rightarrow> ('a \<times> bytes) option) \<Rightarrow> 'a option" where
  "db_Read db key get = (case db key of None \<Rightarrow> None | Some v \<Rightarrow> map_option fst (get v))"

definition db_Exists :: "leveldb \<Rightarrow> bytes \<Rightarrow> bool" where
  "db_Exists db key \<longleftrightarrow> db key \<noteq> None"

definition DB_ANCHOR :: u8 where "DB_ANCHOR = 65"
definition DB_NULLIFIER :: u8 where "DB_NULLIFIER = 115"
definition DB_COINS :: u8 where "DB_COINS = 99"
definition DB_BEST_BLOCK :: u8 where "DB_BEST_BLOCK = 66"
definition DB_BEST_ANCHOR :: u8 where "DB_BEST_ANCHOR = 97"

definition db_key :: "u8 \<Rightarrow> uint256 \<Rightarrow> bytes" where
  "db_key c h = ser_writedata8 c @ put_blob h"

definition BatchWriteAnchor :: "uint256 \<Rightarrow> ZCIncrementalMerkleTree \<Rightarrow> bool \<Rightarrow> CLevelDBBatch" where
  "BatchWriteAnchor croot tree entered =
     (if \<not> entered then [(db_key DB_ANCHOR croot, None)] else [(db_key DB_ANCHOR croot, Some (put_tree tree))])"

definition BatchWriteNullifier :: "uint256 \<Rightarrow> bool \<Rightarrow> CLevelDBBatch" where
  "BatchWriteNullifier nf entered =
     (if \<not> entered then [(db_key DB_NULLIFIER nf, None)] else [(db_key DB_NULLIFIER nf, Some (ser_writedata8 1))])"

definition BatchWriteCoins :: "('pk, 'sig) secp256k1 \<Rightarrow> uint256 \<Rightarrow> CCoins \<Rightarrow> CLevelDBBatch option" where
  "BatchWriteCoins secp hash coins =
     (if IsPruned coins then Some [(db_key DB_COINS hash, None)]
      else do { v \<leftarrow> put_CCoins secp coins; Some [(db_key DB_COINS hash, Some v)] })"

definition db_GetAnchorAt :: "leveldb \<Rightarrow> uint256 \<Rightarrow> ZCIncrementalMerkleTree option \<times> leveldb" where
  "db_GetAnchorAt db rt =
     (if rt = ZCTree_empty_root then (Some tree_new, db)
      else (db_Read db (db_key DB_ANCHOR rt) (get_tree INCREMENTAL_MERKLE_TREE_DEPTH), db))"

definition db_GetNullifier :: "leveldb \<Rightarrow> uint256 \<Rightarrow> bool \<times> leveldb" where
  "db_GetNullifier db nf = (db_Read db (db_key DB_NULLIFIER nf) ser_readdata8 \<noteq> None, db)"

definition db_GetCoins :: "('pk, 'sig) secp256k1 \<Rightarrow> leveldb \<Rightarrow> uint256 \<Rightarrow> CCoins option \<times> leveldb" where
  "db_GetCoins secp db txid = (db_Read db (db_key DB_COINS txid) (get_CCoins secp), db)"

definition db_HaveCoins :: "leveldb \<Rightarrow> uint256 \<Rightarrow> bool \<times> leveldb" where
  "db_HaveCoins db txid = (db_Exists db (db_key DB_COINS txid), db)"

definition db_GetBestBlock :: "leveldb \<Rightarrow> uint256 \<times> leveldb" where
  "db_GetBestBlock db =
     (case db_Read db (ser_writedata8 DB_BEST_BLOCK) (stream_read 32) of None \<Rightarrow> uint256_null | Some h \<Rightarrow> h, db)"

definition db_GetBestAnchor :: "leveldb \<Rightarrow> uint256 \<times> leveldb" where
  "db_GetBestAnchor db =
     (case db_Read db (ser_writedata8 DB_BEST_ANCHOR) (stream_read 32) of None \<Rightarrow> ZCTree_empty_root | Some h \<Rightarrow> h, db)"

fun batch_of_coins :: "('pk, 'sig) secp256k1 \<Rightarrow> CCoinsMap \<Rightarrow> CLevelDBBatch option" where
  "batch_of_coins secp [] = Some []"
| "batch_of_coins secp ((h, e) # m) = do {
     w \<leftarrow> (if ce_dirty e then BatchWriteCoins secp h (ce_coins e) else Some []);
     ws \<leftarrow> batch_of_coins secp m;
     Some (w @ ws) }"

definition db_BatchWrite ::
  "('pk, 'sig) secp256k1 \<Rightarrow> leveldb \<Rightarrow> CCoinsMap \<Rightarrow> uint256 \<Rightarrow> uint256 \<Rightarrow> CAnchorsMap \<Rightarrow> CNullifiersMap \<Rightarrow> (bool \<times> leveldb) option" where
  "db_BatchWrite secp db mapCoins hBlock hAnchor mapAnchors mapNullifiers = do {
     coins \<leftarrow> batch_of_coins secp mapCoins;
     let anchors = concat (map (\<lambda>(rt, e). if ae_dirty e then BatchWriteAnchor rt (ae_tree e) (ae_entered e) else []) mapAnchors);
     let nullifiers = concat (map (\<lambda>(nf, e). if ne_dirty e then BatchWriteNullifier nf (ne_entered e) else []) mapNullifiers);
     let best_block = (if \<not> IsNull hBlock then [(ser_writedata8 DB_BEST_BLOCK, Some (put_blob hBlock))] else []);
     let best_anchor = (if \<not> IsNull hAnchor then [(ser_writedata8 DB_BEST_ANCHOR, Some (put_blob hAnchor))] else []);
     Some (True, WriteBatch db (coins @ anchors @ nullifiers @ best_block @ best_anchor)) }"

definition db_ops :: "('pk, 'sig) secp256k1 \<Rightarrow> leveldb CCoinsView" where
  "db_ops secp = \<lparr>v_GetAnchorAt = db_GetAnchorAt, v_GetNullifier = db_GetNullifier, v_GetCoins = db_GetCoins secp,
     v_HaveCoins = db_HaveCoins, v_GetBestBlock = db_GetBestBlock, v_GetBestAnchor = db_GetBestAnchor,
     v_BatchWrite = db_BatchWrite secp\<rparr>"

section \<open>The contract of a view\<close>

record chain_view =
  cv_coins :: "uint256 \<Rightarrow> CCoins option"
  cv_anchors :: "uint256 \<Rightarrow> bool"
  cv_nullifiers :: "uint256 \<Rightarrow> bool"
  cv_best_block :: uint256
  cv_best_anchor :: uint256

text \<open>Coins with every output spent count as absent.\<close>

definition unspent :: "CCoins option \<Rightarrow> CCoins option" where
  "unspent r = (case r of None \<Rightarrow> None | Some c \<Rightarrow> if IsPruned c then None else Some c)"

definition tree_at :: "uint256 \<Rightarrow> ZCIncrementalMerkleTree \<Rightarrow> bool" where
  "tree_at rt t \<longleftrightarrow> valid_tree INCREMENTAL_MERKLE_TREE_DEPTH t \<and> ZCTree_root t = rt"

text \<open>
  What a batch must fulfil: an entry the child marked fresh is new to the view, and any other entry
  comes from the view, which still holds it.
\<close>

definition batch_ok ::
  "chain_view \<Rightarrow> (uint256 \<Rightarrow> bool) \<Rightarrow> CCoinsMap \<Rightarrow> uint256 \<Rightarrow> uint256 \<Rightarrow> CAnchorsMap \<Rightarrow> CNullifiersMap \<Rightarrow> bool" where
  "batch_ok v held coins hb ha anchors nulls \<longleftrightarrow>
     distinct (map fst coins) \<and> distinct (map fst anchors) \<and> distinct (map fst nulls) \<and>
     (\<forall>k e. map_of coins k = Some e \<longrightarrow> ce_dirty e \<longrightarrow> valid_coins (ce_coins e) \<and>
        (if ce_fresh e then \<not> IsPruned (ce_coins e) \<and> cv_coins v k = None else held k)) \<and>
     (\<forall>k e. map_of anchors k = Some e \<longrightarrow> tree_at k (ae_tree e) \<and> (ae_entered e \<or> k \<noteq> ZCTree_empty_root)) \<and>
     \<not> IsNull hb \<and> \<not> IsNull ha \<and> length hb = 32 \<and> length ha = 32"

definition batch_view :: "chain_view \<Rightarrow> CCoinsMap \<Rightarrow> uint256 \<Rightarrow> uint256 \<Rightarrow> CAnchorsMap \<Rightarrow> CNullifiersMap \<Rightarrow> chain_view" where
  "batch_view v coins hb ha anchors nulls =
     \<lparr>cv_coins = (\<lambda>k. case map_of coins k of None \<Rightarrow> cv_coins v k
        | Some e \<Rightarrow> if ce_dirty e then unspent (Some (ce_coins e)) else cv_coins v k),
      cv_anchors = (\<lambda>k. case map_of anchors k of None \<Rightarrow> cv_anchors v k
        | Some e \<Rightarrow> if ae_dirty e then ae_entered e else cv_anchors v k),
      cv_nullifiers = (\<lambda>k. case map_of nulls k of None \<Rightarrow> cv_nullifiers v k
        | Some e \<Rightarrow> if ne_dirty e then ne_entered e else cv_nullifiers v k),
      cv_best_block = hb, cv_best_anchor = ha\<rparr>"

text \<open>A read keeps the abstract state and what the view holds.\<close>

definition only_reads :: "('s \<Rightarrow> bool) \<Rightarrow> ('s \<Rightarrow> chain_view) \<Rightarrow> ('s \<Rightarrow> uint256 \<Rightarrow> bool) \<Rightarrow> 's \<Rightarrow> 's \<Rightarrow> bool" where
  "only_reads good view held s s' \<longleftrightarrow> good s' \<and> view s' = view s \<and> (\<forall>j. held s j \<longrightarrow> held s' j)"

lemma only_reads_refl [simp]: "good s \<Longrightarrow> only_reads good view held s s"
  by (simp add: only_reads_def)

lemma only_reads_trans: "only_reads good view held s s' \<Longrightarrow> only_reads good view held s' s'' \<Longrightarrow> only_reads good view held s s''"
  by (simp add: only_reads_def)

locale coins_view =
  fixes ops :: "'s CCoinsView" and good :: "'s \<Rightarrow> bool" and view :: "'s \<Rightarrow> chain_view" and held :: "'s \<Rightarrow> uint256 \<Rightarrow> bool"
  assumes get_coins: "good s \<Longrightarrow> v_GetCoins ops s k = (r, s') \<Longrightarrow>
      only_reads good view held s s' \<and> unspent r = cv_coins (view s) k \<and> (\<forall>c. r = Some c \<longrightarrow> valid_coins c \<and> held s' k)"
    and have_coins: "good s \<Longrightarrow> v_HaveCoins ops s k = (b, s') \<Longrightarrow>
      only_reads good view held s s' \<and> b = (cv_coins (view s) k \<noteq> None)"
    and get_anchor: "good s \<Longrightarrow> v_GetAnchorAt ops s rt = (t, s') \<Longrightarrow>
      only_reads good view held s s' \<and> (t \<noteq> None) = cv_anchors (view s) rt \<and> (\<forall>u. t = Some u \<longrightarrow> tree_at rt u)"
    and get_nullifier: "good s \<Longrightarrow> v_GetNullifier ops s nf = (b, s') \<Longrightarrow>
      only_reads good view held s s' \<and> b = cv_nullifiers (view s) nf"
    and get_best_block: "good s \<Longrightarrow> v_GetBestBlock ops s = (h, s') \<Longrightarrow>
      only_reads good view held s s' \<and> h = cv_best_block (view s) \<and> length h = 32"
    and get_best_anchor: "good s \<Longrightarrow> v_GetBestAnchor ops s = (h, s') \<Longrightarrow>
      only_reads good view held s s' \<and> h = cv_best_anchor (view s) \<and> length h = 32"
    and empty_anchor: "good s \<Longrightarrow> cv_anchors (view s) ZCTree_empty_root"
    and batch_write: "good s \<Longrightarrow> batch_ok (view s) (held s) coins hb ha anchors nulls \<Longrightarrow>
      \<exists>s'. v_BatchWrite ops s coins hb ha anchors nulls = Some (True, s') \<and> good s' \<and>
        view s' = batch_view (view s) coins hb ha anchors nulls"

section \<open>Loops over a batch\<close>

lemma batch_loop_result:
  assumes "distinct (map fst m)" "\<And>k e. map_of m k = Some e \<Longrightarrow> step (map_of own k) e \<noteq> None"
  obtains own' where "batch_loop step m own = Some own'"
    "\<And>k. map_of own' k = (case map_of m k of None \<Rightarrow> map_of own k | Some e \<Rightarrow> the (step (map_of own k) e))"
    "distinct (map fst own) \<Longrightarrow> distinct (map fst own')"
proof -
  have "\<exists>own'. batch_loop step m own = Some own' \<and>
    (\<forall>k. map_of own' k = (case map_of m k of None \<Rightarrow> map_of own k | Some e \<Rightarrow> the (step (map_of own k) e))) \<and>
    (distinct (map fst own) \<longrightarrow> distinct (map fst own'))"
    using assms
  proof (induction m arbitrary: own)
    case (Cons p m)
    obtain k e where p: "p = (k, e)" by fastforce
    obtain x where x: "step (map_of own k) e = Some x" using Cons.prems(2) [of k e] p by auto
    define own1 where "own1 = (case x of None \<Rightarrow> AList.delete k own | Some v \<Rightarrow> AList.update k v own)"
    have m1: "map_of own1 = (map_of own)(k := x)"
      by (auto simp: own1_def AList.delete_conv' AList.update_conv' split: option.splits)
    have d1: "distinct (map fst own) \<Longrightarrow> distinct (map fst own1)"
      by (auto simp: own1_def AList.distinct_delete AList.distinct_update split: option.splits)
    have k: "map_of m k = None" using Cons.prems(1) p by (simp add: map_of_eq_None_iff)
    have "step (map_of own1 j) f \<noteq> None" if "map_of m j = Some f" for j f
      using Cons.prems(2) [of j f] that k p m1 by (auto split: if_splits)
    then obtain own' where o: "batch_loop step m own1 = Some own'"
      "\<forall>j. map_of own' j = (case map_of m j of None \<Rightarrow> map_of own1 j | Some f \<Rightarrow> the (step (map_of own1 j) f))"
      "distinct (map fst own1) \<longrightarrow> distinct (map fst own')"
      using Cons.IH [of own1] Cons.prems(1) by auto
    have "batch_loop step (p # m) own = Some own'" using o(1) p x by (auto simp: own1_def split: option.splits)
    moreover have "map_of own' j = (case map_of (p # m) j of None \<Rightarrow> map_of own j | Some f \<Rightarrow> the (step (map_of own j) f))" for j
      using o(2) m1 k p x by (cases "j = k") (auto split: option.splits)
    ultimately show ?case using o(3) d1 by blast
  qed simp
  then show ?thesis using that by blast
qed

section \<open>A cache fulfils the contract\<close>

definition entry_ok :: "chain_view \<Rightarrow> (uint256 \<Rightarrow> bool) \<Rightarrow> uint256 \<Rightarrow> CCoinsCacheEntry \<Rightarrow> bool" where
  "entry_ok v held k e \<longleftrightarrow> valid_coins (ce_coins e) \<and>
     (\<not> ce_dirty e \<longrightarrow> unspent (Some (ce_coins e)) = cv_coins v k) \<and>
     (if ce_fresh e then cv_coins v k = None else held k) \<and>
     (ce_dirty e \<longrightarrow> ce_fresh e \<longrightarrow> \<not> IsPruned (ce_coins e))"

definition anchor_ok :: "chain_view \<Rightarrow> uint256 \<Rightarrow> CAnchorsCacheEntry \<Rightarrow> bool" where
  "anchor_ok v k e \<longleftrightarrow> tree_at k (ae_tree e) \<and> (\<not> ae_dirty e \<longrightarrow> ae_entered e = cv_anchors v k) \<and>
     (ae_entered e \<or> k \<noteq> ZCTree_empty_root)"

definition nullifier_ok :: "chain_view \<Rightarrow> uint256 \<Rightarrow> CNullifiersCacheEntry \<Rightarrow> bool" where
  "nullifier_ok v k e \<longleftrightarrow> (\<not> ne_dirty e \<longrightarrow> ne_entered e = cv_nullifiers v k)"

definition cache_good :: "('s \<Rightarrow> bool) \<Rightarrow> ('s \<Rightarrow> chain_view) \<Rightarrow> ('s \<Rightarrow> uint256 \<Rightarrow> bool) \<Rightarrow> 's CCoinsViewCache \<Rightarrow> bool" where
  "cache_good good view held c \<longleftrightarrow> good (base c) \<and> \<not> hasModifier c \<and>
     distinct (map fst (cacheCoins c)) \<and> distinct (map fst (cacheAnchors c)) \<and> distinct (map fst (cacheNullifiers c)) \<and>
     (\<forall>k e. map_of (cacheCoins c) k = Some e \<longrightarrow> entry_ok (view (base c)) (held (base c)) k e) \<and>
     (\<forall>k e. map_of (cacheAnchors c) k = Some e \<longrightarrow> anchor_ok (view (base c)) k e) \<and>
     (\<forall>k e. map_of (cacheNullifiers c) k = Some e \<longrightarrow> nullifier_ok (view (base c)) k e) \<and>
     length (hashBlock c) = 32 \<and> length (hashAnchor c) = 32"

definition cache_view :: "('s \<Rightarrow> chain_view) \<Rightarrow> 's CCoinsViewCache \<Rightarrow> chain_view" where
  "cache_view view c = (let v = view (base c) in
     \<lparr>cv_coins = (\<lambda>k. case map_of (cacheCoins c) k of None \<Rightarrow> cv_coins v k | Some e \<Rightarrow> unspent (Some (ce_coins e))),
      cv_anchors = (\<lambda>k. case map_of (cacheAnchors c) k of None \<Rightarrow> cv_anchors v k | Some e \<Rightarrow> ae_entered e),
      cv_nullifiers = (\<lambda>k. case map_of (cacheNullifiers c) k of None \<Rightarrow> cv_nullifiers v k | Some e \<Rightarrow> ne_entered e),
      cv_best_block = (if IsNull (hashBlock c) then cv_best_block v else hashBlock c),
      cv_best_anchor = (if IsNull (hashAnchor c) then cv_best_anchor v else hashAnchor c)\<rparr>)"

definition cache_held :: "'s CCoinsViewCache \<Rightarrow> uint256 \<Rightarrow> bool" where
  "cache_held c k \<longleftrightarrow> map_of (cacheCoins c) k \<noteq> None"

lemma entry_ok_mono: "entry_ok v h k e \<Longrightarrow> \<forall>j. h j \<longrightarrow> h' j \<Longrightarrow> entry_ok v h' k e"
  by (auto simp: entry_ok_def split: if_splits)

lemma IsPruned_valid: "valid_coins c \<Longrightarrow> IsPruned c \<longleftrightarrow> cc_vout c = []"
  by (simp add: IsPruned_clean valid_coins_def)

lemma unspent_None [simp]: "unspent None = None"
  by (simp add: unspent_def)

lemma unspent_Some_iff: "unspent (Some c) = None \<longleftrightarrow> IsPruned c"
  by (simp add: unspent_def)

text \<open>The single changes the operations are made of.\<close>

lemma cache_base:
  assumes "cache_good good view held c" "only_reads good view held (base c) b"
  shows "only_reads (cache_good good view held) (cache_view view) cache_held c (c\<lparr>base := b\<rparr>)"
  using assms entry_ok_mono [of "view (base c)" "held (base c)" _ _ "held b"]
  by (simp add: cache_good_def cache_view_def cache_held_def only_reads_def Let_def)

lemma cache_put_coins:
  assumes "cache_good good view held c" "entry_ok (view (base c)) (held (base c)) k e"
  shows "cache_good good view held (c\<lparr>cacheCoins := AList.update k e (cacheCoins c)\<rparr>)"
    and "cache_view view (c\<lparr>cacheCoins := AList.update k e (cacheCoins c)\<rparr>) =
      (cache_view view c)\<lparr>cv_coins := (cv_coins (cache_view view c))(k := unspent (Some (ce_coins e)))\<rparr>"
  using assms by (auto simp: cache_good_def cache_view_def Let_def AList.update_conv' AList.distinct_update)

lemma cache_delete_coins:
  assumes "cache_good good view held c" "cv_coins (view (base c)) k = None"
  shows "cache_good good view held (c\<lparr>cacheCoins := AList.delete k (cacheCoins c)\<rparr>)"
    and "cache_view view (c\<lparr>cacheCoins := AList.delete k (cacheCoins c)\<rparr>) =
      (cache_view view c)\<lparr>cv_coins := (cv_coins (cache_view view c))(k := None)\<rparr>"
  using assms by (auto simp: cache_good_def cache_view_def Let_def AList.delete_conv' AList.distinct_delete)

lemma cache_put_anchor:
  assumes "cache_good good view held c" "anchor_ok (view (base c)) k e"
  shows "cache_good good view held (c\<lparr>cacheAnchors := AList.update k e (cacheAnchors c)\<rparr>)"
    and "cache_view view (c\<lparr>cacheAnchors := AList.update k e (cacheAnchors c)\<rparr>) =
      (cache_view view c)\<lparr>cv_anchors := (cv_anchors (cache_view view c))(k := ae_entered e)\<rparr>"
  using assms by (auto simp: cache_good_def cache_view_def Let_def AList.update_conv' AList.distinct_update)

lemma cache_put_nullifier:
  assumes "cache_good good view held c" "nullifier_ok (view (base c)) k e"
  shows "cache_good good view held (c\<lparr>cacheNullifiers := AList.update k e (cacheNullifiers c)\<rparr>)"
    and "cache_view view (c\<lparr>cacheNullifiers := AList.update k e (cacheNullifiers c)\<rparr>) =
      (cache_view view c)\<lparr>cv_nullifiers := (cv_nullifiers (cache_view view c))(k := ne_entered e)\<rparr>"
  using assms by (auto simp: cache_good_def cache_view_def Let_def AList.update_conv' AList.distinct_update)

lemma cache_put_block:
  assumes "cache_good good view held c" "length h = 32"
  shows "cache_good good view held (c\<lparr>hashBlock := h\<rparr>)"
    and "cache_view view (c\<lparr>hashBlock := h\<rparr>) =
      (cache_view view c)\<lparr>cv_best_block := (if IsNull h then cv_best_block (view (base c)) else h)\<rparr>"
  using assms by (auto simp: cache_good_def cache_view_def Let_def)

lemma cache_put_best_anchor:
  assumes "cache_good good view held c" "length h = 32"
  shows "cache_good good view held (c\<lparr>hashAnchor := h\<rparr>)"
    and "cache_view view (c\<lparr>hashAnchor := h\<rparr>) =
      (cache_view view c)\<lparr>cv_best_anchor := (if IsNull h then cv_best_anchor (view (base c)) else h)\<rparr>"
  using assms by (auto simp: cache_good_def cache_view_def Let_def)

lemma cache_view_miss:
  shows "map_of (cacheCoins c) k = None \<Longrightarrow> cv_coins (cache_view view c) k = cv_coins (view (base c)) k"
    and "map_of (cacheCoins c) k = Some e \<Longrightarrow> cv_coins (cache_view view c) k = unspent (Some (ce_coins e))"
    and "map_of (cacheAnchors c) k = None \<Longrightarrow> cv_anchors (cache_view view c) k = cv_anchors (view (base c)) k"
    and "map_of (cacheAnchors c) k = Some e' \<Longrightarrow> cv_anchors (cache_view view c) k = ae_entered e'"
    and "map_of (cacheNullifiers c) k = None \<Longrightarrow> cv_nullifiers (cache_view view c) k = cv_nullifiers (view (base c)) k"
    and "map_of (cacheNullifiers c) k = Some e'' \<Longrightarrow> cv_nullifiers (cache_view view c) k = ne_entered e''"
  by (simp_all add: cache_view_def Let_def)

text \<open>Entries that record what the view below shows leave the abstract state as it is.\<close>

lemma cache_note_coins:
  assumes "cache_good good view held c" "entry_ok (view (base c)) (held (base c)) k e"
    "map_of (cacheCoins c) k = None" "\<not> ce_dirty e"
  shows "only_reads (cache_good good view held) (cache_view view) cache_held c (c\<lparr>cacheCoins := AList.update k e (cacheCoins c)\<rparr>)"
proof -
  have "unspent (Some (ce_coins e)) = cv_coins (cache_view view c) k"
    using assms by (simp add: cache_view_miss entry_ok_def)
  then show ?thesis
    using cache_put_coins [OF assms(1,2)] by (simp add: only_reads_def cache_held_def AList.update_conv')
qed

lemma cache_note_anchor:
  assumes "cache_good good view held c" "anchor_ok (view (base c)) k e" "map_of (cacheAnchors c) k = None" "\<not> ae_dirty e"
  shows "only_reads (cache_good good view held) (cache_view view) cache_held c (c\<lparr>cacheAnchors := AList.update k e (cacheAnchors c)\<rparr>)"
proof -
  have "ae_entered e = cv_anchors (cache_view view c) k" using assms by (simp add: cache_view_miss anchor_ok_def)
  then show ?thesis using cache_put_anchor [OF assms(1,2)] by (simp add: only_reads_def cache_held_def)
qed

lemma cache_note_nullifier:
  assumes "cache_good good view held c" "nullifier_ok (view (base c)) k e" "map_of (cacheNullifiers c) k = None" "\<not> ne_dirty e"
  shows "only_reads (cache_good good view held) (cache_view view) cache_held c (c\<lparr>cacheNullifiers := AList.update k e (cacheNullifiers c)\<rparr>)"
proof -
  have "ne_entered e = cv_nullifiers (cache_view view c) k" using assms by (simp add: cache_view_miss nullifier_ok_def)
  then show ?thesis using cache_put_nullifier [OF assms(1,2)] by (simp add: only_reads_def cache_held_def)
qed

context coins_view
begin

lemma fetch_coins:
  assumes g: "cache_good good view held c" and f: "FetchCoins ops c k = (r, c')"
  shows "only_reads (cache_good good view held) (cache_view view) cache_held c c'"
    and "unspent (map_option ce_coins r) = cv_coins (cache_view view c) k"
    and "map_of (cacheCoins c') k = r"
    and "r = Some e \<Longrightarrow> valid_coins (ce_coins e)"
proof -
  obtain r0 b where b: "v_GetCoins ops (base c) k = (r0, b)" by fastforce
  have l: "only_reads good view held (base c) b" "unspent r0 = cv_coins (view (base c)) k"
    "\<And>x. r0 = Some x \<Longrightarrow> valid_coins x \<and> held b k"
    using get_coins [OF _ b] g by (auto simp: cache_good_def)
  note cb = cache_base [OF g l(1)]
  have e: "entry_ok (view b) (held b) k \<lparr>ce_coins = x, ce_dirty = False, ce_fresh = IsPruned x\<rparr>" if "r0 = Some x" for x
    using l that by (auto simp: entry_ok_def only_reads_def unspent_def)
  have n: "only_reads (cache_good good view held) (cache_view view) cache_held c
      (c\<lparr>base := b, cacheCoins := AList.update k \<lparr>ce_coins = x, ce_dirty = False, ce_fresh = IsPruned x\<rparr> (cacheCoins c)\<rparr>)"
    if "r0 = Some x" "map_of (cacheCoins c) k = None" for x
    using only_reads_trans [OF cb cache_note_coins [of good view held "c\<lparr>base := b\<rparr>"]] cb e that
    by (simp add: only_reads_def)
  show "only_reads (cache_good good view held) (cache_view view) cache_held c c'"
    using f b g cb n by (auto simp: FetchCoins_def Let_def split: option.splits)
  show "unspent (map_option ce_coins r) = cv_coins (cache_view view c) k"
    using f [symmetric] b l by (cases "map_of (cacheCoins c) k"; cases r0) (auto simp: FetchCoins_def Let_def cache_view_miss)
  show "map_of (cacheCoins c') k = r"
    using f b by (auto simp: FetchCoins_def Let_def AList.update_conv' split: option.splits)
  show "r = Some e \<Longrightarrow> valid_coins (ce_coins e)"
    using f b l g by (auto simp: FetchCoins_def Let_def entry_ok_def cache_good_def split: option.splits)
qed

lemma cache_get_anchor:
  assumes g: "cache_good good view held c" and f: "GetAnchorAt ops c rt = (t, c')"
  shows "only_reads (cache_good good view held) (cache_view view) cache_held c c'"
    and "(t \<noteq> None) = cv_anchors (cache_view view c) rt"
    and "t = Some u \<Longrightarrow> tree_at rt u"
    and "t \<noteq> None \<Longrightarrow> \<exists>e. map_of (cacheAnchors c') rt = Some e \<and> t = Some (ae_tree e)"
proof -
  obtain r0 b where b: "v_GetAnchorAt ops (base c) rt = (r0, b)" by fastforce
  have l: "only_reads good view held (base c) b" "(r0 \<noteq> None) = cv_anchors (view (base c)) rt"
    "\<And>x. r0 = Some x \<Longrightarrow> tree_at rt x"
    using get_anchor [OF _ b] g by (auto simp: cache_good_def)
  note cb = cache_base [OF g l(1)]
  have n: "only_reads (cache_good good view held) (cache_view view) cache_held c
      (c\<lparr>base := b, cacheAnchors := AList.update rt \<lparr>ae_entered = True, ae_tree = x, ae_dirty = False\<rparr> (cacheAnchors c)\<rparr>)"
    if "r0 = Some x" "map_of (cacheAnchors c) rt = None" for x
    using only_reads_trans [OF cb cache_note_anchor [of good view held "c\<lparr>base := b\<rparr>"]] cb l that
    by (simp add: only_reads_def anchor_ok_def)
  show "only_reads (cache_good good view held) (cache_view view) cache_held c c'"
    using f b g cb n by (auto simp: GetAnchorAt_def Let_def split: option.splits)
  show "(t \<noteq> None) = cv_anchors (cache_view view c) rt"
    using f b l by (auto simp: GetAnchorAt_def Let_def cache_view_miss split: option.splits if_splits)
  show "t = Some u \<Longrightarrow> tree_at rt u"
    using f b l g by (auto simp: GetAnchorAt_def Let_def anchor_ok_def cache_good_def split: option.splits if_splits)
  show "t \<noteq> None \<Longrightarrow> \<exists>e. map_of (cacheAnchors c') rt = Some e \<and> t = Some (ae_tree e)"
    using f b by (auto simp: GetAnchorAt_def Let_def AList.update_conv' split: option.splits if_splits)
qed

lemma cache_get_nullifier:
  assumes g: "cache_good good view held c" and f: "GetNullifier ops c nf = (r, c')"
  shows "only_reads (cache_good good view held) (cache_view view) cache_held c c'"
    and "r = cv_nullifiers (cache_view view c) nf"
proof -
  obtain r0 b where b: "v_GetNullifier ops (base c) nf = (r0, b)" by fastforce
  have l: "only_reads good view held (base c) b" "r0 = cv_nullifiers (view (base c)) nf"
    using get_nullifier [OF _ b] g by (auto simp: cache_good_def)
  note cb = cache_base [OF g l(1)]
  have "only_reads (cache_good good view held) (cache_view view) cache_held c
      (c\<lparr>base := b, cacheNullifiers := AList.update nf \<lparr>ne_entered = r0, ne_dirty = False\<rparr> (cacheNullifiers c)\<rparr>)"
    if "map_of (cacheNullifiers c) nf = None"
    using only_reads_trans [OF cb cache_note_nullifier [of good view held "c\<lparr>base := b\<rparr>"]] cb l that
    by (simp add: only_reads_def nullifier_ok_def)
  then show "only_reads (cache_good good view held) (cache_view view) cache_held c c'"
    using f b g by (auto simp: GetNullifier_def Let_def split: option.splits)
  show "r = cv_nullifiers (cache_view view c) nf"
    using f b l by (auto simp: GetNullifier_def Let_def cache_view_miss split: option.splits)
qed

lemma cache_get_best_block:
  assumes g: "cache_good good view held c" and f: "GetBestBlock ops c = (h, c')"
  shows "only_reads (cache_good good view held) (cache_view view) cache_held c c'"
    and "h = cv_best_block (cache_view view c)" "length h = 32"
proof -
  obtain h0 b where b: "v_GetBestBlock ops (base c) = (h0, b)" by fastforce
  have l: "only_reads good view held (base c) b" "h0 = cv_best_block (view (base c))" "length h0 = 32"
    using get_best_block [OF _ b] g by (auto simp: cache_good_def)
  have cb: "cache_good good view held (c\<lparr>base := b\<rparr>)" "cache_view view (c\<lparr>base := b\<rparr>) = cache_view view c" "view b = view (base c)"
    using cache_base [OF g l(1)] l(1) by (simp_all add: only_reads_def)
  have n: "IsNull (hashBlock c) \<Longrightarrow> h0 = cv_best_block (cache_view view c)" using l by (simp add: cache_view_def Let_def)
  show "only_reads (cache_good good view held) (cache_view view) cache_held c c'"
    using f b g cb l n cache_put_block [OF cb(1) l(3)]
    by (auto simp: GetBestBlock_def only_reads_def cache_held_def split: if_splits)
  show "h = cv_best_block (cache_view view c)" "length h = 32"
    using f b l g by (auto simp: GetBestBlock_def cache_good_def cache_view_def Let_def split: if_splits)
qed

lemma cache_get_best_anchor:
  assumes g: "cache_good good view held c" and f: "GetBestAnchor ops c = (h, c')"
  shows "only_reads (cache_good good view held) (cache_view view) cache_held c c'"
    and "h = cv_best_anchor (cache_view view c)" "length h = 32"
proof -
  obtain h0 b where b: "v_GetBestAnchor ops (base c) = (h0, b)" by fastforce
  have l: "only_reads good view held (base c) b" "h0 = cv_best_anchor (view (base c))" "length h0 = 32"
    using get_best_anchor [OF _ b] g by (auto simp: cache_good_def)
  have cb: "cache_good good view held (c\<lparr>base := b\<rparr>)" "cache_view view (c\<lparr>base := b\<rparr>) = cache_view view c" "view b = view (base c)"
    using cache_base [OF g l(1)] l(1) by (simp_all add: only_reads_def)
  have n: "IsNull (hashAnchor c) \<Longrightarrow> h0 = cv_best_anchor (cache_view view c)" using l by (simp add: cache_view_def Let_def)
  show "only_reads (cache_good good view held) (cache_view view) cache_held c c'"
    using f b g cb l n cache_put_best_anchor [OF cb(1) l(3)]
    by (auto simp: GetBestAnchor_def only_reads_def cache_held_def split: if_splits)
  show "h = cv_best_anchor (cache_view view c)" "length h = 32"
    using f b l g by (auto simp: GetBestAnchor_def cache_good_def cache_view_def Let_def split: if_splits)
qed

end

text \<open>The value of every key after a loop over a batch, when the own map overlays the values \<open>below\<close> it.\<close>

lemma batch_loop_overlay:
  assumes "distinct (map fst own)" "distinct (map fst m)" "\<forall>k e. map_of own k = Some e \<longrightarrow> ok k e"
    and s: "\<And>k it. map_of m k = Some it \<Longrightarrow> \<exists>r. step (map_of own k) it = Some r \<and> pred_option (ok k) r \<and>
      case_option (below k) val r = (if dirty it then new it else case_option (below k) val (map_of own k))"
  obtains own' where "batch_loop step m own = Some own'" "distinct (map fst own')"
    "\<forall>k e. map_of own' k = Some e \<longrightarrow> ok k e"
    "(\<lambda>k. case_option (below k) val (map_of own' k)) =
     (\<lambda>k. case map_of m k of None \<Rightarrow> case_option (below k) val (map_of own k)
       | Some it \<Rightarrow> if dirty it then new it else case_option (below k) val (map_of own k))"
proof -
  have "step (map_of own k) it \<noteq> None" if "map_of m k = Some it" for k it using s [OF that] by auto
  then obtain own' where o: "batch_loop step m own = Some own'"
    "\<And>k. map_of own' k = (case map_of m k of None \<Rightarrow> map_of own k | Some e \<Rightarrow> the (step (map_of own k) e))"
    "distinct (map fst own) \<Longrightarrow> distinct (map fst own')"
    using batch_loop_result [of m step own] assms(2) by blast
  have "ok k e" if "map_of own' k = Some e" for k e
    using that o(2) [of k] assms(3) s [of k] by (cases "map_of m k") auto
  moreover have "case_option (below k) val (map_of own' k) =
     (case map_of m k of None \<Rightarrow> case_option (below k) val (map_of own k)
       | Some it \<Rightarrow> if dirty it then new it else case_option (below k) val (map_of own k))" for k
    using o(2) [of k] s [of k] by (cases "map_of m k") auto
  ultimately show ?thesis using that o(1) o(3) [OF assms(1)] by blast
qed

lemma batch_coins_step:
  assumes "\<And>e. us = Some e \<Longrightarrow> entry_ok v held k e" "ce_dirty it \<Longrightarrow> valid_coins (ce_coins it)"
    "ce_dirty it \<Longrightarrow> if ce_fresh it then \<not> IsPruned (ce_coins it) \<and> case_option (cv_coins v k) (\<lambda>e. unspent (Some (ce_coins e))) us = None
       else us \<noteq> None"
  shows "\<exists>r. batch_coins us it = Some r \<and> pred_option (entry_ok v held k) r \<and>
    case_option (cv_coins v k) (\<lambda>e. unspent (Some (ce_coins e))) r =
    (if ce_dirty it then unspent (Some (ce_coins it)) else case_option (cv_coins v k) (\<lambda>e. unspent (Some (ce_coins e))) us)"
proof (cases "ce_dirty it")
  case True
  then show ?thesis
    using assms by (cases us; cases "ce_fresh it"; cases "IsPruned (ce_coins it)"; cases "ce_fresh (the us)")
      (auto simp: batch_coins_def entry_ok_def unspent_def)
next
  case False
  then show ?thesis using assms(1) by (cases us) (auto simp: batch_coins_def)
qed

lemma batch_anchors_step:
  assumes "\<And>e. us = Some e \<Longrightarrow> anchor_ok v k e" "tree_at k (ae_tree it)" "ae_entered it \<or> k \<noteq> ZCTree_empty_root"
  shows "\<exists>r. batch_anchors us it = Some r \<and> pred_option (anchor_ok v k) r \<and>
    case_option (cv_anchors v k) ae_entered r = (if ae_dirty it then ae_entered it else case_option (cv_anchors v k) ae_entered us)"
  using assms by (cases us; cases "ae_dirty it"; cases "ae_entered (the us) = ae_entered it")
    (auto simp: batch_anchors_def anchor_ok_def)

lemma batch_nullifiers_step:
  assumes "\<And>e. us = Some e \<Longrightarrow> nullifier_ok v k e"
  shows "\<exists>r. batch_nullifiers us it = Some r \<and> pred_option (nullifier_ok v k) r \<and>
    case_option (cv_nullifiers v k) ne_entered r =
    (if ne_dirty it then ne_entered it else case_option (cv_nullifiers v k) ne_entered us)"
  using assms by (cases us; cases "ne_dirty it"; cases "ne_entered (the us) = ne_entered it")
    (auto simp: batch_nullifiers_def nullifier_ok_def)

lemma cache_view_sel:
  "cv_coins (cache_view view c) = (\<lambda>k. case_option (cv_coins (view (base c)) k) (\<lambda>e. unspent (Some (ce_coins e))) (map_of (cacheCoins c) k))"
  "cv_anchors (cache_view view c) = (\<lambda>k. case_option (cv_anchors (view (base c)) k) ae_entered (map_of (cacheAnchors c) k))"
  "cv_nullifiers (cache_view view c) = (\<lambda>k. case_option (cv_nullifiers (view (base c)) k) ne_entered (map_of (cacheNullifiers c) k))"
  by (simp_all add: cache_view_def Let_def)

lemma cache_batch_write:
  assumes g: "cache_good good view held c" and b: "batch_ok (cache_view view c) (cache_held c) coins hb ha anchors nulls"
  shows "\<exists>c'. BatchWrite c coins hb ha anchors nulls = Some (True, c') \<and> cache_good good view held c' \<and>
    cache_view view c' = batch_view (cache_view view c) coins hb ha anchors nulls"
proof -
  let ?v = "view (base c)" and ?h = "held (base c)"
  note c = g [unfolded cache_good_def] and d = b [unfolded batch_ok_def cache_held_def cache_view_sel]
  obtain cs where cs: "batch_loop batch_coins coins (cacheCoins c) = Some cs" "distinct (map fst cs)"
    "\<forall>k e. map_of cs k = Some e \<longrightarrow> entry_ok ?v ?h k e"
    "(\<lambda>k. case_option (cv_coins ?v k) (\<lambda>e. unspent (Some (ce_coins e))) (map_of cs k)) =
     (\<lambda>k. case map_of coins k of None \<Rightarrow> cv_coins (cache_view view c) k
       | Some it \<Rightarrow> if ce_dirty it then unspent (Some (ce_coins it)) else cv_coins (cache_view view c) k)"
    unfolding cache_view_sel
    by (rule batch_loop_overlay [of "cacheCoins c" coins "entry_ok ?v ?h" batch_coins "cv_coins ?v" "\<lambda>e. unspent (Some (ce_coins e))" ce_dirty "\<lambda>e. unspent (Some (ce_coins e))"]; (rule batch_coins_step)?) (use c d in auto)
  obtain as where as: "batch_loop batch_anchors anchors (cacheAnchors c) = Some as" "distinct (map fst as)"
    "\<forall>k e. map_of as k = Some e \<longrightarrow> anchor_ok ?v k e"
    "(\<lambda>k. case_option (cv_anchors ?v k) ae_entered (map_of as k)) =
     (\<lambda>k. case map_of anchors k of None \<Rightarrow> cv_anchors (cache_view view c) k
       | Some it \<Rightarrow> if ae_dirty it then ae_entered it else cv_anchors (cache_view view c) k)"
    unfolding cache_view_sel
    by (rule batch_loop_overlay [of "cacheAnchors c" anchors "anchor_ok ?v" batch_anchors "cv_anchors ?v" "ae_entered" ae_dirty "ae_entered"]; (rule batch_anchors_step)?) (use c d in auto)
  obtain ns where ns: "batch_loop batch_nullifiers nulls (cacheNullifiers c) = Some ns" "distinct (map fst ns)"
    "\<forall>k e. map_of ns k = Some e \<longrightarrow> nullifier_ok ?v k e"
    "(\<lambda>k. case_option (cv_nullifiers ?v k) ne_entered (map_of ns k)) =
     (\<lambda>k. case map_of nulls k of None \<Rightarrow> cv_nullifiers (cache_view view c) k
       | Some it \<Rightarrow> if ne_dirty it then ne_entered it else cv_nullifiers (cache_view view c) k)"
    unfolding cache_view_sel
    by (rule batch_loop_overlay [of "cacheNullifiers c" nulls "nullifier_ok ?v" batch_nullifiers "cv_nullifiers ?v" "ne_entered" ne_dirty "ne_entered"]; (rule batch_nullifiers_step)?) (use c d in auto)
  let ?c' = "c\<lparr>cacheCoins := cs, cacheAnchors := as, cacheNullifiers := ns, hashAnchor := ha, hashBlock := hb\<rparr>"
  have "BatchWrite c coins hb ha anchors nulls = Some (True, ?c')"
    using c cs(1) as(1) ns(1) by (simp add: BatchWrite_def)
  moreover have "cache_good good view held ?c'"
    using c d cs as ns by (simp add: cache_good_def)
  moreover have "cache_view view ?c' = batch_view (cache_view view c) coins hb ha anchors nulls"
    using d cs(4) as(4) ns(4) unfolding batch_view_def by (simp add: cache_view_sel cache_view_def [of view ?c'] Let_def)
  ultimately show ?thesis by blast
qed

theorem cache_fulfils_contract:
  assumes "coins_view ops good view held"
  shows "coins_view (cache_ops ops) (cache_good good view held) (cache_view view) cache_held"
proof
  note L = coins_view.fetch_coins [OF assms] coins_view.cache_get_anchor [OF assms] coins_view.cache_get_nullifier [OF assms]
    coins_view.cache_get_best_block [OF assms] coins_view.cache_get_best_anchor [OF assms]
  fix c assume g: "cache_good good view held c"
  {
    fix k r c' assume "v_GetCoins (cache_ops ops) c k = (r, c')"
    then obtain it where it: "FetchCoins ops c k = (it, c')" "r = map_option ce_coins it"
      by (auto simp: cache_ops_def GetCoins_def split: prod.splits)
    show "only_reads (cache_good good view held) (cache_view view) cache_held c c' \<and> unspent r = cv_coins (cache_view view c) k \<and>
      (\<forall>x. r = Some x \<longrightarrow> valid_coins x \<and> cache_held c' k)"
      using L(1-4) [OF g it(1)] it(2) by (auto simp: cache_held_def)
  next
    fix k b c' assume "v_HaveCoins (cache_ops ops) c k = (b, c')"
    then obtain it where it: "FetchCoins ops c k = (it, c')" "b = (case it of None \<Rightarrow> False | Some e \<Rightarrow> cc_vout (ce_coins e) \<noteq> [])"
      by (auto simp: cache_ops_def HaveCoins_def split: prod.splits)
    show "only_reads (cache_good good view held) (cache_view view) cache_held c c' \<and> b = (cv_coins (cache_view view c) k \<noteq> None)"
      using L(1) [OF g it(1)] L(2) [OF g it(1), symmetric] L(4) [OF g it(1)] it(2)
      by (cases it) (auto simp: IsPruned_valid unspent_def split: if_splits)
  next
    fix rt t c' assume "v_GetAnchorAt (cache_ops ops) c rt = (t, c')"
    then show "only_reads (cache_good good view held) (cache_view view) cache_held c c' \<and>
      (t \<noteq> None) = cv_anchors (cache_view view c) rt \<and> (\<forall>u. t = Some u \<longrightarrow> tree_at rt u)"
      using L(5,6,7) [OF g] by (simp add: cache_ops_def)
  next
    fix nf b c' assume "v_GetNullifier (cache_ops ops) c nf = (b, c')"
    then show "only_reads (cache_good good view held) (cache_view view) cache_held c c' \<and> b = cv_nullifiers (cache_view view c) nf"
      using L(9,10) [OF g] by (simp add: cache_ops_def)
  next
    fix h c' assume "v_GetBestBlock (cache_ops ops) c = (h, c')"
    then show "only_reads (cache_good good view held) (cache_view view) cache_held c c' \<and> h = cv_best_block (cache_view view c) \<and> length h = 32"
      using L(11-13) [OF g] by (simp add: cache_ops_def)
  next
    fix h c' assume "v_GetBestAnchor (cache_ops ops) c = (h, c')"
    then show "only_reads (cache_good good view held) (cache_view view) cache_held c c' \<and> h = cv_best_anchor (cache_view view c) \<and> length h = 32"
      using L(14-16) [OF g] by (simp add: cache_ops_def)
  next
    show "cv_anchors (cache_view view c) ZCTree_empty_root"
      using g coins_view.empty_anchor [OF assms, of "base c"]
      by (cases "map_of (cacheAnchors c) ZCTree_empty_root") (fastforce simp: cache_good_def cache_view_sel anchor_ok_def)+
  next
    fix coins hb ha anchors nulls assume "batch_ok (cache_view view c) (cache_held c) coins hb ha anchors nulls"
    then show "\<exists>c'. v_BatchWrite (cache_ops ops) c coins hb ha anchors nulls = Some (True, c') \<and> cache_good good view held c' \<and>
      cache_view view c' = batch_view (cache_view view c) coins hb ha anchors nulls"
      using cache_batch_write [OF g] by (simp add: cache_ops_def)
  }
qed

section \<open>Changing a cache\<close>

definition view_set_coins :: "uint256 \<Rightarrow> CCoins \<Rightarrow> chain_view \<Rightarrow> chain_view" where
  "view_set_coins k x v = v\<lparr>cv_coins := (cv_coins v)(k := unspent (Some (Cleanup x)))\<rparr>"

lemma cache_new_good:
  "good s \<Longrightarrow> cache_good good view held (CCoinsViewCache_new s)"
  "cache_view view (CCoinsViewCache_new s) = view s"
  by (simp_all add: cache_good_def cache_view_def CCoinsViewCache_new_def uint256_null_def IsNull_def Let_def list_all_iff)

lemma SetNullifier_sets:
  assumes "cache_good good view held c"
  shows "cache_good good view held (SetNullifier c nf b)"
    and "cache_view view (SetNullifier c nf b) = (cache_view view c)\<lparr>cv_nullifiers := (cv_nullifiers (cache_view view c))(nf := b)\<rparr>"
  using cache_put_nullifier [OF assms, of nf "\<lparr>ne_entered = b, ne_dirty = True\<rparr>"]
  by (simp_all add: SetNullifier_def nullifier_ok_def)

lemma SetBestBlock_sets:
  assumes "cache_good good view held c" "length h = 32" "\<not> IsNull h"
  shows "cache_good good view held (SetBestBlock c h)"
    and "cache_view view (SetBestBlock c h) = (cache_view view c)\<lparr>cv_best_block := h\<rparr>"
  using cache_put_block [OF assms(1,2)] assms(3) by (simp_all add: SetBestBlock_def)

lemma map_entry_update: "map_of al k = Some e \<Longrightarrow> AList.map_entry k f al = AList.update k (f e) al"
  by (induction al) (auto split: if_splits)

context coins_view
begin

lemma PushAnchor_pushes:
  assumes g: "cache_good good view held c" and t: "tree_at rt t" "length rt = 32" "\<not> IsNull rt"
  shows "cache_good good view held (PushAnchor ops c t)"
    and "cache_view view (PushAnchor ops c t) = (if cv_best_anchor (cache_view view c) = rt then cache_view view c
      else (cache_view view c)\<lparr>cv_anchors := (cv_anchors (cache_view view c))(rt := True), cv_best_anchor := rt\<rparr>)"
proof -
  obtain h c1 where h: "GetBestAnchor ops c = (h, c1)" by fastforce
  note b = cache_get_best_anchor [OF g h]
  have rt: "ZCTree_root t = rt" using t(1) by (simp add: tree_at_def)
  let ?e = "\<lparr>ae_entered = True, ae_tree = t, ae_dirty = True\<rparr>"
  have c1: "cache_good good view held c1" "cache_view view c1 = cache_view view c" using b(1) by (simp_all add: only_reads_def)
  have e: "anchor_ok (view (base c1)) rt ?e" using t by (simp add: anchor_ok_def)
  note p = cache_put_anchor [OF c1(1) e] and q = cache_put_best_anchor [OF cache_put_anchor(1) [OF c1(1) e] t(2)]
  show "cache_good good view held (PushAnchor ops c t)" using q(1) c1(1) h rt by (simp add: PushAnchor_def)
  show "cache_view view (PushAnchor ops c t) = (if cv_best_anchor (cache_view view c) = rt then cache_view view c
      else (cache_view view c)\<lparr>cv_anchors := (cv_anchors (cache_view view c))(rt := True), cv_best_anchor := rt\<rparr>)"
    using p(2) q(2) c1 h rt b(2) t(3) by (auto simp: PushAnchor_def)
qed

lemma PopAnchor_pops:
  assumes g: "cache_good good view held c" and t: "length rt = 32" "\<not> IsNull rt"
    and a: "cv_anchors (cache_view view c) (cv_best_anchor (cache_view view c))"
    and n: "cv_best_anchor (cache_view view c) \<noteq> ZCTree_empty_root" "cv_best_anchor (cache_view view c) \<noteq> rt"
  obtains c' where "PopAnchor ops c rt = Some c'" "cache_good good view held c'"
    "cache_view view c' = (cache_view view c)\<lparr>cv_anchors :=
       (cv_anchors (cache_view view c))(cv_best_anchor (cache_view view c) := False), cv_best_anchor := rt\<rparr>"
proof -
  obtain h c1 where h: "GetBestAnchor ops c = (h, c1)" by fastforce
  note b = cache_get_best_anchor [OF g h]
  have c1: "cache_good good view held c1" "cache_view view c1 = cache_view view c" using b(1) by (simp_all add: only_reads_def)
  obtain r c2 where r: "GetAnchorAt ops c1 h = (r, c2)" by fastforce
  note d = cache_get_anchor [OF c1(1) r]
  have c2: "cache_good good view held c2" "cache_view view c2 = cache_view view c" using c1 d(1) by (simp_all add: only_reads_def)
  have "r \<noteq> None" using d(2) a b(2) c1(2) by simp
  then obtain e where e: "map_of (cacheAnchors c2) h = Some e" "r = Some (ae_tree e)" using d(4) by auto
  let ?e = "e\<lparr>ae_entered := False, ae_dirty := True\<rparr>"
  have ok: "anchor_ok (view (base c2)) h ?e" using c2(1) e(1) n(1) b(2) by (auto simp: cache_good_def anchor_ok_def)
  have me: "AList.map_entry h (\<lambda>e. e\<lparr>ae_entered := False, ae_dirty := True\<rparr>) (cacheAnchors c2) = AList.update h ?e (cacheAnchors c2)"
    using e(1) by (rule map_entry_update)
  note p = cache_put_anchor [OF c2(1) ok] and q = cache_put_best_anchor [OF cache_put_anchor(1) [OF c2(1) ok] t(1)]
  show ?thesis
    by (rule that [of "c2\<lparr>cacheAnchors := AList.update h ?e (cacheAnchors c2), hashAnchor := rt\<rparr>"])
      (use q p(2) c2 h r e(2) b(2) n(2) t(2) me in \<open>simp_all add: PopAnchor_def\<close>)
qed

end

lemma update_update: "AList.update k v (AList.update k w al) = AList.update k v al"
  by (induction al) auto

lemma with_coins_eq:
  assumes m: "ModifyCoins ops c k = Some (c1\<lparr>hasModifier := True, cacheCoins := AList.update k it (cacheCoins c1)\<rparr>)"
    and h: "\<not> hasModifier c1" "ce_dirty it"
  shows "with_coins ops c k f = (case f (ce_coins it) of None \<Rightarrow> None | Some (r, y) \<Rightarrow>
     Some (r, c1\<lparr>cacheCoins := if ce_fresh it \<and> IsPruned (Cleanup y) then AList.delete k (cacheCoins c1)
       else AList.update k \<lparr>ce_coins = Cleanup y, ce_dirty = True, ce_fresh = ce_fresh it\<rparr> (cacheCoins c1)\<rparr>))"
proof -
  have "it\<lparr>ce_coins := z\<rparr> = \<lparr>ce_coins = z, ce_dirty = True, ce_fresh = ce_fresh it\<rparr>" for z
    using h(2) by (cases it) simp
  moreover have "c1\<lparr>hasModifier := False\<rparr> = c1" using h(1) by (cases c1) simp
  then have "c1\<lparr>hasModifier := False, cacheCoins := z\<rparr> = c1\<lparr>cacheCoins := z\<rparr>" for z by (cases c1) simp
  ultimately show ?thesis
    by (simp add: with_coins_def m CCoinsModifier_end_def AList.update_conv' update_update AList.delete_update_same Let_def
        split: option.splits)
qed

lemma cache_modified:
  assumes g: "cache_good good view held c" and v: "valid_coins (Cleanup y)"
    and f: "if fresh then cv_coins (view (base c)) k = None else held (base c) k"
    and c': "c' = c\<lparr>cacheCoins := if fresh \<and> IsPruned (Cleanup y) then AList.delete k (cacheCoins c)
       else AList.update k \<lparr>ce_coins = Cleanup y, ce_dirty = True, ce_fresh = fresh\<rparr> (cacheCoins c)\<rparr>"
  shows "cache_good good view held c' \<and> cache_view view c' = view_set_coins k y (cache_view view c)"
proof (cases "fresh \<and> IsPruned (Cleanup y)")
  case True
  then show ?thesis using cache_delete_coins [OF g, of k] f c' by (simp add: view_set_coins_def unspent_def)
next
  case False
  then have "entry_ok (view (base c)) (held (base c)) k \<lparr>ce_coins = Cleanup y, ce_dirty = True, ce_fresh = fresh\<rparr>"
    using v f by (auto simp: entry_ok_def)
  then show ?thesis using cache_put_coins [OF g, of k] unfolding c' if_not_P [OF False] by (simp add: view_set_coins_def)
qed

lemma CCoins_empty_valid: "valid_coins CCoins_empty" "IsPruned CCoins_empty"
  by (simp_all add: valid_coins_def CCoins_empty_def clean_outs_def IsPruned_def)

context coins_view
begin

text \<open>The entry a modifier refers to, and the state of the cache without the mark that a modifier is open.\<close>

lemma ModifyCoins_entry:
  assumes g: "cache_good good view held c"
  obtains c1 it where "ModifyCoins ops c k = Some (c1\<lparr>hasModifier := True, cacheCoins := AList.update k it (cacheCoins c1)\<rparr>)"
    "cache_good good view held c1" "cache_view view c1 = cache_view view c" "ce_dirty it" "valid_coins (ce_coins it)"
    "unspent (Some (ce_coins it)) = cv_coins (cache_view view c) k"
    "if ce_fresh it then cv_coins (view (base c1)) k = None else held (base c1) k"
proof (cases "map_of (cacheCoins c) k")
  case (Some it)
  then have "entry_ok (view (base c)) (held (base c)) k it" using g by (simp add: cache_good_def)
  then show ?thesis
    using that [of "it\<lparr>ce_dirty := True\<rparr>" c] g Some
    by (simp add: ModifyCoins_def cache_good_def entry_ok_def cache_view_miss)
next
  case None
  obtain r b where b: "v_GetCoins ops (base c) k = (r, b)" by fastforce
  have l: "only_reads good view held (base c) b" "unspent r = cv_coins (view (base c)) k"
    "\<And>x. r = Some x \<Longrightarrow> valid_coins x \<and> held b k"
    using get_coins [OF _ b] g by (auto simp: cache_good_def)
  have c1: "cache_good good view held (c\<lparr>base := b\<rparr>)" "cache_view view (c\<lparr>base := b\<rparr>) = cache_view view c" "view b = view (base c)"
    using cache_base [OF g l(1)] l(1) by (simp_all add: only_reads_def)
  have h: "\<not> hasModifier c" using g by (simp add: cache_good_def)
  show ?thesis
  proof (cases r)
    case None
    then show ?thesis
      using that [of "\<lparr>ce_coins = CCoins_empty, ce_dirty = True, ce_fresh = True\<rparr>" "c\<lparr>base := b\<rparr>"] c1 b h l(2)
        CCoins_empty_valid \<open>map_of (cacheCoins c) k = None\<close>
      by (simp add: ModifyCoins_def cache_view_miss unspent_def split: if_splits)
  next
    case (Some x)
    then show ?thesis
      using that [of "\<lparr>ce_coins = x, ce_dirty = True, ce_fresh = IsPruned x\<rparr>" "c\<lparr>base := b\<rparr>"] c1 b h l
        \<open>map_of (cacheCoins c) k = None\<close>
      by (simp add: ModifyCoins_def cache_view_miss unspent_def split: if_splits)
  qed
qed

lemma with_coins_changes:
  assumes g: "cache_good good view held c"
  obtains x where "valid_coins x" "unspent (Some x) = cv_coins (cache_view view c) k"
    "\<And>f::CCoins \<Rightarrow> ('r \<times> CCoins) option. f x = None \<Longrightarrow> with_coins ops c k f = None"
    "\<And>(f::CCoins \<Rightarrow> ('r \<times> CCoins) option) r y. f x = Some (r, y) \<Longrightarrow> valid_coins (Cleanup y) \<Longrightarrow>
      \<exists>c'. with_coins ops c k f = Some (r, c') \<and> cache_good good view held c' \<and>
        cache_view view c' = view_set_coins k y (cache_view view c)"
proof -
  obtain c1 it where m: "ModifyCoins ops c k = Some (c1\<lparr>hasModifier := True, cacheCoins := AList.update k it (cacheCoins c1)\<rparr>)"
    and c1: "cache_good good view held c1" "cache_view view c1 = cache_view view c" and d: "ce_dirty it"
    and v: "valid_coins (ce_coins it)" "unspent (Some (ce_coins it)) = cv_coins (cache_view view c) k"
    and f: "if ce_fresh it then cv_coins (view (base c1)) k = None else held (base c1) k"
    by (rule ModifyCoins_entry [OF g])
  have h: "\<not> hasModifier c1" using c1(1) by (simp add: cache_good_def)
  show ?thesis
  proof (rule that [OF v])
    fix f :: "CCoins \<Rightarrow> ('r \<times> CCoins) option"
    show "f (ce_coins it) = None \<Longrightarrow> with_coins ops c k f = None" by (simp add: with_coins_eq [OF m h d])
  next
    fix f :: "CCoins \<Rightarrow> ('r \<times> CCoins) option" and r y
    assume y: "f (ce_coins it) = Some (r, y)" "valid_coins (Cleanup y)"
    show "\<exists>c'. with_coins ops c k f = Some (r, c') \<and> cache_good good view held c' \<and>
        cache_view view c' = view_set_coins k y (cache_view view c)"
      using cache_modified [OF c1(1) y(2) f refl] c1(2) y(1) by (simp add: with_coins_eq [OF m h d])
  qed
qed

end

lemma batch_of_cache:
  assumes g: "cache_good good view held c" and n: "\<not> IsNull (hashBlock c)" "\<not> IsNull (hashAnchor c)"
  shows "batch_ok (view (base c)) (held (base c)) (cacheCoins c) (hashBlock c) (hashAnchor c) (cacheAnchors c) (cacheNullifiers c)"
    and "batch_view (view (base c)) (cacheCoins c) (hashBlock c) (hashAnchor c) (cacheAnchors c) (cacheNullifiers c) = cache_view view c"
proof -
  show "batch_ok (view (base c)) (held (base c)) (cacheCoins c) (hashBlock c) (hashAnchor c) (cacheAnchors c) (cacheNullifiers c)"
  proof -
    have "tree_at k (ae_tree e) \<and> (ae_entered e \<or> k \<noteq> ZCTree_empty_root)" if "map_of (cacheAnchors c) k = Some e" for k e
      using g that unfolding cache_good_def anchor_ok_def by blast
    moreover have "valid_coins (ce_coins e) \<and> (if ce_fresh e then \<not> IsPruned (ce_coins e) \<and> cv_coins (view (base c)) k = None
        else held (base c) k)" if "map_of (cacheCoins c) k = Some e" "ce_dirty e" for k e
      using g that by (simp add: cache_good_def entry_ok_def)
    ultimately show ?thesis using g n by (simp add: cache_good_def batch_ok_def)
  qed
  have e: "(case map_of (cacheCoins c) k of None \<Rightarrow> cv_coins (view (base c)) k
      | Some e \<Rightarrow> if ce_dirty e then unspent (Some (ce_coins e)) else cv_coins (view (base c)) k) = cv_coins (cache_view view c) k" for k
    using g by (cases "map_of (cacheCoins c) k") (auto simp: cache_good_def entry_ok_def cache_view_sel)
  have a: "(case map_of (cacheAnchors c) k of None \<Rightarrow> cv_anchors (view (base c)) k
      | Some e \<Rightarrow> if ae_dirty e then ae_entered e else cv_anchors (view (base c)) k) = cv_anchors (cache_view view c) k" for k
    using g by (cases "map_of (cacheAnchors c) k") (auto simp: cache_good_def anchor_ok_def cache_view_sel)
  have u: "(case map_of (cacheNullifiers c) k of None \<Rightarrow> cv_nullifiers (view (base c)) k
      | Some e \<Rightarrow> if ne_dirty e then ne_entered e else cv_nullifiers (view (base c)) k) = cv_nullifiers (cache_view view c) k" for k
    using g by (cases "map_of (cacheNullifiers c) k") (auto simp: cache_good_def nullifier_ok_def cache_view_sel)
  show "batch_view (view (base c)) (cacheCoins c) (hashBlock c) (hashAnchor c) (cacheAnchors c) (cacheNullifiers c) = cache_view view c"
    unfolding batch_view_def e a u using n by (intro chain_view.equality) (simp_all add: cache_view_def Let_def)
qed

context coins_view
begin

lemma Flush_flushes:
  assumes g: "cache_good good view held c" and n: "\<not> IsNull (hashBlock c)" "\<not> IsNull (hashAnchor c)"
  obtains c' where "Flush ops c = Some (True, c')" "cache_good good view held c'" "cache_view view c' = cache_view view c"
    "good (base c')" "view (base c') = cache_view view c"
proof -
  have "good (base c)" using g by (simp add: cache_good_def)
  from batch_write [OF this batch_of_cache(1) [OF g n]] obtain b where
    b: "v_BatchWrite ops (base c) (cacheCoins c) (hashBlock c) (hashAnchor c) (cacheAnchors c) (cacheNullifiers c) = Some (True, b)"
      "good b" "view b = cache_view view c"
    using batch_of_cache(2) [OF g n] by auto
  show ?thesis
    by (rule that [of "c\<lparr>base := b, cacheCoins := [], cacheAnchors := [], cacheNullifiers := []\<rparr>"])
      (use b g n in \<open>simp_all add: Flush_def cache_good_def cache_view_def Let_def\<close>)
qed

end

section \<open>The database fulfils the contract\<close>

lemma ZCTree_new: "tree_at ZCTree_empty_root tree_new"
  using tree_root_rep [OF tree_rep_new, of INCREMENTAL_MERKLE_TREE_DEPTH SHA256Compress_combine uint256_null]
  by (simp add: tree_at_def ZCTree_root_def ZCTree_empty_root_def tree_new_def valid_tree_def INCREMENTAL_MERKLE_TREE_DEPTH_def
      valid_optional_def valid_vector_def wfcheck_def)

lemma WriteBatch_append [simp]: "WriteBatch db (xs @ ys) = WriteBatch (WriteBatch db xs) ys"
  by (simp add: WriteBatch_def)

lemma WriteBatch_simps [simp]: "WriteBatch db [] = db" "WriteBatch db ((k, v) # ws) = WriteBatch (db(k := v)) ws"
  by (simp_all add: WriteBatch_def)

text \<open>Writing at most one value for every entry of a map.\<close>

definition batch_puts :: "('k \<Rightarrow> bytes) \<Rightarrow> ('k \<Rightarrow> 'e \<Rightarrow> bytes option option) \<Rightarrow> ('k \<times> 'e) list \<Rightarrow> CLevelDBBatch" where
  "batch_puts key w m = concat (map (\<lambda>(k, e). case w k e of None \<Rightarrow> [] | Some v \<Rightarrow> [(key k, v)]) m)"

lemma WriteBatch_puts_other:
  "(\<And>k. x \<noteq> key k) \<Longrightarrow> WriteBatch db (batch_puts key w m) x = db x"
  by (induction m arbitrary: db) (auto simp: batch_puts_def split: option.splits)

lemma WriteBatch_puts:
  assumes "distinct (map fst m)" "inj key"
  shows "WriteBatch db (batch_puts key w m) (key k) =
    (case map_of m k of None \<Rightarrow> db (key k) | Some e \<Rightarrow> (case w k e of None \<Rightarrow> db (key k) | Some v \<Rightarrow> v))"
  using assms(1)
proof (induction m arbitrary: db)
  case (Cons p m)
  obtain j e where p: "p = (j, e)" by fastforce
  have j: "map_of m j = None" using Cons.prems p by (simp add: map_of_eq_None_iff)
  have k: "key k = key j \<longleftrightarrow> k = j" using assms(2) by (auto dest: injD)
  have "batch_puts key w (p # m) = (case w j e of None \<Rightarrow> [] | Some v \<Rightarrow> [(key j, v)]) @ batch_puts key w m"
    by (simp add: batch_puts_def p)
  then show ?case using Cons j k p by (auto split: option.splits)
qed (simp add: batch_puts_def)

lemma BatchWrite_puts:
  "concat (map (\<lambda>(rt, e). if ae_dirty e then BatchWriteAnchor rt (ae_tree e) (ae_entered e) else []) anchors) =
   batch_puts (db_key DB_ANCHOR) (\<lambda>rt e. if ae_dirty e then Some (if ae_entered e then Some (put_tree (ae_tree e)) else None) else None) anchors"
  "concat (map (\<lambda>(nf, e). if ne_dirty e then BatchWriteNullifier nf (ne_entered e) else []) nulls) =
   batch_puts (db_key DB_NULLIFIER) (\<lambda>nf e. if ne_dirty e then Some (if ne_entered e then Some (ser_writedata8 1) else None) else None) nulls"
  unfolding batch_puts_def
  by (rule arg_cong [of _ _ concat], rule map_cong, simp, auto simp: BatchWriteAnchor_def BatchWriteNullifier_def)+

lemma batch_of_coins_puts:
  assumes "\<And>k e. (k, e) \<in> set m \<Longrightarrow> ce_dirty e \<Longrightarrow> \<not> IsPruned (ce_coins e) \<Longrightarrow> put_CCoins secp (ce_coins e) \<noteq> None"
  shows "batch_of_coins secp m = Some (batch_puts (db_key DB_COINS) (\<lambda>k e. if ce_dirty e then
    Some (if IsPruned (ce_coins e) then None else put_CCoins secp (ce_coins e)) else None) m)"
  using assms
proof (induction m)
  case (Cons p m)
  obtain k e where p: "p = (k, e)" by fastforce
  have "put_CCoins secp (ce_coins e) \<noteq> None" if "ce_dirty e" "\<not> IsPruned (ce_coins e)"
    using Cons.prems [of k e] that p by simp
  moreover have "batch_of_coins secp m = Some (batch_puts (db_key DB_COINS) (\<lambda>k e. if ce_dirty e then
    Some (if IsPruned (ce_coins e) then None else put_CCoins secp (ce_coins e)) else None) m)"
    using Cons.prems by (intro Cons.IH) auto
  ultimately show ?case by (auto simp: p batch_puts_def BatchWriteCoins_def)
qed (simp add: batch_puts_def)

definition db_view :: "('pk, 'sig) secp256k1 \<Rightarrow> leveldb \<Rightarrow> chain_view" where
  "db_view secp db =
     \<lparr>cv_coins = (\<lambda>k. db_Read db (db_key DB_COINS k) (get_CCoins secp)),
      cv_anchors = (\<lambda>rt. rt = ZCTree_empty_root \<or> db (db_key DB_ANCHOR rt) \<noteq> None),
      cv_nullifiers = (\<lambda>nf. db (db_key DB_NULLIFIER nf) \<noteq> None),
      cv_best_block = fst (db_GetBestBlock db), cv_best_anchor = fst (db_GetBestAnchor db)\<rparr>"

text \<open>Every value of the database is what \<open>BatchWrite\<close> writes under its key.\<close>

definition db_good :: "('pk, 'sig) secp256k1 \<Rightarrow> leveldb \<Rightarrow> bool" where
  "db_good secp db \<longleftrightarrow>
     (\<forall>k b. db (db_key DB_COINS k) = Some b \<longrightarrow>
        (\<exists>coins. valid_coins coins \<and> \<not> IsPruned coins \<and> put_CCoins secp coins = Some b)) \<and>
     (\<forall>rt b. db (db_key DB_ANCHOR rt) = Some b \<longrightarrow> (\<exists>t. tree_at rt t \<and> b = put_tree t)) \<and>
     (\<forall>nf b. db (db_key DB_NULLIFIER nf) = Some b \<longrightarrow> b = ser_writedata8 1) \<and>
     (\<forall>b. db (ser_writedata8 DB_BEST_BLOCK) = Some b \<longrightarrow> length b = 32) \<and>
     (\<forall>b. db (ser_writedata8 DB_BEST_ANCHOR) = Some b \<longrightarrow> length b = 32)"

lemmas db_key_defs = db_key_def ser_writedata8_def put_blob_def DB_ANCHOR_def DB_NULLIFIER_def DB_COINS_def
  DB_BEST_BLOCK_def DB_BEST_ANCHOR_def

lemma db_key_inject [simp]: "db_key p j = db_key p k \<longleftrightarrow> j = k"
  by (simp add: db_key_def ser_writedata8_def put_blob_def)

lemma inj_db_key [simp]: "inj (db_key p)"
  by (simp add: inj_def)

lemma db_key_distinct:
  "db_key DB_COINS k \<noteq> db_key DB_ANCHOR j" "db_key DB_COINS k \<noteq> db_key DB_NULLIFIER j" "db_key DB_ANCHOR k \<noteq> db_key DB_NULLIFIER j"
  "db_key DB_COINS k \<noteq> ser_writedata8 DB_BEST_BLOCK" "db_key DB_COINS k \<noteq> ser_writedata8 DB_BEST_ANCHOR"
  "db_key DB_ANCHOR k \<noteq> ser_writedata8 DB_BEST_BLOCK" "db_key DB_ANCHOR k \<noteq> ser_writedata8 DB_BEST_ANCHOR"
  "db_key DB_NULLIFIER k \<noteq> ser_writedata8 DB_BEST_BLOCK" "db_key DB_NULLIFIER k \<noteq> ser_writedata8 DB_BEST_ANCHOR"
  "ser_writedata8 DB_BEST_BLOCK \<noteq> ser_writedata8 DB_BEST_ANCHOR"
  by (simp_all add: db_key_defs)

lemma db_Read_coins:
  assumes "secp_decompresses secp" "db_good secp db"
  shows "db_Read db (db_key DB_COINS k) (get_CCoins secp) = r \<Longrightarrow> unspent r = r \<and> (\<forall>c. r = Some c \<longrightarrow> valid_coins c)"
    and "db_Read db (db_key DB_COINS k) (get_CCoins secp) = None \<longleftrightarrow> db (db_key DB_COINS k) = None"
proof -
  have "\<exists>coins. db_Read db (db_key DB_COINS k) (get_CCoins secp) = Some coins \<and> valid_coins coins \<and> \<not> IsPruned coins"
    if b: "db (db_key DB_COINS k) = Some b" for b
  proof -
    obtain coins where c: "valid_coins coins" "\<not> IsPruned coins" "put_CCoins secp coins = Some b"
      using assms(2) b unfolding db_good_def by blast
    then have "get_CCoins secp (b @ []) = Some (coins, [])" using CCoins_roundtrip [OF assms(1) c(1,2)] by (metis option.inject)
    then show ?thesis using c that by (simp add: db_Read_def)
  qed
  then show "db_Read db (db_key DB_COINS k) (get_CCoins secp) = r \<Longrightarrow> unspent r = r \<and> (\<forall>c. r = Some c \<longrightarrow> valid_coins c)"
    and "db_Read db (db_key DB_COINS k) (get_CCoins secp) = None \<longleftrightarrow> db (db_key DB_COINS k) = None"
    by (cases "db (db_key DB_COINS k)"; auto simp: db_Read_def unspent_def)+
qed

lemma db_GetAnchorAt_reads:
  assumes "db_good secp db"
  shows "snd (db_GetAnchorAt db rt) = db" "(fst (db_GetAnchorAt db rt) \<noteq> None) = cv_anchors (db_view secp db) rt"
    "fst (db_GetAnchorAt db rt) = Some u \<Longrightarrow> tree_at rt u"
proof -
  have r: "\<exists>t. db_Read db (db_key DB_ANCHOR rt) (get_tree INCREMENTAL_MERKLE_TREE_DEPTH) = Some t \<and> tree_at rt t"
    if b: "db (db_key DB_ANCHOR rt) = Some b" for b
  proof -
    obtain t where t: "tree_at rt t" "b = put_tree t" using assms b unfolding db_good_def by blast
    then have "get_tree INCREMENTAL_MERKLE_TREE_DEPTH (b @ []) = Some (t, [])"
      by (simp only: t(2)) (rule ctree.get_put, simp add: tree_at_def)
    then show ?thesis using t that by (simp add: db_Read_def)
  qed
  show "snd (db_GetAnchorAt db rt) = db" by (simp add: db_GetAnchorAt_def)
  show "(fst (db_GetAnchorAt db rt) \<noteq> None) = cv_anchors (db_view secp db) rt"
    using r by (cases "db (db_key DB_ANCHOR rt)") (auto simp: db_GetAnchorAt_def db_view_def db_Read_def)
  show "fst (db_GetAnchorAt db rt) = Some u \<Longrightarrow> tree_at rt u"
    using r ZCTree_new by (cases "db (db_key DB_ANCHOR rt)") (auto simp: db_GetAnchorAt_def db_Read_def split: if_splits)
qed

lemma length_SHA256Compress_combine: "length (SHA256Compress_combine a b) = 32"
proof -
  let ?h = "CSHA256_Write (CSHA256_Write CSHA256_new a) b"
  have "h256.rep ?h (a @ b)"
    using h256.rep_Writes [OF hashers_new(1), of "[a, b]"] by (simp add: CSHA256_Write_def)
  then have "hs_s ?h = foldl sha256_Transform sha256_Initialize (blocks 64 (a @ b))" by (simp add: h256.rep_def)
  moreover have "length (foldl sha256_Transform sha256_Initialize bs) = 8" for bs
    by (rule foldl_length) (simp_all add: sha256_Transform_def length_rounds sha256_Initialize_def)
  ultimately show ?thesis
    by (simp add: SHA256Compress_combine_def CSHA256_FinalizeNoPadding_def length_concat_const [where k = 4] uint256_null_def)
qed

lemma ZCTree_empty_root_length: "length ZCTree_empty_root = 32"
proof -
  have "INCREMENTAL_MERKLE_TREE_DEPTH = Suc 28" by (simp add: INCREMENTAL_MERKLE_TREE_DEPTH_def)
  then show ?thesis unfolding ZCTree_empty_root_def by (metis empty_root.simps(2) length_SHA256Compress_combine)
qed

lemma db_best_reads:
  assumes "db_good secp db"
  shows "length (fst (db_GetBestBlock db)) = 32" "length (fst (db_GetBestAnchor db)) = 32"
  using assms by (auto simp: db_good_def db_GetBestBlock_def db_GetBestAnchor_def db_Read_def stream_read_def uint256_null_def
      ZCTree_empty_root_length split: option.splits)

text \<open>Every key of the database after a batch.\<close>

lemma db_BatchWrite_result:
  assumes secp: "secp_decompresses secp" and b: "batch_ok v held coins hb ha anchors nulls"
  obtains db' where "db_BatchWrite secp db coins hb ha anchors nulls = Some (True, db')"
    "\<And>k. db' (db_key DB_COINS k) = (case map_of coins k of None \<Rightarrow> db (db_key DB_COINS k)
       | Some e \<Rightarrow> if ce_dirty e then (if IsPruned (ce_coins e) then None else put_CCoins secp (ce_coins e)) else db (db_key DB_COINS k))"
    "\<And>k. db' (db_key DB_ANCHOR k) = (case map_of anchors k of None \<Rightarrow> db (db_key DB_ANCHOR k)
       | Some e \<Rightarrow> if ae_dirty e then (if ae_entered e then Some (put_tree (ae_tree e)) else None) else db (db_key DB_ANCHOR k))"
    "\<And>k. db' (db_key DB_NULLIFIER k) = (case map_of nulls k of None \<Rightarrow> db (db_key DB_NULLIFIER k)
       | Some e \<Rightarrow> if ne_dirty e then (if ne_entered e then Some (ser_writedata8 1) else None) else db (db_key DB_NULLIFIER k))"
    "db' (ser_writedata8 DB_BEST_BLOCK) = Some hb" "db' (ser_writedata8 DB_BEST_ANCHOR) = Some ha"
proof -
  note b' = b [unfolded batch_ok_def]
  have "put_CCoins secp (ce_coins e) \<noteq> None" if "(k, e) \<in> set coins" "ce_dirty e" "\<not> IsPruned (ce_coins e)" for k e
  proof -
    have "map_of coins k = Some e" using b' that(1) by simp
    then have "valid_coins (ce_coins e)" using b' that(2) by blast
    then show ?thesis using CCoins_roundtrip [OF secp _ that(3)] by auto
  qed
  note c = batch_of_coins_puts [OF this, of coins]
  have n: "\<not> IsNull hb" "\<not> IsNull ha" using b' by auto
  note other = WriteBatch_puts_other [where key = "db_key DB_COINS"] WriteBatch_puts_other [where key = "db_key DB_ANCHOR"]
    WriteBatch_puts_other [where key = "db_key DB_NULLIFIER"] db_key_distinct db_key_distinct [symmetric]
  note puts = WriteBatch_puts [where key = "db_key DB_COINS"] WriteBatch_puts [where key = "db_key DB_ANCHOR"]
    WriteBatch_puts [where key = "db_key DB_NULLIFIER"]
  show ?thesis
    by (rule that, simp only: db_BatchWrite_def c BatchWrite_puts bind.bind_lunit Let_def n not_False_eq_True if_True)
      (use b' in \<open>auto simp: other puts put_blob_def split: option.splits\<close>)
qed

lemma db_batch_write:
  assumes secp: "secp_decompresses secp" and g: "db_good secp db" and b: "batch_ok (db_view secp db) held coins hb ha anchors nulls"
  shows "\<exists>db'. db_BatchWrite secp db coins hb ha anchors nulls = Some (True, db') \<and> db_good secp db' \<and>
    db_view secp db' = batch_view (db_view secp db) coins hb ha anchors nulls"
proof -
  obtain db' where r: "db_BatchWrite secp db coins hb ha anchors nulls = Some (True, db')"
    and c: "\<And>k. db' (db_key DB_COINS k) = (case map_of coins k of None \<Rightarrow> db (db_key DB_COINS k)
       | Some e \<Rightarrow> if ce_dirty e then (if IsPruned (ce_coins e) then None else put_CCoins secp (ce_coins e)) else db (db_key DB_COINS k))"
    and a: "\<And>k. db' (db_key DB_ANCHOR k) = (case map_of anchors k of None \<Rightarrow> db (db_key DB_ANCHOR k)
       | Some e \<Rightarrow> if ae_dirty e then (if ae_entered e then Some (put_tree (ae_tree e)) else None) else db (db_key DB_ANCHOR k))"
    and n: "\<And>k. db' (db_key DB_NULLIFIER k) = (case map_of nulls k of None \<Rightarrow> db (db_key DB_NULLIFIER k)
       | Some e \<Rightarrow> if ne_dirty e then (if ne_entered e then Some (ser_writedata8 1) else None) else db (db_key DB_NULLIFIER k))"
    and h: "db' (ser_writedata8 DB_BEST_BLOCK) = Some hb" "db' (ser_writedata8 DB_BEST_ANCHOR) = Some ha"
    by (rule db_BatchWrite_result [OF secp b, of db]) (rule that)
  have w: "valid_coins (ce_coins e)" if "map_of coins k = Some e" "ce_dirty e" for k e
    using b that unfolding batch_ok_def by blast
  have u: "tree_at k (ae_tree e) \<and> (ae_entered e \<or> k \<noteq> ZCTree_empty_root)" if "map_of anchors k = Some e" for k e
    using b that unfolding batch_ok_def by blast
  have l: "length hb = 32" "length ha = 32" using b by (auto simp: batch_ok_def)
  have gc: "\<exists>coins. valid_coins coins \<and> \<not> IsPruned coins \<and> put_CCoins secp coins = Some v" if v: "db' (db_key DB_COINS k) = Some v" for k v
    using g v c [of k] w [of k] unfolding db_good_def by (auto split: option.splits if_splits)
  have ga: "\<exists>t. tree_at k t \<and> v = put_tree t" if v: "db' (db_key DB_ANCHOR k) = Some v" for k v
    using g v a [of k] u [of k] unfolding db_good_def by (auto split: option.splits if_splits)
  have gn: "v = ser_writedata8 1" if v: "db' (db_key DB_NULLIFIER k) = Some v" for k v
    using g v n [of k] unfolding db_good_def by (auto split: option.splits if_splits)
  have good: "db_good secp db'" unfolding db_good_def using gc ga gn h l by simp
  have rc: "db_Read db' (db_key DB_COINS k) (get_CCoins secp) = cv_coins (batch_view (db_view secp db) coins hb ha anchors nulls) k" for k
  proof (cases "map_of coins k")
    case None
    then show ?thesis using c [of k] by (simp add: batch_view_def db_view_def db_Read_def)
  next
    case (Some e)
    have "get_CCoins secp v = Some (ce_coins e, [])" if "ce_dirty e" "\<not> IsPruned (ce_coins e)" "put_CCoins secp (ce_coins e) = Some v" for v
      using CCoins_roundtrip [OF secp w [OF Some that(1)] that(2)] that(3) by (metis append_Nil2 option.inject)
    moreover have "put_CCoins secp (ce_coins e) \<noteq> None" if "ce_dirty e" "\<not> IsPruned (ce_coins e)"
      using CCoins_roundtrip [OF secp w [OF Some that(1)] that(2)] by auto
    ultimately show ?thesis using c [of k] Some
      by (auto simp: batch_view_def db_view_def db_Read_def unspent_def)
  qed
  have "db_view secp db' = batch_view (db_view secp db) coins hb ha anchors nulls"
  proof (rule chain_view.equality)
    show "cv_coins (db_view secp db') = cv_coins (batch_view (db_view secp db) coins hb ha anchors nulls)"
      using rc by (auto simp: db_view_def)
    show "cv_anchors (db_view secp db') = cv_anchors (batch_view (db_view secp db) coins hb ha anchors nulls)"
    proof
      fix k
      show "cv_anchors (db_view secp db') k = cv_anchors (batch_view (db_view secp db) coins hb ha anchors nulls) k"
        using a [of k] u [of k] by (cases "map_of anchors k") (auto simp: db_view_def batch_view_def)
    qed
    show "cv_nullifiers (db_view secp db') = cv_nullifiers (batch_view (db_view secp db) coins hb ha anchors nulls)"
      using n by (auto simp: db_view_def batch_view_def split: option.splits)
  qed (use h l in \<open>simp_all add: db_view_def batch_view_def db_GetBestBlock_def db_GetBestAnchor_def db_Read_def stream_read_def\<close>)
  then show ?thesis using r good by blast
qed

theorem db_fulfils_contract:
  assumes "secp_decompresses secp"
  shows "coins_view (db_ops secp) (db_good secp) (db_view secp) (\<lambda>_ _. True)"
proof
  fix db assume g: "db_good secp db"
  have nf: "v = [1]" if "db (db_key DB_NULLIFIER nf) = Some v" for nf v
    using g that by (simp add: db_good_def ser_writedata8_def)
  {
    fix k r db' assume "v_GetCoins (db_ops secp) db k = (r, db')"
    then show "only_reads (db_good secp) (db_view secp) (\<lambda>_ _. True) db db' \<and> unspent r = cv_coins (db_view secp db) k \<and>
      (\<forall>c. r = Some c \<longrightarrow> valid_coins c \<and> True)"
      using g db_Read_coins(1) [OF assms g, of k r] by (auto simp: db_ops_def db_GetCoins_def db_view_def)
  next
    fix k r db' assume "v_HaveCoins (db_ops secp) db k = (r, db')"
    then show "only_reads (db_good secp) (db_view secp) (\<lambda>_ _. True) db db' \<and> r = (cv_coins (db_view secp db) k \<noteq> None)"
      using g db_Read_coins(2) [OF assms g, of k] by (auto simp: db_ops_def db_HaveCoins_def db_Exists_def db_view_def)
  next
    fix rt t db' assume "v_GetAnchorAt (db_ops secp) db rt = (t, db')"
    then show "only_reads (db_good secp) (db_view secp) (\<lambda>_ _. True) db db' \<and> (t \<noteq> None) = cv_anchors (db_view secp db) rt \<and>
      (\<forall>u. t = Some u \<longrightarrow> tree_at rt u)"
      using g db_GetAnchorAt_reads [OF g, of rt] by (auto simp: db_ops_def)
  next
    fix nf r db' assume "v_GetNullifier (db_ops secp) db nf = (r, db')"
    then show "only_reads (db_good secp) (db_view secp) (\<lambda>_ _. True) db db' \<and> r = cv_nullifiers (db_view secp db) nf"
      using g nf [of nf] by (cases "db (db_key DB_NULLIFIER nf)")
        (auto simp: db_ops_def db_GetNullifier_def db_view_def db_Read_def ser_readdata8_def stream_read_def)
  next
    fix h db' assume "v_GetBestBlock (db_ops secp) db = (h, db')"
    then show "only_reads (db_good secp) (db_view secp) (\<lambda>_ _. True) db db' \<and> h = cv_best_block (db_view secp db) \<and> length h = 32"
      using g db_best_reads(1) [OF g] by (auto simp: db_ops_def db_view_def db_GetBestBlock_def)
  next
    fix h db' assume "v_GetBestAnchor (db_ops secp) db = (h, db')"
    then show "only_reads (db_good secp) (db_view secp) (\<lambda>_ _. True) db db' \<and> h = cv_best_anchor (db_view secp db) \<and> length h = 32"
      using g db_best_reads(2) [OF g] by (auto simp: db_ops_def db_view_def db_GetBestAnchor_def)
  next
    show "cv_anchors (db_view secp db) ZCTree_empty_root" by (simp add: db_view_def)
  next
    fix coins hb ha anchors nulls assume "batch_ok (db_view secp db) (\<lambda>_. True) coins hb ha anchors nulls"
    then show "\<exists>db'. v_BatchWrite (db_ops secp) db coins hb ha anchors nulls = Some (True, db') \<and> db_good secp db' \<and>
      db_view secp db' = batch_view (db_view secp db) coins hb ha anchors nulls"
      using db_batch_write [OF assms g] by (simp add: db_ops_def)
  }
qed

section \<open>The stack of views\<close>

text \<open>
  The node keeps a cache on top of the database (\<open>pcoinsTip\<close>) and connects every block in a cache on top of
  that one. Both fulfil the contract, for every curve whose serialized points can be read back.
\<close>

abbreviation "tip_ops secp \<equiv> cache_ops (db_ops secp)"
abbreviation "tip_good secp \<equiv> cache_good (db_good secp) (db_view secp) (\<lambda>_ _. True)"
abbreviation "tip_view secp \<equiv> cache_view (db_view secp)"
abbreviation "block_good secp \<equiv> cache_good (tip_good secp) (tip_view secp) cache_held"
abbreviation "block_view secp \<equiv> cache_view (tip_view secp)"

locale curve =
  fixes secp :: "('pk, 'sig) secp256k1"
  assumes decompresses: "secp_decompresses secp"

sublocale curve \<subseteq> db: coins_view "db_ops secp" "db_good secp" "db_view secp" "\<lambda>_ _. True"
  by (rule db_fulfils_contract [OF decompresses])

sublocale curve \<subseteq> tip: coins_view "tip_ops secp" "tip_good secp" "tip_view secp" cache_held
  by (rule cache_fulfils_contract [OF db.coins_view_axioms])

interpretation sample: curve sample_secp
  by unfold_locales (rule sample_secp_decompresses)

datatype view_update = SetCoins uint256 CCoins | Nullify uint256 bool | PushTree ZCIncrementalMerkleTree

fun run_update :: "'s CCoinsView \<Rightarrow> view_update \<Rightarrow> 's CCoinsViewCache \<Rightarrow> 's CCoinsViewCache option" where
  "run_update ops (SetCoins k x) c = map_option snd (with_coins ops c k (\<lambda>_. Some ((), x)))"
| "run_update ops (Nullify nf b) c = Some (SetNullifier c nf b)"
| "run_update ops (PushTree t) c = Some (PushAnchor ops c t)"

fun run_updates :: "'s CCoinsView \<Rightarrow> view_update list \<Rightarrow> 's CCoinsViewCache \<Rightarrow> 's CCoinsViewCache option" where
  "run_updates ops [] c = Some c"
| "run_updates ops (u # us) c = do { c \<leftarrow> run_update ops u c; run_updates ops us c }"

fun update_view :: "view_update \<Rightarrow> chain_view \<Rightarrow> chain_view" where
  "update_view (SetCoins k x) v = view_set_coins k x v"
| "update_view (Nullify nf b) v = v\<lparr>cv_nullifiers := (cv_nullifiers v)(nf := b)\<rparr>"
| "update_view (PushTree t) v = (if cv_best_anchor v = ZCTree_root t then v
     else v\<lparr>cv_anchors := (cv_anchors v)(ZCTree_root t := True), cv_best_anchor := ZCTree_root t\<rparr>)"

fun update_ok :: "view_update \<Rightarrow> bool" where
  "update_ok (SetCoins k x) = valid_coins (Cleanup x)"
| "update_ok (Nullify nf b) = True"
| "update_ok (PushTree t) = (valid_tree INCREMENTAL_MERKLE_TREE_DEPTH t \<and> length (ZCTree_root t) = 32 \<and> \<not> IsNull (ZCTree_root t))"

text \<open>
  A round of the node: change a fresh block cache, look up its best anchor and set its best block, and
  flush both caches.
\<close>

definition flush_round :: "('pk, 'sig) secp256k1 \<Rightarrow> view_update list \<Rightarrow> uint256 \<Rightarrow>
    leveldb CCoinsViewCache \<Rightarrow> leveldb CCoinsViewCache option" where
  "flush_round secp us h tip = do {
     c \<leftarrow> run_updates (tip_ops secp) us (CCoinsViewCache_new tip);
     let (_, c) = GetBestAnchor (tip_ops secp) c;
     (_, c) \<leftarrow> Flush (tip_ops secp) (SetBestBlock c h);
     (_, tip) \<leftarrow> Flush (db_ops secp) (base c);
     Some tip }"

lemma GetBestAnchor_hash: "GetBestAnchor ops c = (a, c') \<Longrightarrow> hashAnchor c' = a"
  by (auto simp: GetBestAnchor_def split: prod.splits if_splits)

lemma Flush_base_hash:
  assumes "Flush (cache_ops ops) c = Some (True, c')"
  shows "hashBlock (base c') = hashBlock c" "hashAnchor (base c') = hashAnchor c"
  using assms by (cases c; auto simp: Flush_def cache_ops_def BatchWrite_def split: Option.bind_splits if_splits)+

context coins_view
begin

lemma run_update_refines:
  assumes g: "cache_good good view held c" and u: "update_ok u"
  shows "\<exists>c'. run_update ops u c = Some c' \<and> cache_good good view held c' \<and> cache_view view c' = update_view u (cache_view view c)"
proof (cases u)
  case (SetCoins k x)
  then have x: "valid_coins (Cleanup x)" using u by simp
  show ?thesis
  proof (rule with_coins_changes [OF g, of k])
    fix x0 assume "\<And>(f::CCoins \<Rightarrow> (unit \<times> CCoins) option) r y. f x0 = Some (r, y) \<Longrightarrow> valid_coins (Cleanup y) \<Longrightarrow>
      \<exists>c'. with_coins ops c k f = Some (r, c') \<and> cache_good good view held c' \<and>
        cache_view view c' = view_set_coins k y (cache_view view c)"
    from this [of "\<lambda>_. Some ((), x)" "()" x] show ?thesis using x SetCoins by auto
  qed
next
  case (PushTree t)
  then show ?thesis using PushAnchor_pushes [OF g, of "ZCTree_root t" t] u by (simp add: tree_at_def)
qed (use SetNullifier_sets [OF g] in simp)

lemma run_updates_refine:
  "cache_good good view held c \<Longrightarrow> list_all update_ok us \<Longrightarrow>
   \<exists>c'. run_updates ops us c = Some c' \<and> cache_good good view held c' \<and> cache_view view c' = fold update_view us (cache_view view c)"
proof (induction us arbitrary: c)
  case (Cons u us)
  then show ?case using run_update_refines [OF Cons.prems(1), of u] by fastforce
qed simp

end

context curve
begin

lemma flush_round_refines:
  assumes g: "tip_good secp tip" and u: "list_all update_ok us" and h: "length h = 32" "\<not> IsNull h"
    and a: "\<not> IsNull (cv_best_anchor (fold update_view us (tip_view secp tip)))"
  shows "\<exists>tip'. flush_round secp us h tip = Some tip' \<and> tip_good secp tip' \<and> tip_view secp tip' = db_view secp (base tip') \<and>
    db_view secp (base tip') = (fold update_view us (tip_view secp tip))\<lparr>cv_best_block := h\<rparr>"
proof -
  let ?v = "fold update_view us (tip_view secp tip)"
  note new = cache_new_good [where s = tip and view = "tip_view secp"]
  obtain c1 where c1: "run_updates (tip_ops secp) us (CCoinsViewCache_new tip) = Some c1" "block_good secp c1" "block_view secp c1 = ?v"
    using tip.run_updates_refine [OF new(1) [of "tip_good secp", OF g] u] new(2) by auto
  obtain b c2 where c2: "GetBestAnchor (tip_ops secp) c1 = (b, c2)" by fastforce
  note c2' = tip.cache_get_best_anchor [OF c1(2) c2]
  have g2: "block_good secp c2" "block_view secp c2 = ?v" using c2'(1) c1(3) by (simp_all add: only_reads_def)
  note c3 = SetBestBlock_sets [OF g2(1) h]
  let ?c3 = "SetBestBlock c2 h"
  have n3: "\<not> IsNull (hashBlock ?c3)" "\<not> IsNull (hashAnchor ?c3)"
    using h a c2'(2) c1(3) GetBestAnchor_hash [OF c2] by (simp_all add: SetBestBlock_def)
  obtain c4 where c4: "Flush (tip_ops secp) ?c3 = Some (True, c4)" "tip_good secp (base c4)" "tip_view secp (base c4) = block_view secp ?c3"
    by (rule tip.Flush_flushes [OF c3(1) n3])
  have "\<not> IsNull (hashBlock (base c4))" "\<not> IsNull (hashAnchor (base c4))" using n3 Flush_base_hash [OF c4(1)] by simp_all
  then obtain tip' where t': "Flush (db_ops secp) (base c4) = Some (True, tip')" "tip_good secp tip'"
    "tip_view secp tip' = tip_view secp (base c4)" "db_view secp (base tip') = tip_view secp (base c4)"
    by (rule db.Flush_flushes [OF c4(2)])
  have "flush_round secp us h tip = Some tip'" using c1(1) c2 c4(1) t'(1) by (simp add: flush_round_def)
  moreover have "db_view secp (base tip') = ?v\<lparr>cv_best_block := h\<rparr>"
    using t'(4) c4(3) c3(2) g2(2) by simp
  ultimately show ?thesis using t' by simp
qed

end

lemma Cleanup_valid: "valid_coins coins \<Longrightarrow> Cleanup coins = coins"
  by (simp add: Cleanup_trim valid_coins_def)

text \<open>
  C10: Changes made in a block cache on top of the tip cache on top of the database arrive in the
  database as if they had been made there directly: after the block cache and the tip cache have been
  flushed, neither of which fails, the coins, nullifiers, anchors, best block and best anchor read from
  LevelDB are those of the changes applied in order to what the tip cache showed before.
\<close>

theorem flush_round_reaches_database:
  assumes "secp_decompresses secp" "tip_good secp tip" "list_all update_ok us" "length h = 32" "\<not> IsNull h"
    and "\<not> IsNull (cv_best_anchor (fold update_view us (tip_view secp tip)))"
  shows "\<exists>tip'. flush_round secp us h tip = Some tip' \<and> tip_good secp tip' \<and> tip_view secp tip' = db_view secp (base tip') \<and>
    db_view secp (base tip') = (fold update_view us (tip_view secp tip))\<lparr>cv_best_block := h\<rparr>"
  using curve.flush_round_refines [OF curve.intro [OF assms(1)] assms(2-6)] .

definition sample_db :: leveldb where
  "sample_db = (\<lambda>_. None)(ser_writedata8 DB_BEST_ANCHOR := Some (replicate 32 5))"

lemma sample_db_good: "db_good secp sample_db" "cv_best_anchor (db_view secp sample_db) = replicate 32 5" "cv_coins (db_view secp sample_db) k = None"
  using db_key_distinct
  by (simp_all add: sample_db_def db_good_def db_view_def db_GetBestAnchor_def db_Read_def stream_read_def)

theorem flush_round_reaches_database_witness:
  "\<exists>tip'. flush_round sample_secp [SetCoins [1] sample_coins, Nullify [2] True, SetCoins [1] CCoins_empty, SetCoins [3] sample_coins]
     (replicate 32 1) (CCoinsViewCache_new sample_db) = Some tip' \<and>
     cv_coins (db_view sample_secp (base tip')) [3] = Some sample_coins \<and> cv_coins (db_view sample_secp (base tip')) [1] = None \<and>
     cv_nullifiers (db_view sample_secp (base tip')) [2]"
proof -
  note s = sample_coins_valid Cleanup_valid [OF sample_coins_valid(1)] Cleanup_valid [OF CCoins_empty_valid(1)]
  have n: "\<not> IsNull (replicate 32 (b::u8))" if "b \<noteq> 0" for b using that by (simp add: IsNull_def list_all_iff)
  show ?thesis
    using flush_round_reaches_database [OF sample_secp_decompresses, of "CCoinsViewCache_new sample_db"
      "[SetCoins [1] sample_coins, Nullify [2] True, SetCoins [1] CCoins_empty, SetCoins [3] sample_coins]" "replicate 32 1"]
      cache_new_good [where s = sample_db and view = "db_view sample_secp"] sample_db_good [of sample_secp] s n [of 1] n [of 5] CCoins_empty_valid
    by (auto simp: view_set_coins_def unspent_def)
qed

end
