(* ===== verification/Block.thy ===== *)
theory Block
  imports Transaction
begin

text \<open>
  Blocks (\<^verbatim>\<open>primitives/block.h\<close>, \<^verbatim>\<open>primitives/block.cpp\<close>) and partial Merkle trees
  (\<^verbatim>\<open>merkleblock.h\<close>, \<^verbatim>\<open>merkleblock.cpp\<close>): the header with its serialization and hash, the Merkle tree of the
  transactions with the flag that reports duplicated ends, Merkle branches, and the proofs that a set of
  transactions is in a block. The Merkle root is related to its levels as lists; a root determines the
  transactions unless the double hash collides on nodes of the two trees, and branches and partial trees
  lead back to the root.
\<close>

section \<open>Headers and blocks\<close>

record CBlockHeader =
  bh_nVersion :: int
  bh_hashPrevBlock :: uint256
  bh_hashMerkleRoot :: uint256
  bh_hashReserved :: uint256
  bh_nTime :: u32
  bh_nBits :: u32
  bh_nNonce :: uint256
  bh_nSolution :: bytes

definition CURRENT_VERSION :: int where "CURRENT_VERSION = 4"

definition CBlockHeader_SetNull :: CBlockHeader where
  "CBlockHeader_SetNull = \<lparr>bh_nVersion = CURRENT_VERSION, bh_hashPrevBlock = uint256_null, bh_hashMerkleRoot = uint256_null,
     bh_hashReserved = uint256_null, bh_nTime = 0, bh_nBits = 0, bh_nNonce = uint256_null, bh_nSolution = []\<rparr>"

definition CBlockHeader_IsNull :: "'a CBlockHeader_scheme \<Rightarrow> bool" where
  "CBlockHeader_IsNull h \<longleftrightarrow> bh_nBits h = 0"

definition put_CEquihashInput :: "'a CBlockHeader_scheme \<Rightarrow> bytes" where
  "put_CEquihashInput h =
     put_int32 (bh_nVersion h) @ put_blob (bh_hashPrevBlock h) @ put_blob (bh_hashMerkleRoot h) @
     put_blob (bh_hashReserved h) @ ser_writedata32 (bh_nTime h) @ ser_writedata32 (bh_nBits h)"

definition put_CBlockHeader :: "'a CBlockHeader_scheme \<Rightarrow> bytes" where
  "put_CBlockHeader h =
     put_int32 (bh_nVersion h) @ put_blob (bh_hashPrevBlock h) @ put_blob (bh_hashMerkleRoot h) @
     put_blob (bh_hashReserved h) @ ser_writedata32 (bh_nTime h) @ ser_writedata32 (bh_nBits h) @
     put_blob (bh_nNonce h) @ put_byte_vector (bh_nSolution h)"

definition get_CBlockHeader :: "bytes \<Rightarrow> (CBlockHeader \<times> bytes) option" where
  "get_CBlockHeader s = do {
     (ver, s) \<leftarrow> get_int32 s; (prev, s) \<leftarrow> stream_read 32 s; (root, s) \<leftarrow> stream_read 32 s; (res, s) \<leftarrow> stream_read 32 s;
     (time, s) \<leftarrow> ser_readdata32 s; (bits, s) \<leftarrow> ser_readdata32 s; (nonce, s) \<leftarrow> stream_read 32 s;
     (sol, s) \<leftarrow> get_byte_vector s;
     Some (\<lparr>bh_nVersion = ver, bh_hashPrevBlock = prev, bh_hashMerkleRoot = root, bh_hashReserved = res,
       bh_nTime = time, bh_nBits = bits, bh_nNonce = nonce, bh_nSolution = sol\<rparr>, s) }"

definition CBlockHeader_GetHash :: "'a CBlockHeader_scheme \<Rightarrow> uint256" where
  "CBlockHeader_GetHash h = SerializeHash (put_CBlockHeader h)"

definition GetBlockTime :: "'a CBlockHeader_scheme \<Rightarrow> int" where
  "GetBlockTime h = uint (bh_nTime h)"

record CBlock = CBlockHeader +
  vtx :: "CTransaction list"
  vMerkleTree :: "uint256 list"

definition CBlock_of :: "CBlockHeader \<Rightarrow> CTransaction list \<Rightarrow> uint256 list \<Rightarrow> CBlock" where
  "CBlock_of h txs tree = CBlockHeader.extend h (CBlock.fields txs tree)"

definition CBlock_SetNull :: CBlock where
  "CBlock_SetNull = CBlock_of CBlockHeader_SetNull [] []"

definition GetBlockHeader :: "CBlock \<Rightarrow> CBlockHeader" where
  "GetBlockHeader b = CBlockHeader.truncate b"

definition put_CBlock :: "CBlock \<Rightarrow> bytes" where
  "put_CBlock b = put_CBlockHeader b @ put_vector put_transaction (vtx b)"

definition get_CBlock :: "bytes \<Rightarrow> (CBlock \<times> bytes) option" where
  "get_CBlock s = do {
     (h, s) \<leftarrow> get_CBlockHeader s; (txs, s) \<leftarrow> get_vector get_CTransaction s; Some (CBlock_of h txs [], s) }"

section \<open>The Merkle tree of a block\<close>

text \<open>
  The loops over \<open>vMerkleTree\<close>: a level has \<open>nSize\<close> entries from the index \<open>j\<close> on, and every pair of them, the
  last one with itself when it is alone, is hashed into an entry at the end. The sizes are those of a
  vector of transactions in memory, far below the range of \<open>int\<close>.
\<close>

function merkle_level :: "nat \<Rightarrow> nat \<Rightarrow> nat \<Rightarrow> uint256 list \<Rightarrow> bool \<Rightarrow> uint256 list \<times> bool" where
  "merkle_level j nSize i tree mutated =
     (if i < nSize then
        let i2 = min (i + 1) (nSize - 1);
            mutated' = (mutated \<or> (i2 = i + 1 \<and> i2 + 1 = nSize \<and> tree ! (j + i) = tree ! (j + i2)))
        in merkle_level j nSize (i + 2) (tree @ [Hash2 (tree ! (j + i)) (tree ! (j + i2))]) mutated'
      else (tree, mutated))"
  by pat_completeness auto
termination by (relation "measure (\<lambda>(j, nSize, i, _). nSize - i)") auto

declare merkle_level.simps [simp del]

function merkle_loop :: "nat \<Rightarrow> nat \<Rightarrow> uint256 list \<Rightarrow> bool \<Rightarrow> uint256 list \<times> bool" where
  "merkle_loop j nSize tree mutated =
     (if nSize > 1 then
        let (tree', mutated') = merkle_level j nSize 0 tree mutated
        in merkle_loop (j + nSize) ((nSize + 1) div 2) tree' mutated'
      else (tree, mutated))"
  by pat_completeness auto
termination by (relation "measure (\<lambda>(j, nSize, _). nSize)") auto

declare merkle_loop.simps [simp del]

definition BuildMerkleTree :: "CBlock \<Rightarrow> uint256 \<times> bool \<times> CBlock" where
  "BuildMerkleTree b =
     (let (tree, mutated) = merkle_loop 0 (length (vtx b)) (map tx_hash (vtx b)) False
      in (if tree = [] then uint256_null else last tree, mutated, b\<lparr>vMerkleTree := tree\<rparr>))"

text \<open>\<open>None\<close> stands for a read outside of \<open>vMerkleTree\<close>.\<close>

function branch_loop :: "uint256 list \<Rightarrow> nat \<Rightarrow> nat \<Rightarrow> int \<Rightarrow> uint256 list option" where
  "branch_loop tree j nSize nIndex =
     (if nSize > 1 then
        let i = int j + min (nIndex XOR 1) (int nSize - 1)
        in if 0 \<le> i \<and> i < int (length tree)
           then map_option ((#) (tree ! nat i)) (branch_loop tree (j + nSize) ((nSize + 1) div 2) (drop_bit 1 nIndex))
           else None
      else Some [])"
  by pat_completeness auto
termination by (relation "measure (\<lambda>(tree, j, nSize, _). nSize)") auto

declare branch_loop.simps [simp del]

definition GetMerkleBranch :: "CBlock \<Rightarrow> int \<Rightarrow> uint256 list option" where
  "GetMerkleBranch b nIndex =
     (let b' = (if vMerkleTree b = [] then snd (snd (BuildMerkleTree b)) else b)
      in branch_loop (vMerkleTree b') 0 (length (vtx b')) nIndex)"

fun check_branch_loop :: "uint256 \<Rightarrow> uint256 list \<Rightarrow> int \<Rightarrow> uint256" where
  "check_branch_loop hash [] nIndex = hash"
| "check_branch_loop hash (it # vMerkleBranch) nIndex =
     check_branch_loop (if nIndex AND 1 \<noteq> 0 then Hash2 it hash else Hash2 hash it) vMerkleBranch (drop_bit 1 nIndex)"

definition CheckMerkleBranch :: "uint256 \<Rightarrow> uint256 list \<Rightarrow> int \<Rightarrow> uint256" where
  "CheckMerkleBranch hash vMerkleBranch nIndex =
     (if nIndex = - 1 then uint256_null else check_branch_loop hash vMerkleBranch nIndex)"

section \<open>Partial Merkle trees\<close>

record CPartialMerkleTree =
  nTransactions :: u32
  vBits :: "bool list"
  vHash :: "uint256 list"
  fBad :: bool

text \<open>\<open>1 << height\<close> is an \<open>int\<close> and the sum is made on \<open>unsigned int\<close>.\<close>

definition CalcTreeWidth :: "u32 \<Rightarrow> nat \<Rightarrow> u32" where
  "CalcTreeWidth n height = drop_bit height (n + push_bit height 1 - 1)"

fun CalcHash :: "u32 \<Rightarrow> nat \<Rightarrow> u32 \<Rightarrow> uint256 list \<Rightarrow> uint256" where
  "CalcHash n 0 pos vTxid = vTxid ! unat pos"
| "CalcHash n (Suc height) pos vTxid =
     (let left = CalcHash n height (pos * 2) vTxid;
          right = (if pos * 2 + 1 < CalcTreeWidth n height then CalcHash n height (pos * 2 + 1) vTxid else left)
      in Hash2 left right)"

definition parent_of_match :: "u32 \<Rightarrow> nat \<Rightarrow> u32 \<Rightarrow> bool list \<Rightarrow> bool" where
  "parent_of_match n height pos vMatch =
     (\<exists>p \<in> set [unat (push_bit height pos)..<min (unat (push_bit height (pos + 1))) (unat n)]. vMatch ! p)"

fun TraverseAndBuild :: "u32 \<Rightarrow> nat \<Rightarrow> u32 \<Rightarrow> uint256 list \<Rightarrow> bool list \<Rightarrow> bool list \<times> uint256 list" where
  "TraverseAndBuild n 0 pos vTxid vMatch = ([parent_of_match n 0 pos vMatch], [CalcHash n 0 pos vTxid])"
| "TraverseAndBuild n (Suc height) pos vTxid vMatch =
     (let fParentOfMatch = parent_of_match n (Suc height) pos vMatch
      in if \<not> fParentOfMatch then ([fParentOfMatch], [CalcHash n (Suc height) pos vTxid])
         else let (bs, hs) = TraverseAndBuild n height (pos * 2) vTxid vMatch;
                  (bs', hs') = (if pos * 2 + 1 < CalcTreeWidth n height
                    then TraverseAndBuild n height (pos * 2 + 1) vTxid vMatch else ([], []))
              in (fParentOfMatch # bs @ bs', hs @ hs'))"

text \<open>The state of an extraction: the bits and hashes used, the matches found, and \<open>fBad\<close>.\<close>

record extraction =
  nBitsUsed :: nat
  nHashUsed :: nat
  ex_vMatch :: "uint256 list"
  ex_fBad :: bool

fun TraverseAndExtract :: "CPartialMerkleTree \<Rightarrow> nat \<Rightarrow> u32 \<Rightarrow> extraction \<Rightarrow> uint256 \<times> extraction" where
  "TraverseAndExtract t 0 pos e =
     (if nBitsUsed e \<ge> length (vBits t) then (uint256_null, e\<lparr>ex_fBad := True\<rparr>)
      else let fParentOfMatch = vBits t ! nBitsUsed e; e = e\<lparr>nBitsUsed := nBitsUsed e + 1\<rparr>
           in if nHashUsed e \<ge> length (vHash t) then (uint256_null, e\<lparr>ex_fBad := True\<rparr>)
              else let hash = vHash t ! nHashUsed e; e = e\<lparr>nHashUsed := nHashUsed e + 1\<rparr>
                   in (hash, if fParentOfMatch then e\<lparr>ex_vMatch := ex_vMatch e @ [hash]\<rparr> else e))"
| "TraverseAndExtract t (Suc height) pos e =
     (if nBitsUsed e \<ge> length (vBits t) then (uint256_null, e\<lparr>ex_fBad := True\<rparr>)
      else let fParentOfMatch = vBits t ! nBitsUsed e; e = e\<lparr>nBitsUsed := nBitsUsed e + 1\<rparr>
           in if \<not> fParentOfMatch then
                (if nHashUsed e \<ge> length (vHash t) then (uint256_null, e\<lparr>ex_fBad := True\<rparr>)
                 else (vHash t ! nHashUsed e, e\<lparr>nHashUsed := nHashUsed e + 1\<rparr>))
              else let (left, e) = TraverseAndExtract t height (pos * 2) e;
                       (right, e) = (if pos * 2 + 1 < CalcTreeWidth (nTransactions t) height
                         then (let (right, e) = TraverseAndExtract t height (pos * 2 + 1) e
                               in (right, if right = left then e\<lparr>ex_fBad := True\<rparr> else e))
                         else (left, e))
                   in (Hash2 left right, e))"

text \<open>The loop that finds the height stops at 31 at the latest, where a width is 0 or 1.\<close>

function tree_height :: "u32 \<Rightarrow> nat \<Rightarrow> nat" where
  "tree_height n nHeight = (if CalcTreeWidth n nHeight > 1 then tree_height n (Suc nHeight) else nHeight)"
  by pat_completeness auto
termination
proof (relation "measure (\<lambda>(n, h). 32 - h)")
  fix n :: u32 and h
  assume "1 < CalcTreeWidth n h"
  then have "1 < unat (CalcTreeWidth n h)" by (simp add: word_less_nat_alt)
  then have "0 < unat (n + push_bit h 1 - 1) div 2 ^ h"
    unfolding CalcTreeWidth_def unat_drop_bit_eq drop_bit_nat_def by linarith
  then have "2 ^ h \<le> unat (n + push_bit h 1 - 1)" by (simp add: div_greater_zero_iff)
  then have "(2::nat) ^ h < 2 ^ 32" using unat_lt2p [of "n + push_bit h 1 - 1"] by simp
  then have "h < 32" by (simp only: power_strict_increasing_iff)
  then show "((n, Suc h), (n, h)) \<in> measure (\<lambda>(n, h). 32 - h)" by simp
qed simp

declare tree_height.simps [simp del]

definition CPartialMerkleTree_of :: "uint256 list \<Rightarrow> bool list \<Rightarrow> CPartialMerkleTree" where
  "CPartialMerkleTree_of vTxid vMatch =
     (let n = of_nat (length vTxid); (bs, hs) = TraverseAndBuild n (tree_height n 0) 0 vTxid vMatch
      in \<lparr>nTransactions = n, vBits = bs, vHash = hs, fBad = False\<rparr>)"

definition MAX_BLOCK_SIZE :: u32 where "MAX_BLOCK_SIZE = 2000000"

text \<open>The root, null in case of failure, the matches, and the object with its flag \<open>fBad\<close>.\<close>

definition ExtractMatches :: "CPartialMerkleTree \<Rightarrow> uint256 \<times> uint256 list \<times> CPartialMerkleTree" where
  "ExtractMatches t =
     (if nTransactions t = 0 then (uint256_null, [], t)
      else if nTransactions t > MAX_BLOCK_SIZE div 60 then (uint256_null, [], t)
      else if length (vHash t) > unat (nTransactions t) then (uint256_null, [], t)
      else if length (vBits t) < length (vHash t) then (uint256_null, [], t)
      else let (root, e) = TraverseAndExtract t (tree_height (nTransactions t) 0) 0
                 \<lparr>nBitsUsed = 0, nHashUsed = 0, ex_vMatch = [], ex_fBad = fBad t\<rparr>;
               t = t\<lparr>fBad := ex_fBad e\<rparr>
           in if fBad t then (uint256_null, ex_vMatch e, t)
              else if (nBitsUsed e + 7) div 8 \<noteq> (length (vBits t) + 7) div 8 then (uint256_null, ex_vMatch e, t)
              else if nHashUsed e \<noteq> length (vHash t) then (uint256_null, ex_vMatch e, t)
              else (root, ex_vMatch e, t))"

definition pack_bits :: "bool list \<Rightarrow> bytes" where
  "pack_bits bits = foldl (\<lambda>v p. v[p div 8 := v ! (p div 8) OR push_bit (p mod 8) (if bits ! p then 1 else 0)])
     (replicate ((length bits + 7) div 8) 0) [0..<length bits]"

definition unpack_bits :: "bytes \<Rightarrow> bool list" where
  "unpack_bits v = map (\<lambda>p. (v ! (p div 8)) AND push_bit (p mod 8) 1 \<noteq> 0) [0..<length v * 8]"

definition put_CPartialMerkleTree :: "CPartialMerkleTree \<Rightarrow> bytes" where
  "put_CPartialMerkleTree t =
     ser_writedata32 (nTransactions t) @ put_vector put_blob (vHash t) @ put_byte_vector (pack_bits (vBits t))"

definition get_CPartialMerkleTree :: "bytes \<Rightarrow> (CPartialMerkleTree \<times> bytes) option" where
  "get_CPartialMerkleTree s = do {
     (n, s) \<leftarrow> ser_readdata32 s; (hs, s) \<leftarrow> get_vector (stream_read 32) s; (v, s) \<leftarrow> get_byte_vector s;
     Some (\<lparr>nTransactions = n, vBits = unpack_bits v, vHash = hs, fBad = False\<rparr>, s) }"

record CMerkleBlock =
  mb_header :: CBlockHeader
  mb_txn :: CPartialMerkleTree

definition CMerkleBlock_of :: "CBlock \<Rightarrow> uint256 set \<Rightarrow> CMerkleBlock" where
  "CMerkleBlock_of block txids =
     \<lparr>mb_header = GetBlockHeader block,
      mb_txn = CPartialMerkleTree_of (map tx_hash (vtx block)) (map (\<lambda>tx. tx_hash tx \<in> txids) (vtx block))\<rparr>"

section \<open>Levels of a Merkle tree\<close>

fun pair_up :: "'a list \<Rightarrow> ('a \<times> 'a) list" where
  "pair_up [] = []"
| "pair_up [x] = [(x, x)]"
| "pair_up (x # y # zs) = (x, y) # pair_up zs"

lemma length_pair_up [simp]: "length (pair_up xs) = (length xs + 1) div 2"
  by (induction xs rule: pair_up.induct) auto

definition next_level :: "uint256 list \<Rightarrow> uint256 list" where
  "next_level xs = map (\<lambda>(a, b). Hash2 a b) (pair_up xs)"

lemma length_next_level [simp]: "length (next_level xs) = (length xs + 1) div 2"
  by (simp add: next_level_def)

function merkle_levels :: "uint256 list \<Rightarrow> uint256 list list" where
  "merkle_levels xs = (if length xs \<le> 1 then [xs] else xs # merkle_levels (next_level xs))"
  by pat_completeness auto
termination by (relation "measure length") auto

declare merkle_levels.simps [simp del]

lemma merkle_levels_short [simp]: "length xs \<le> 1 \<Longrightarrow> merkle_levels xs = [xs]"
  by (simp add: merkle_levels.simps)

lemma merkle_levels_long [simp]: "1 < length xs \<Longrightarrow> merkle_levels xs = xs # merkle_levels (next_level xs)"
  by (simp add: merkle_levels.simps [of xs])

definition merkle_root :: "uint256 list \<Rightarrow> uint256" where
  "merkle_root xs = hd (last (merkle_levels xs))"

text \<open>A level that ends with a pair of equal nodes.\<close>

definition twin_end :: "uint256 list \<Rightarrow> bool" where
  "twin_end xs \<longleftrightarrow> 1 < length xs \<and> even (length xs) \<and> xs ! (length xs - 2) = xs ! (length xs - 1)"

definition merkle_mutated :: "uint256 list \<Rightarrow> bool" where
  "merkle_mutated xs \<longleftrightarrow> (\<exists>l \<in> set (merkle_levels xs). twin_end l)"

lemma merkle_levels_Nil: "merkle_levels xs \<noteq> []"
  by (cases "length xs \<le> 1") simp_all

lemma merkle_root_long: "1 < length xs \<Longrightarrow> merkle_root xs = merkle_root (next_level xs)"
  by (simp add: merkle_root_def merkle_levels_Nil)

lemma merkle_mutated_long: "1 < length xs \<Longrightarrow> merkle_mutated xs \<longleftrightarrow> twin_end xs \<or> merkle_mutated (next_level xs)"
  by (simp add: merkle_mutated_def)

lemma pair_up_nth: "k < (length xs + 1) div 2 \<Longrightarrow> pair_up xs ! k = (xs ! (2 * k), xs ! min (2 * k + 1) (length xs - 1))"
proof (induction xs arbitrary: k rule: pair_up.induct)
  case (3 x y zs)
  show ?case
  proof (cases k)
    case (Suc i)
    then have "i < (length zs + 1) div 2" using 3(2) by simp
    moreover from this have "zs \<noteq> []" by auto
    ultimately show ?thesis using 3(1) [of i] Suc by (auto simp: min_def nth_Cons')
  qed simp
qed auto

lemma next_level_nth:
  "k < (length xs + 1) div 2 \<Longrightarrow> next_level xs ! k = Hash2 (xs ! (2 * k)) (xs ! min (2 * k + 1) (length xs - 1))"
  by (simp add: next_level_def pair_up_nth)

section \<open>The loops build the levels\<close>

lemma merkle_level_builds:
  assumes "length pre = j" "length xs = nSize" "even i" "i \<le> nSize + 1" "0 < nSize"
  shows "merkle_level j nSize i (pre @ xs @ take (i div 2) (next_level xs)) m =
    (pre @ xs @ next_level xs, m \<or> (i < nSize \<and> twin_end xs))"
  using assms(3,4)
proof (induction "nSize - i" arbitrary: i m rule: less_induct)
  case less
  let ?t = "pre @ xs @ take (i div 2) (next_level xs)"
  show ?case
  proof (cases "i < nSize")
    case False
    then have "nSize + 1 \<le> i + 1" by simp
    then have "(nSize + 1) div 2 \<le> i div 2" using less.prems by presburger
    then show ?thesis using False assms(2) by (simp add: merkle_level.simps)
  next
    case True
    let ?i2 = "min (i + 1) (nSize - 1)"
    have k: "i div 2 < (length xs + 1) div 2" using True less.prems assms(2) by presburger
    have t: "?t ! (j + i) = xs ! i" "?t ! (j + ?i2) = xs ! ?i2"
      using True assms(1,2) by (auto simp: nth_append)
    have h: "next_level xs ! (i div 2) = Hash2 (xs ! i) (xs ! ?i2)"
      using next_level_nth [OF k] less.prems assms(2) by simp
    have "take (Suc (i div 2)) (next_level xs) = take (i div 2) (next_level xs) @ [Hash2 (xs ! i) (xs ! ?i2)]"
      using k h by (simp add: take_Suc_conv_app_nth)
    then have n: "?t @ [Hash2 (xs ! i) (xs ! ?i2)] = pre @ xs @ take ((i + 2) div 2) (next_level xs)" by simp
    have m: "(?i2 = i + 1 \<and> ?i2 + 1 = nSize \<and> xs ! i = xs ! ?i2) \<or> (i + 2 < nSize \<and> twin_end xs) \<longleftrightarrow> twin_end xs"
    proof -
      consider "i + 2 < length xs" | "length xs = i + 2" | "length xs = i + 1" using True assms(2) by linarith
      then show ?thesis using less.prems(1) unfolding assms(2) [symmetric] by cases (auto simp: twin_end_def min_def)
    qed
    show ?thesis
      unfolding merkle_level.simps [of j nSize i ?t m] Let_def t n
      using less.hyps [of "i + 2"] True less.prems m by auto
  qed
qed

lemma merkle_loop_builds:
  assumes "xs \<noteq> []" "length pre = j"
  shows "merkle_loop j (length xs) (pre @ xs) m = (pre @ concat (merkle_levels xs), m \<or> merkle_mutated xs)"
  using assms
proof (induction "length xs" arbitrary: xs pre j m rule: less_induct)
  case less
  show ?case
  proof (cases "1 < length xs")
    case False
    then show ?thesis by (simp add: merkle_loop.simps merkle_mutated_def twin_end_def)
  next
    case True
    have l: "merkle_level j (length xs) 0 (pre @ xs) m = ((pre @ xs) @ next_level xs, m \<or> twin_end xs)"
      using merkle_level_builds [of pre j xs "length xs" 0 m] less.prems by simp
    have n: "next_level xs \<noteq> []" using True by (auto simp flip: length_0_conv)
    have "length (next_level xs) < length xs" using True by simp
    from less.hyps [OF this n, of "pre @ xs" "j + length xs" "m \<or> twin_end xs"] less.prems(2)
    show ?thesis using True l by (simp add: merkle_loop.simps [of j "length xs"] merkle_mutated_long)
  qed
qed

lemma last_concat_levels: "xs \<noteq> [] \<Longrightarrow> concat (merkle_levels xs) \<noteq> [] \<and> last (concat (merkle_levels xs)) = merkle_root xs"
proof (induction "length xs" arbitrary: xs rule: less_induct)
  case less
  show ?case
  proof (cases "1 < length xs")
    case False
    then obtain x where "xs = [x]" using less.prems by (cases xs) auto
    then show ?thesis by (simp add: merkle_root_def)
  next
    case True
    then have n: "next_level xs \<noteq> []" "length (next_level xs) < length xs" by (auto simp flip: length_0_conv)
    show ?thesis using less.hyps [OF n(2,1)] True by (simp add: merkle_root_long)
  qed
qed

lemma BuildMerkleTree_levels:
  assumes "vtx b \<noteq> []"
  shows "BuildMerkleTree b = (merkle_root (map tx_hash (vtx b)), merkle_mutated (map tx_hash (vtx b)),
    b\<lparr>vMerkleTree := concat (merkle_levels (map tx_hash (vtx b)))\<rparr>)"
proof -
  have "map tx_hash (vtx b) \<noteq> []" using assms by simp
  then show ?thesis
    using merkle_loop_builds [of "map tx_hash (vtx b)" "[]" 0 False] last_concat_levels [of "map tx_hash (vtx b)"]
    by (auto simp: BuildMerkleTree_def)
qed

section \<open>A root determines the transactions\<close>

text \<open>The pairs of nodes that are hashed on the way to the root.\<close>

definition node_pairs :: "uint256 list \<Rightarrow> (uint256 \<times> uint256) set" where
  "node_pairs xs = (\<Union>l \<in> set (merkle_levels xs). if 1 < length l then set (pair_up l) else {})"

definition hash_collision :: "(uint256 \<times> uint256) set \<Rightarrow> bool" where
  "hash_collision P \<longleftrightarrow> (\<exists>(a, b) \<in> P. \<exists>(c, d) \<in> P. (a, b) \<noteq> (c, d) \<and> Hash2 a b = Hash2 c d)"

text \<open>A leaf that is the hash of two nodes.\<close>

definition leaf_is_node :: "uint256 list \<Rightarrow> uint256 list \<Rightarrow> bool" where
  "leaf_is_node xs ys \<longleftrightarrow> (\<exists>x \<in> set xs. \<exists>(a, b) \<in> node_pairs ys. x = Hash2 a b)"

lemma node_pairs_long: "1 < length xs \<Longrightarrow> node_pairs xs = set (pair_up xs) \<union> node_pairs (next_level xs)"
  by (simp add: node_pairs_def)

lemma node_pairs_short: "length xs \<le> 1 \<Longrightarrow> node_pairs xs = {}"
  by (simp add: node_pairs_def)

lemma merkle_root_single: "merkle_root [x] = x"
  by (simp add: merkle_root_def)

lemma set_pair_up: "(a, b) \<in> set (pair_up xs) \<Longrightarrow> a \<in> set xs \<and> b \<in> set xs"
  by (induction xs rule: pair_up.induct) auto

lemma merkle_root_is_node: "1 < length xs \<Longrightarrow> \<exists>(a, b) \<in> node_pairs xs. merkle_root xs = Hash2 a b"
proof (induction "length xs" arbitrary: xs rule: less_induct)
  case less
  show ?case
  proof (cases "1 < length (next_level xs)")
    case True
    have "length (next_level xs) < length xs" using less.prems by simp
    from less.hyps [OF this True] show ?thesis using less.prems by (auto simp: node_pairs_long merkle_root_long)
  next
    case False
    then have "length xs = 2" using less.prems by simp
    then obtain x y where "xs = [x, y]" by (auto simp: numeral_2_eq_2 length_Suc_conv)
    then show ?thesis by (simp add: merkle_root_long node_pairs_long next_level_def merkle_root_single)
  qed
qed

lemma pair_up_Nil [simp]: "pair_up xs = [] \<longleftrightarrow> xs = []" "[] = pair_up xs \<longleftrightarrow> xs = []"
  by (cases xs rule: pair_up.cases; simp)+

lemma pair_up_inject:
  assumes "pair_up xs = pair_up ys" "\<not> twin_end xs" "\<not> twin_end ys"
  shows "xs = ys"
  using assms
proof (induction xs arbitrary: ys rule: pair_up.induct)
  case 1
  then show ?case by (cases ys rule: pair_up.cases) auto
next
  case (2 x)
  then show ?case by (cases ys rule: pair_up.cases) (auto simp: twin_end_def)
next
  case (3 x y zs)
  have e: "twin_end (a # b # cs) = (if cs = [] then a = b else twin_end cs)" for a b cs
    by (cases cs rule: pair_up.cases) (auto simp: twin_end_def nth_Cons')
  show ?case
  proof (cases ys rule: pair_up.cases)
    case (3 x' y' zs')
    then show ?thesis using "3.prems" "3.IH" [of zs'] by (auto simp: e split: if_splits)
  qed (use "3.prems" in \<open>auto simp: e\<close>)
qed

lemma no_collision:
  "\<not> hash_collision P \<Longrightarrow> (a, b) \<in> P \<Longrightarrow> (c, d) \<in> P \<Longrightarrow> Hash2 a b = Hash2 c d \<Longrightarrow> a = c \<and> b = d"
  unfolding hash_collision_def by blast

lemma hash_collision_mono: "hash_collision P \<Longrightarrow> P \<subseteq> Q \<Longrightarrow> hash_collision Q"
  unfolding hash_collision_def by blast

lemma next_level_inject:
  assumes "next_level xs = next_level ys" "\<not> hash_collision (set (pair_up xs) \<union> set (pair_up ys))"
  shows "pair_up xs = pair_up ys"
proof (rule nth_equalityI)
  show l: "length (pair_up xs) = length (pair_up ys)" using arg_cong [OF assms(1), of length] by simp
  fix i assume i: "i < length (pair_up xs)"
  then have "(\<lambda>(a, b). Hash2 a b) (pair_up xs ! i) = (\<lambda>(a, b). Hash2 a b) (pair_up ys ! i)"
    using arg_cong [OF assms(1), of "\<lambda>l. l ! i"] l by (simp add: next_level_def)
  moreover have "pair_up xs ! i \<in> set (pair_up xs)" "pair_up ys ! i \<in> set (pair_up ys)" using i l by auto
  ultimately show "pair_up xs ! i = pair_up ys ! i"
    using no_collision [OF assms(2)] by (metis (no_types, lifting) Un_iff case_prod_conv surj_pair)
qed

text \<open>A node above the leaves is the hash of a pair, so a leaf that is a node one level up is one below, too.\<close>

lemma node_pairs_next: "(c, d) \<in> node_pairs (next_level ys) \<Longrightarrow> 1 < length ys \<Longrightarrow> \<exists>(r, s) \<in> node_pairs ys. c = Hash2 r s"
proof (induction "length ys" arbitrary: ys rule: less_induct)
  case less
  let ?n = "next_level ys"
  have l: "1 < length ?n" using less.prems(1) node_pairs_short [of ?n] by (metis empty_iff not_le)
  consider "(c, d) \<in> set (pair_up ?n)" | "(c, d) \<in> node_pairs (next_level ?n)" using less.prems(1) node_pairs_long [OF l] by blast
  then show ?case
  proof cases
    case 1
    then have "c \<in> set ?n" using set_pair_up [OF 1] by simp
    then show ?thesis using node_pairs_long [OF less.prems(2)] by (auto simp: next_level_def)
  next
    case 2
    have "length ?n < length ys" using less.prems(2) by simp
    from less.hyps [OF this 2 l] show ?thesis using node_pairs_long [OF less.prems(2)] by auto
  qed
qed

lemma leaf_is_node_up:
  assumes "leaf_is_node (next_level xs) (next_level ys)" "1 < length xs" "1 < length ys"
    and "\<not> hash_collision (node_pairs xs \<union> node_pairs ys)"
  shows "leaf_is_node xs ys"
proof -
  obtain a b c d where q: "(a, b) \<in> set (pair_up xs)" and p: "(c, d) \<in> node_pairs (next_level ys)" and h: "Hash2 a b = Hash2 c d"
    using assms(1) by (auto simp: leaf_is_node_def next_level_def)
  have "(a, b) \<in> node_pairs xs \<union> node_pairs ys" "(c, d) \<in> node_pairs xs \<union> node_pairs ys"
    using q p assms(2,3) by (simp_all add: node_pairs_long)
  then have e: "a = c" using no_collision [OF assms(4)] h by blast
  have "\<exists>(r, s) \<in> node_pairs ys. c = Hash2 r s" using node_pairs_next [OF p assms(3)] .
  then show ?thesis using e q set_pair_up [of a b xs] by (auto simp: leaf_is_node_def)
qed

theorem merkle_binding:
  assumes "xs \<noteq> []" "ys \<noteq> []" "merkle_root xs = merkle_root ys" "\<not> merkle_mutated xs" "\<not> merkle_mutated ys"
    and "\<not> hash_collision (node_pairs xs \<union> node_pairs ys)" "\<not> leaf_is_node xs ys" "\<not> leaf_is_node ys xs"
  shows "xs = ys"
  using assms
proof (induction "length xs" arbitrary: xs ys rule: less_induct)
  case less
  have single: "us = vs" if s: "length us \<le> 1" "us \<noteq> []" "vs \<noteq> []" "merkle_root us = merkle_root vs" "\<not> leaf_is_node us vs" for us vs
  proof -
    obtain u where u: "us = [u]" using s(1,2) by (cases us) auto
    show ?thesis
    proof (cases "1 < length vs")
      case True
      then show ?thesis using merkle_root_is_node [OF True] s(4,5) u by (auto simp: leaf_is_node_def merkle_root_single)
    next
      case False
      then obtain v where "vs = [v]" using s(3) by (cases vs) auto
      then show ?thesis using s(4) u by (simp add: merkle_root_single)
    qed
  qed
  show ?case
  proof (cases "1 < length xs \<and> 1 < length ys")
    case False
    then show ?thesis using single [of xs ys] single [of ys xs] less.prems by fastforce
  next
    case True
    then have l: "1 < length xs" "1 < length ys" by auto
    note n = node_pairs_long [OF l(1)] node_pairs_long [OF l(2)]
    have c: "\<not> hash_collision (node_pairs (next_level xs) \<union> node_pairs (next_level ys))"
      "\<not> hash_collision (set (pair_up xs) \<union> set (pair_up ys))"
      using less.prems(6) hash_collision_mono [of _ "node_pairs xs \<union> node_pairs ys"] unfolding n by blast+
    have "next_level xs = next_level ys"
    proof (rule less.hyps)
      show "\<not> leaf_is_node (next_level xs) (next_level ys)" "\<not> leaf_is_node (next_level ys) (next_level xs)"
        using leaf_is_node_up [of xs ys] leaf_is_node_up [of ys xs] less.prems(6-8) l Un_commute [of "node_pairs xs"] by auto
    qed (use l less.prems c in \<open>auto simp: merkle_root_long merkle_mutated_long simp flip: length_0_conv\<close>)
    then have "pair_up xs = pair_up ys" using c(2) by (rule next_level_inject)
    then show ?thesis using pair_up_inject less.prems(4,5) l by (auto simp: merkle_mutated_long)
  qed
qed

section \<open>Branches lead to the root\<close>

lemma int_xor_1: "int i XOR 1 = int (if even i then i + 1 else i - 1)"
  by (auto simp: xor_one_eq elim: oddE)

lemma branch_loop_leads:
  assumes "tree = pre @ concat (merkle_levels xs)" "i < length xs"
  shows "\<exists>br. branch_loop tree (length pre) (length xs) (int i) = Some br \<and> check_branch_loop (xs ! i) br (int i) = merkle_root xs"
  using assms
proof (induction "length xs" arbitrary: xs i pre rule: less_induct)
  case less
  show ?case
  proof (cases "1 < length xs")
    case False
    then obtain x where "xs = [x]" "i = 0" using less.prems(2) by (cases xs) auto
    then show ?thesis by (simp add: branch_loop.simps merkle_root_single)
  next
    case True
    define s where "s = min (if even i then i + 1 else i - 1) (length xs - 1)"
    let ?k = "i div 2"
    have k: "?k < (length xs + 1) div 2" using less.prems(2) by presburger
    have s: "min (int i XOR 1) (int (length xs) - 1) = int s" "s < length xs"
      using True less.prems(2) unfolding int_xor_1 s_def by auto
    have t: "tree ! (length pre + s) = xs ! s" "length pre + s < length tree"
      using less.prems(1) s(2) True by (simp_all add: nth_append)
    have h: "(if int i AND 1 \<noteq> 0 then Hash2 (xs ! s) (xs ! i) else Hash2 (xs ! i) (xs ! s)) = next_level xs ! ?k"
    proof (cases "even i")
      case True
      then show ?thesis using next_level_nth [OF k] by (simp add: s_def and_one_eq)
    next
      case False
      then have "s = i - 1" "2 * ?k = i - 1" "min (2 * ?k + 1) (length xs - 1) = i"
        using less.prems(2) by (auto simp: s_def min_def elim: oddE)
      then show ?thesis using next_level_nth [OF k] False by (simp add: and_one_eq flip: even_iff_mod_2_eq_zero)
    qed
    have d: "drop_bit 1 (int i) = int ?k" by (simp add: drop_bit_eq_div zdiv_int)
    have "length (next_level xs) < length xs" using True by simp
    from less.hyps [OF this, of "pre @ xs" ?k] obtain br where
      br: "branch_loop tree (length pre + length xs) ((length xs + 1) div 2) (int ?k) = Some br"
        "check_branch_loop (next_level xs ! ?k) br (int ?k) = merkle_root (next_level xs)"
      using less.prems(1) k True by auto
    have "branch_loop tree (length pre) (length xs) (int i) = Some (xs ! s # br)"
      using True br(1) t s(1) d by (simp add: branch_loop.simps [of tree "length pre" "length xs"] Let_def nat_add_distrib)
    then show ?thesis using br(2) h d True by (simp add: merkle_root_long)
  qed
qed

section \<open>Partial trees lead to the root\<close>

fun level_at :: "uint256 list \<Rightarrow> nat \<Rightarrow> uint256 list" where
  "level_at xs 0 = xs"
| "level_at xs (Suc h) = next_level (level_at xs h)"

definition width :: "nat \<Rightarrow> nat \<Rightarrow> nat" where
  "width N h = (N + 2 ^ h - 1) div 2 ^ h"

lemma width_0 [simp]: "width N 0 = N"
  by (simp add: width_def)

lemma width_Suc: "width N (Suc h) = (width N h + 1) div 2"
proof -
  have "(N + 2 ^ Suc h - 1) div 2 ^ Suc h = ((N + 2 * 2 ^ h - 1) div 2 ^ h) div 2"
    by (simp only: power_Suc2 div_mult2_eq) (simp add: mult.commute)
  also have "N + 2 * 2 ^ h - 1 = (N + 2 ^ h - 1) + 2 ^ h" by simp
  also have "((N + 2 ^ h - 1) + 2 ^ h) div 2 ^ h = (N + 2 ^ h - 1) div 2 ^ h + 1" by (rule div_add_self2) simp
  finally show ?thesis by (simp only: width_def)
qed

lemma length_level_at: "length (level_at xs h) = width (length xs) h"
  by (induction h) (simp_all add: width_Suc)

lemma width_less: "pos < width N h \<longleftrightarrow> pos * 2 ^ h < N"
proof -
  have "pos < (N + 2 ^ h - 1) div 2 ^ h \<longleftrightarrow> Suc pos * 2 ^ h \<le> N + 2 ^ h - 1"
    using less_eq_div_iff_mult_less_eq [of "2 ^ h" "Suc pos" "N + 2 ^ h - 1"] by (simp add: Suc_le_eq)
  also have "\<dots> \<longleftrightarrow> pos * 2 ^ h < N" using zero_less_power [of "2::nat" h] unfolding mult_Suc by linarith
  finally show ?thesis by (simp add: width_def)
qed

lemma unat_small: "k < 2 ^ 32 \<Longrightarrow> unat (of_nat k :: u32) = k"
  by (simp add: unat_of_nat)

lemma width_le: "width N h \<le> N"
  using width_less [of N N h] by (simp add: not_less)

text \<open>Counts up to \<open>2^16\<close> keep every sum and position within 32 bits.\<close>

lemma unat_CalcTreeWidth:
  assumes "N \<le> 2 ^ 16" "h \<le> 16"
  shows "unat (CalcTreeWidth (of_nat N) h) = width N h"
proof -
  have p: "(2::nat) ^ h \<le> 2 ^ 16" "1 \<le> (2::nat) ^ h" using power_increasing [OF assms(2), of "2::nat"] by simp_all
  have "1 \<le> N + 2 ^ h" using p(2) by linarith
  then have "of_nat N + push_bit h 1 - 1 = (of_nat (N + 2 ^ h - 1) :: u32)" by (subst of_nat_diff) (simp_all add: push_bit_eq_mult)
  moreover have "N + 2 ^ h - 1 < 2 ^ 32" using assms(1) p(1) by simp
  ultimately have "unat (of_nat N + push_bit h 1 - 1 :: u32) = N + 2 ^ h - 1" by (simp only: unat_small)
  then show ?thesis unfolding CalcTreeWidth_def unat_drop_bit_eq drop_bit_nat_def width_def by simp
qed

lemma child_exists:
  assumes "N \<le> 2 ^ 16" "h < 16" "pos < 2 ^ 17"
  shows "(of_nat pos * 2 + 1 < CalcTreeWidth (of_nat N) h) = (2 * pos + 1 < width N h)"
proof -
  have "unat (of_nat pos * 2 + 1 :: u32) = 2 * pos + 1"
    using assms(3) unat_small [of "2 * pos + 1"] by (simp add: algebra_simps)
  then show ?thesis using unat_CalcTreeWidth [of N h] assms by (simp add: word_less_nat_alt)
qed

lemma CalcHash_level:
  assumes "length xs \<le> 2 ^ 16" "h \<le> 16" "pos < width (length xs) h"
  shows "CalcHash (of_nat (length xs)) h (of_nat pos) xs = level_at xs h ! pos"
  using assms(2,3)
proof (induction h arbitrary: pos)
  case 0
  then show ?case using assms(1) by (simp add: unat_small)
next
  case (Suc h)
  let ?w = "width (length xs) h"
  have k: "pos < (?w + 1) div 2" using Suc.prems(2) by (simp add: width_Suc)
  have l: "2 * pos < ?w" using k by simp
  have b: "pos < 2 ^ 17" using l assms(1) width_le [of "length xs" h] by simp
  have r: "CalcHash (of_nat (length xs)) h (of_nat pos * 2) xs = level_at xs h ! (2 * pos)"
    using Suc.IH [of "2 * pos"] Suc.prems l by (simp add: mult.commute)
  have r': "CalcHash (of_nat (length xs)) h (of_nat pos * 2 + 1) xs = level_at xs h ! (2 * pos + 1)" if "2 * pos + 1 < ?w"
    using Suc.IH [of "2 * pos + 1"] Suc.prems that by (simp add: algebra_simps)
  have "level_at xs (Suc h) ! pos = Hash2 (level_at xs h ! (2 * pos)) (level_at xs h ! min (2 * pos + 1) (?w - 1))"
    using next_level_nth [of pos "level_at xs h"] k by (simp add: length_level_at)
  moreover have "min (2 * pos + 1) (?w - 1) = (if 2 * pos + 1 < ?w then 2 * pos + 1 else 2 * pos)" using l by auto
  ultimately show ?case using r r' child_exists [OF assms(1) _ b, of h] Suc.prems by (simp add: Let_def)
qed

text \<open>The transactions below a node, and the matched ones among them.\<close>

definition below :: "nat \<Rightarrow> nat \<Rightarrow> nat \<Rightarrow> nat list" where
  "below N h pos = [pos * 2 ^ h..<min (Suc pos * 2 ^ h) N]"

definition matched :: "uint256 list \<Rightarrow> bool list \<Rightarrow> nat list \<Rightarrow> uint256 list" where
  "matched xs m ps = map ((!) xs) (filter ((!) m) ps)"

lemma below_Suc: "below N (Suc h) pos = below N h (2 * pos) @ below N h (2 * pos + 1)"
proof -
  let ?a = "2 * pos * 2 ^ h" and ?b = "(2 * pos + 1) * 2 ^ h" and ?c = "(2 * pos + 2) * 2 ^ h"
  have e: "pos * 2 ^ Suc h = ?a" "Suc pos * 2 ^ Suc h = ?c" "Suc (2 * pos) * 2 ^ h = ?b" "Suc (2 * pos + 1) * 2 ^ h = ?c"
    by (simp_all add: algebra_simps)
  have l: "?a \<le> ?b" "?b \<le> ?c" by (intro mult_right_mono; simp)+
  show ?thesis
  proof (cases "?b \<le> N")
    case True
    then have "min ?b N = ?b" "?b + (min ?c N - ?b) = min ?c N" using l(2) by auto
    then show ?thesis unfolding below_def e using upt_add_eq_append [OF l(1), of "min ?c N - ?b"] by simp
  next
    case False
    then have "min ?b N = N" "min ?c N = N" using l(2) by auto
    then show ?thesis unfolding below_def e using False by simp
  qed
qed

lemma matched_append [simp]: "matched xs m (ps @ qs) = matched xs m ps @ matched xs m qs"
  by (simp add: matched_def)

lemma below_beyond: "\<not> 2 * pos + 1 < width N h \<Longrightarrow> below N h (2 * pos + 1) = []"
  by (simp add: below_def width_less)

lemma parent_of_match_iff:
  assumes "N \<le> 2 ^ 16" "h \<le> 16" "pos < width N h"
  shows "parent_of_match (of_nat N) h (of_nat pos) m = (\<exists>p \<in> set (below N h pos). m ! p)"
proof -
  have "(2::nat) ^ h \<le> 2 ^ 16" using assms(2) by (simp only: power_increasing_iff)
  moreover have "pos * 2 ^ h < 2 ^ 16" using assms(1,3) by (simp add: width_less)
  ultimately have b: "pos * 2 ^ h < 2 ^ 32" "Suc pos * 2 ^ h < 2 ^ 32" by (simp_all)
  have "push_bit h (of_nat pos) = (of_nat (pos * 2 ^ h) :: u32)" "push_bit h (of_nat pos + 1) = (of_nat (Suc pos * 2 ^ h) :: u32)"
    by (simp_all add: push_bit_eq_mult algebra_simps)
  then have "unat (push_bit h (of_nat pos :: u32)) = pos * 2 ^ h" "unat (push_bit h (of_nat pos + 1 :: u32)) = Suc pos * 2 ^ h"
    using unat_small [OF b(1)] unat_small [OF b(2)] by simp_all
  moreover have "unat (of_nat N :: u32) = N" using assms(1) by (intro unat_small) simp
  ultimately show ?thesis by (simp only: parent_of_match_def below_def)
qed

text \<open>No node has a sibling equal to it.\<close>

definition siblings_differ :: "uint256 list \<Rightarrow> nat \<Rightarrow> bool" where
  "siblings_differ xs H \<longleftrightarrow> (\<forall>h < H. \<forall>k. 2 * k + 1 < width (length xs) h \<longrightarrow> level_at xs h ! (2 * k) \<noteq> level_at xs h ! (2 * k + 1))"

lemma extract_built:
  assumes N: "length xs \<le> 2 ^ 16" and d: "siblings_differ xs H" and t: "nTransactions t = of_nat (length xs)"
    and "h \<le> H" "H \<le> 16" "pos < width (length xs) h"
    and "TraverseAndBuild (of_nat (length xs)) h (of_nat pos) xs m = (bs, hs)"
    and "vBits t = B @ bs @ B'" "vHash t = A @ hs @ A'" "nBitsUsed e = length B" "nHashUsed e = length A"
  shows "TraverseAndExtract t h (of_nat pos) e = (level_at xs h ! pos,
    e\<lparr>nBitsUsed := length B + length bs, nHashUsed := length A + length hs,
      ex_vMatch := ex_vMatch e @ matched xs m (below (length xs) h pos)\<rparr>)"
  using assms(4,6-)
proof (induction h arbitrary: pos bs hs B B' A A' e)
  case 0
  have b: "below (length xs) 0 pos = [pos]" using 0 by (simp add: below_def)
  have "parent_of_match (of_nat (length xs)) 0 (of_nat pos) m = m ! pos"
    using parent_of_match_iff [OF N, of 0 pos m] 0 b by simp
  moreover have "CalcHash (of_nat (length xs)) 0 (of_nat pos) xs = xs ! pos" using CalcHash_level [OF N, of 0 pos] 0 by simp
  ultimately have "bs = [m ! pos]" "hs = [xs ! pos]" using 0 by auto
  then show ?case using 0 b by (simp add: matched_def nth_append Let_def)
next
  case (Suc h)
  let ?n = "of_nat (length xs) :: u32"
  let ?p = "parent_of_match ?n (Suc h) (of_nat pos) m"
  note ch = CalcHash_level [OF N, of "Suc h" pos]
  show ?case
  proof (cases ?p)
    case False
    then have "bs = [False]" "hs = [level_at xs (Suc h) ! pos]"
      using Suc.prems assms(5) ch by (auto simp: Let_def)
    moreover have "matched xs m (below (length xs) (Suc h) pos) = []"
      using False parent_of_match_iff [OF N, of "Suc h" pos m] Suc.prems assms(5) by (auto simp: matched_def filter_empty_conv)
    ultimately show ?thesis using Suc.prems by (simp add: nth_append Let_def)
  next
    case True
    let ?w = "width (length xs) h"
    have l: "2 * pos < ?w" using Suc.prems(2) by (simp add: width_Suc)
    have b: "pos < 2 ^ 17" using l N width_le [of "length xs" h] by simp
    have H: "h < H" "h < 16" using Suc.prems(1) assms(5) by simp_all
    note c = child_exists [OF N H(2) b]
    have w: "of_nat pos * 2 = (of_nat (2 * pos) :: u32)" "of_nat pos * 2 + 1 = (of_nat (2 * pos + 1) :: u32)" by simp_all
    obtain bs1 hs1 where b1: "TraverseAndBuild ?n h (of_nat pos * 2) xs m = (bs1, hs1)" by fastforce
    have lv: "level_at xs (Suc h) ! pos = Hash2 (level_at xs h ! (2 * pos)) (level_at xs h ! (if 2 * pos + 1 < ?w then 2 * pos + 1 else 2 * pos))"
    proof -
      have "min (2 * pos + 1) (?w - 1) = (if 2 * pos + 1 < ?w then 2 * pos + 1 else 2 * pos)" using l by auto
      then show ?thesis using next_level_nth [of pos "level_at xs h"] Suc.prems(2) by (simp add: length_level_at width_Suc)
    qed
    let ?e1 = "e\<lparr>nBitsUsed := length B + 1\<rparr>"
    show ?thesis
    proof (cases "2 * pos + 1 < ?w")
      case False
      then have bh: "bs = True # bs1" "hs = hs1" using Suc.prems(3) True b1 c by (simp_all add: Let_def)
      have "TraverseAndExtract t h (of_nat pos * 2) ?e1 = (level_at xs h ! (2 * pos),
          ?e1\<lparr>nBitsUsed := length (B @ [True]) + length bs1, nHashUsed := length A + length hs1,
            ex_vMatch := ex_vMatch ?e1 @ matched xs m (below (length xs) h (2 * pos))\<rparr>)"
        unfolding w(1) by (rule Suc.IH [OF _ l b1 [unfolded w(1)], of "B @ [True]" B' A A']) (use Suc.prems bh in simp_all)
      then show ?thesis using Suc.prems bh False c lv t below_beyond [OF False]
        by (simp add: nth_append Let_def below_Suc)
    next
      case r: True
      obtain bs2 hs2 where b2: "TraverseAndBuild ?n h (of_nat pos * 2 + 1) xs m = (bs2, hs2)" by fastforce
      have bh: "bs = True # bs1 @ bs2" "hs = hs1 @ hs2" using Suc.prems(3) True b1 b2 c r by (simp_all add: Let_def)
      let ?e2 = "?e1\<lparr>nBitsUsed := length (B @ [True]) + length bs1, nHashUsed := length A + length hs1,
            ex_vMatch := ex_vMatch ?e1 @ matched xs m (below (length xs) h (2 * pos))\<rparr>"
      have e1: "TraverseAndExtract t h (of_nat pos * 2) ?e1 = (level_at xs h ! (2 * pos), ?e2)"
        unfolding w(1) by (rule Suc.IH [OF _ l b1 [unfolded w(1)], of "B @ [True]" "bs2 @ B'" A "hs2 @ A'"]) (use Suc.prems bh in simp_all)
      have e2: "TraverseAndExtract t h (of_nat pos * 2 + 1) ?e2 = (level_at xs h ! (2 * pos + 1),
          ?e2\<lparr>nBitsUsed := length (B @ [True] @ bs1) + length bs2, nHashUsed := length (A @ hs1) + length hs2,
            ex_vMatch := ex_vMatch ?e2 @ matched xs m (below (length xs) h (2 * pos + 1))\<rparr>)"
        unfolding w(2) by (rule Suc.IH [OF _ r b2 [unfolded w(2)], of "B @ [True] @ bs1" B' "A @ hs1" A']) (use Suc.prems bh in simp_all)
      have "level_at xs h ! (2 * pos + 1) \<noteq> level_at xs h ! (2 * pos)" using d H(1) r unfolding siblings_differ_def by metis
      then show ?thesis using Suc.prems bh r c lv t e1 e2
        by (simp add: nth_append Let_def below_Suc)
    qed
  qed
qed

lemma height_levels:
  assumes "xs \<noteq> []" "length xs \<le> 2 ^ 16" "\<forall>g < h. 1 < width (length xs) g" "h \<le> 16"
  shows "tree_height (of_nat (length xs)) h \<le> 16 \<and> width (length xs) (tree_height (of_nat (length xs)) h) = 1 \<and>
    merkle_root (level_at xs h) = level_at xs (tree_height (of_nat (length xs)) h) ! 0 \<and>
    (\<forall>g < tree_height (of_nat (length xs)) h. 1 < width (length xs) g)"
  using assms(3,4)
proof (induction "16 - h" arbitrary: h rule: less_induct)
  case less
  let ?N = "length xs"
  have w: "(1 < CalcTreeWidth (of_nat ?N) h) = (1 < width ?N h)"
    using unat_CalcTreeWidth [OF assms(2) less.prems(2)] by (simp add: word_less_nat_alt)
  have pos: "0 < width ?N h" using assms(1) by (simp add: width_less)
  show ?case
  proof (cases "1 < width ?N h")
    case False
    then have "width ?N h = 1" using pos by simp
    moreover from this obtain r where "level_at xs h = [r]" by (metis length_level_at length_0_conv length_Suc_conv One_nat_def)
    ultimately show ?thesis using False w less.prems by (simp add: tree_height.simps merkle_root_single)
  next
    case True
    then have "2 ^ h < ?N" using width_less [of 1 ?N h] by simp
    then have "(2::nat) ^ h < 2 ^ 16" using assms(2) by linarith
    then have h: "h < 16" by (simp only: power_strict_increasing_iff)
    have "\<forall>g < Suc h. 1 < width ?N g" using less.prems(1) True by (simp add: less_Suc_eq)
    from less.hyps [OF _ this] have "tree_height (of_nat ?N) (Suc h) \<le> 16 \<and> width ?N (tree_height (of_nat ?N) (Suc h)) = 1 \<and>
      merkle_root (level_at xs (Suc h)) = level_at xs (tree_height (of_nat ?N) (Suc h)) ! 0 \<and>
      (\<forall>g < tree_height (of_nat ?N) (Suc h). 1 < width ?N g)" using h by simp
    then show ?thesis using True w merkle_root_long [of "level_at xs h"] length_level_at [of xs h]
      by (simp add: tree_height.simps [of "of_nat ?N" h])
  qed
qed

lemma built_sizes:
  "TraverseAndBuild n h pos xs m = (bs, hs) \<Longrightarrow> length hs \<le> length bs"
proof (induction h arbitrary: pos bs hs)
  case (Suc h)
  obtain bs1 hs1 where b1: "TraverseAndBuild n h (pos * 2) xs m = (bs1, hs1)" by fastforce
  obtain bs2 hs2 where b2: "TraverseAndBuild n h (pos * 2 + 1) xs m = (bs2, hs2)" by fastforce
  show ?case using Suc.prems b1 b2 Suc.IH [OF b1] Suc.IH [OF b2] by (auto simp: Let_def split: if_splits)
qed auto

lemma built_hashes:
  assumes "length xs \<le> 2 ^ 16" "h \<le> 16" "pos < width (length xs) h"
    "TraverseAndBuild (of_nat (length xs)) h (of_nat pos) xs m = (bs, hs)"
  shows "length hs \<le> length (below (length xs) h pos)"
  using assms(2-)
proof (induction h arbitrary: pos bs hs)
  case 0
  then show ?case by (auto simp: below_def)
next
  case (Suc h)
  let ?n = "of_nat (length xs) :: u32"
  have l: "2 * pos < width (length xs) h" using Suc.prems(2) by (simp add: width_Suc)
  have b: "pos < 2 ^ 17" using l assms(1) width_le [of "length xs" h] by simp
  have w: "of_nat pos * 2 = (of_nat (2 * pos) :: u32)" "of_nat pos * 2 + 1 = (of_nat (2 * pos + 1) :: u32)" by simp_all
  have ne: "0 < length (below (length xs) (Suc h) pos)"
    using Suc.prems(2) by (simp add: below_def width_less)
  note c = child_exists [OF assms(1) _ b, of h]
  obtain bs1 hs1 where b1: "TraverseAndBuild ?n h (of_nat pos * 2) xs m = (bs1, hs1)" by fastforce
  obtain bs2 hs2 where b2: "TraverseAndBuild ?n h (of_nat pos * 2 + 1) xs m = (bs2, hs2)" by fastforce
  have i1: "length hs1 \<le> length (below (length xs) h (2 * pos))" using Suc.IH [OF _ l b1 [unfolded w(1)]] Suc.prems(1) by simp
  have i2: "length hs2 \<le> length (below (length xs) h (2 * pos + 1))" if "2 * pos + 1 < width (length xs) h"
    using Suc.IH [OF _ that b2 [unfolded w(2)]] Suc.prems(1) by simp
  show ?case
  proof (cases "parent_of_match ?n (Suc h) (of_nat pos) m")
    case True
    then show ?thesis using Suc.prems(1,3) b1 b2 c i1 i2 by (auto simp: Let_def below_Suc split: if_splits)
  next
    case False
    then have "length hs = 1" using Suc.prems(3) by (auto simp: Let_def)
    then show ?thesis using ne by linarith
  qed
qed

theorem ExtractMatches_built:
  assumes "xs \<noteq> []" "length xs \<le> unat (MAX_BLOCK_SIZE div 60)" "length m = length xs"
    "\<And>h k. 2 * k + 1 < width (length xs) h \<Longrightarrow> level_at xs h ! (2 * k) \<noteq> level_at xs h ! (2 * k + 1)"
  shows "ExtractMatches (CPartialMerkleTree_of xs m) = (merkle_root xs, matched xs m [0..<length xs], CPartialMerkleTree_of xs m)"
proof -
  let ?N = "length xs" and ?t = "CPartialMerkleTree_of xs m"
  let ?H = "tree_height (of_nat ?N) 0"
  have N: "?N \<le> 33333" using assms(2) by (simp add: MAX_BLOCK_SIZE_def)
  then have N16: "?N \<le> 2 ^ 16" by simp
  from height_levels [OF assms(1) N16, of 0] have H: "?H \<le> 16" "width ?N ?H = 1" "merkle_root xs = level_at xs ?H ! 0" by auto
  obtain bs hs where b: "TraverseAndBuild (of_nat ?N) ?H 0 xs m = (bs, hs)" by fastforce
  have t: "?t = \<lparr>nTransactions = of_nat ?N, vBits = bs, vHash = hs, fBad = False\<rparr>"
    using b by (simp add: CPartialMerkleTree_of_def Let_def)
  have "?N \<le> 2 ^ ?H" using width_less [of 1 ?N ?H] H(2) by simp
  then have below: "below ?N ?H 0 = [0..<?N]" by (simp add: below_def)
  have "siblings_differ xs ?H" using assms(4) by (simp add: siblings_differ_def)
  from extract_built [OF N16 this _ _ H(1), of ?t ?H 0 m bs hs "[]" "[]" "[]" "[]"
      "\<lparr>nBitsUsed = 0, nHashUsed = 0, ex_vMatch = [], ex_fBad = False\<rparr>"] b t H(2) below
  have e: "TraverseAndExtract ?t ?H 0 \<lparr>nBitsUsed = 0, nHashUsed = 0, ex_vMatch = [], ex_fBad = False\<rparr> =
    (level_at xs ?H ! 0, \<lparr>nBitsUsed = length bs, nHashUsed = length hs, ex_vMatch = matched xs m [0..<?N], ex_fBad = False\<rparr>)"
    by simp
  have "length hs \<le> ?N" using built_hashes [OF N16 H(1), of 0 m bs hs] b H(2) below by simp
  moreover have "length hs \<le> length bs" using built_sizes [OF b] .
  moreover have u: "unat (of_nat ?N :: u32) = ?N" using N by (intro unat_small) simp
  moreover have "(of_nat ?N :: u32) \<noteq> 0" using u assms(1) by (metis length_0_conv unat_0)
  moreover have "\<not> MAX_BLOCK_SIZE div 60 < (of_nat ?N :: u32)" using u assms(2) by (simp add: word_less_nat_alt)
  ultimately show ?thesis using e H(3) unfolding t ExtractMatches_def by simp
qed

lemma matched_all: "length m = length xs \<Longrightarrow> matched xs m [0..<length xs] = map fst (filter snd (zip xs m))"
proof (induction xs arbitrary: m rule: rev_induct)
  case (snoc x xs)
  then obtain m' b where m: "m = m' @ [b]" "length m' = length xs" by (cases m rule: rev_cases) auto
  have "matched (xs @ [x]) (m' @ [b]) [0..<length xs] = matched xs m' [0..<length xs]"
    using m(2) unfolding matched_def
    by (intro map_cong filter_cong) (auto simp: nth_append)
  then show ?case using snoc.IH [OF m(2)] m by (simp add: matched_def nth_append)
qed (simp add: matched_def)

section \<open>Properties\<close>

definition sample_block :: CBlock where
  "sample_block = CBlock_of CBlockHeader_SetNull
     [(CTransaction_of sample_tx)\<lparr>tx_hash := replicate 32 1\<rparr>, (CTransaction_of sample_tx)\<lparr>tx_hash := replicate 32 2\<rparr>] []"

lemma sample_block_hashes [simp]: "map tx_hash (vtx sample_block) = [replicate 32 1, replicate 32 2]" "length (vtx sample_block) = 2"
  "vMerkleTree sample_block = []"
  by (simp_all add: sample_block_def CBlock_of_def CBlockHeader.defs CBlock.defs)

lemma sample_block_nonempty [simp]: "vtx sample_block \<noteq> []"
  using sample_block_hashes(2) by (metis length_0_conv zero_neq_numeral)

lemma sample_block_clean: "\<not> merkle_mutated (map tx_hash (vtx sample_block))"
  by (simp add: merkle_mutated_def twin_end_def next_level_def)

text \<open>
  C38: The Merkle root of a block determines its transactions. When two blocks have the same root and
  \<open>BuildMerkleTree\<close> reports no mutation for either, the lists of transaction hashes are equal, unless
  the double hash collides on two different pairs of nodes of these two trees, or a transaction hash of
  one block is itself the hash of a pair of nodes of the other. So the flag catches every repetition
  of transactions that keeps the root.
\<close>

theorem merkle_root_determines_transactions:
  assumes "vtx b \<noteq> []" "vtx b' \<noteq> []" "BuildMerkleTree b = (r, False, c)" "BuildMerkleTree b' = (r, False, c')"
  defines "xs \<equiv> map tx_hash (vtx b)" and "ys \<equiv> map tx_hash (vtx b')"
  shows "xs = ys \<or> hash_collision (node_pairs xs \<union> node_pairs ys) \<or> leaf_is_node xs ys \<or> leaf_is_node ys xs"
  using merkle_binding [of xs ys] assms BuildMerkleTree_levels [of b] BuildMerkleTree_levels [of b'] by auto

theorem merkle_root_determines_transactions_witness:
  "let b = sample_block\<lparr>bh_nTime := 5\<rparr>; xs = map tx_hash (vtx sample_block); ys = map tx_hash (vtx b) in
   fst (BuildMerkleTree b) = fst (BuildMerkleTree sample_block) \<and>
   (xs = ys \<or> hash_collision (node_pairs xs \<union> node_pairs ys) \<or> leaf_is_node xs ys \<or> leaf_is_node ys xs)"
  using merkle_root_determines_transactions [of sample_block "sample_block\<lparr>bh_nTime := 5\<rparr>"] BuildMerkleTree_levels [of sample_block]
    BuildMerkleTree_levels [of "sample_block\<lparr>bh_nTime := 5\<rparr>"] sample_block_clean
  by (simp add: Let_def)

text \<open>
  C39: A Merkle branch leads back to the root: for every transaction of a block, \<open>GetMerkleBranch\<close> returns a
  branch without leaving the tree, and hashing the transaction up this branch with \<open>CheckMerkleBranch\<close>
  gives the root that \<open>BuildMerkleTree\<close> computes.
\<close>

theorem merkle_branch_verifies:
  assumes "i < length (vtx b)" "vMerkleTree b = [] \<or> vMerkleTree b = vMerkleTree (snd (snd (BuildMerkleTree b)))"
  shows "\<exists>br. GetMerkleBranch b (int i) = Some br \<and> CheckMerkleBranch (tx_hash (vtx b ! i)) br (int i) = fst (BuildMerkleTree b)"
proof -
  have n: "vtx b \<noteq> []" using assms(1) by auto
  obtain br where "branch_loop (concat (merkle_levels (map tx_hash (vtx b)))) 0 (length (vtx b)) (int i) = Some br"
    "check_branch_loop (tx_hash (vtx b ! i)) br (int i) = merkle_root (map tx_hash (vtx b))"
    using branch_loop_leads [of _ "[]" "map tx_hash (vtx b)" i] assms(1) by auto
  then show ?thesis using BuildMerkleTree_levels [OF n] assms(2)
    by (auto simp: GetMerkleBranch_def CheckMerkleBranch_def Let_def)
qed

theorem merkle_branch_verifies_witness:
  "\<exists>br. GetMerkleBranch sample_block 1 = Some br \<and> CheckMerkleBranch (tx_hash (vtx sample_block ! 1)) br 1 = fst (BuildMerkleTree sample_block)"
  using merkle_branch_verifies [of 1 sample_block] by simp

text \<open>
  C40: A partial Merkle tree proves exactly the selected transactions: for every selection of the
  transactions of a block, up to the number of transactions a block can hold and as long as no node of
  the tree equals its sibling, extracting the matches from the tree built for the selection succeeds,
  returns the Merkle root and the selected hashes in their order.
\<close>

theorem partial_tree_extracts:
  assumes "xs \<noteq> []" "length xs \<le> unat (MAX_BLOCK_SIZE div 60)" "length m = length xs"
    "\<And>h k. 2 * k + 1 < width (length xs) h \<Longrightarrow> level_at xs h ! (2 * k) \<noteq> level_at xs h ! (2 * k + 1)"
  shows "ExtractMatches (CPartialMerkleTree_of xs m) =
    (merkle_root xs, map fst (filter snd (zip xs m)), CPartialMerkleTree_of xs m)"
  using ExtractMatches_built [OF assms] matched_all [OF assms(3)] by simp

theorem partial_tree_extracts_witness:
  "fst (snd (ExtractMatches (CPartialMerkleTree_of [replicate 32 1, replicate 32 2] [False, True]))) = [replicate 32 2]"
proof -
  let ?xs = "[replicate 32 1, replicate 32 2] :: uint256 list"
  have only: "h = 0 \<and> k = 0" if "2 * k + 1 < width 2 h" for h k
  proof -
    have "(2 * k + 1) * 2 ^ h < 2" using that by (simp add: width_less)
    moreover have "(2 * k + 1) * 1 \<le> (2 * k + 1) * 2 ^ h" by (rule mult_le_mono2) simp
    ultimately have "(2 * k + 1) * 1 < 2" by (rule order_le_less_trans [rotated])
    then have k: "k = 0" by simp
    then have "(2::nat) ^ h < 2 ^ 1" using \<open>(2 * k + 1) * 2 ^ h < 2\<close> by simp
    then have "h < 1" by (simp only: power_strict_increasing_iff)
    then show ?thesis using k by simp
  qed
  have "level_at ?xs h ! (2 * k) \<noteq> level_at ?xs h ! (2 * k + 1)" if "2 * k + 1 < width (length ?xs) h" for h k
  proof -
    from that have "2 * k + 1 < width 2 h" by (simp add: numeral_2_eq_2)
    then have "h = 0 \<and> k = 0" by (rule only)
    then show ?thesis by simp
  qed
  from partial_tree_extracts [OF _ _ _ this, of "[False, True]"] show ?thesis by (simp add: MAX_BLOCK_SIZE_def)
qed

end
