(* ===== verification/Chain.thy ===== *)
theory Chain
  imports Uint256
begin

text \<open>
  The block index of \<^verbatim>\<open>src/chain.h\<close> and \<^verbatim>\<open>src/chain.cpp\<close>.
  The C++ objects point at each other (\<open>pprev\<close>, \<open>pskip\<close>) and at entries of a chain vector, so
  they live in an explicit store: a pointer is a number, and the store maps a pointer to the
  object. \<open>NULL\<close> is \<open>None\<close>. Following a null or dangling pointer is undefined in C++ and
  is the result \<open>None\<close> of the operations below; their result is \<open>Some\<close> of the value otherwise.
\<close>

section \<open>Block index entries\<close>

type_synonym block_ptr = nat

record CBlockIndex =
  bi_hashBlock :: uint256
  bi_pprev :: "block_ptr option"
  bi_pskip :: "block_ptr option"
  bi_nHeight :: int
  bi_nFile :: int
  bi_nDataPos :: u32
  bi_nUndoPos :: u32
  bi_nChainWork :: base_uint
  bi_nTx :: u32
  bi_nChainTx :: u32
  bi_nStatus :: u32
  bi_hashAnchor :: uint256
  bi_hashAnchorEnd :: uint256
  bi_nSproutValue :: "int option"
  bi_nChainSproutValue :: "int option"
  bi_nVersion :: int
  bi_hashMerkleRoot :: uint256
  bi_hashReserved :: uint256
  bi_nTime :: u32
  bi_nBits :: u32
  bi_nNonce :: uint256
  bi_nSolution :: bytes
  bi_nSequenceId :: u32
  bi_nArrivalTime :: int

type_synonym block_store = "block_ptr \<Rightarrow> CBlockIndex option"

definition CBlockIndex_SetNull :: CBlockIndex where
  "CBlockIndex_SetNull = \<lparr>
     bi_hashBlock = [], bi_pprev = None, bi_pskip = None, bi_nHeight = 0, bi_nFile = 0,
     bi_nDataPos = 0, bi_nUndoPos = 0, bi_nChainWork = uint_zero, bi_nTx = 0, bi_nChainTx = 0,
     bi_nStatus = 0, bi_hashAnchor = uint256_null, bi_hashAnchorEnd = uint256_null,
     bi_nSproutValue = None, bi_nChainSproutValue = None,
     bi_nVersion = 0, bi_hashMerkleRoot = uint256_null, bi_hashReserved = uint256_null,
     bi_nTime = 0, bi_nBits = 0, bi_nNonce = uint256_null, bi_nSolution = [],
     bi_nSequenceId = 0, bi_nArrivalTime = - 1\<rparr>"

subsection \<open>Validity levels and file positions\<close>

definition BLOCK_VALID_HEADER :: u32 where "BLOCK_VALID_HEADER = 1"
definition BLOCK_VALID_TREE :: u32 where "BLOCK_VALID_TREE = 2"
definition BLOCK_VALID_TRANSACTIONS :: u32 where "BLOCK_VALID_TRANSACTIONS = 3"
definition BLOCK_VALID_CHAIN :: u32 where "BLOCK_VALID_CHAIN = 4"
definition BLOCK_VALID_SCRIPTS :: u32 where "BLOCK_VALID_SCRIPTS = 5"
definition BLOCK_VALID_MASK :: u32 where
  "BLOCK_VALID_MASK = BLOCK_VALID_HEADER OR BLOCK_VALID_TREE OR BLOCK_VALID_TRANSACTIONS
     OR BLOCK_VALID_CHAIN OR BLOCK_VALID_SCRIPTS"
definition BLOCK_HAVE_DATA :: u32 where "BLOCK_HAVE_DATA = 8"
definition BLOCK_HAVE_UNDO :: u32 where "BLOCK_HAVE_UNDO = 16"
definition BLOCK_FAILED_VALID :: u32 where "BLOCK_FAILED_VALID = 32"
definition BLOCK_FAILED_CHILD :: u32 where "BLOCK_FAILED_CHILD = 64"
definition BLOCK_FAILED_MASK :: u32 where
  "BLOCK_FAILED_MASK = BLOCK_FAILED_VALID OR BLOCK_FAILED_CHILD"

text \<open>A disk position; \<open>nFile = -1\<close> is the null position.\<close>

record CDiskBlockPos =
  dp_nFile :: int
  dp_nPos :: u32

definition CDiskBlockPos_null :: CDiskBlockPos where
  "CDiskBlockPos_null = \<lparr>dp_nFile = - 1, dp_nPos = 0\<rparr>"

definition CDiskBlockPos_IsNull :: "CDiskBlockPos \<Rightarrow> bool" where
  "CDiskBlockPos_IsNull p = (dp_nFile p = - 1)"

definition GetBlockPos :: "CBlockIndex \<Rightarrow> CDiskBlockPos" where
  "GetBlockPos bi =
     (if bi_nStatus bi AND BLOCK_HAVE_DATA \<noteq> 0
      then \<lparr>dp_nFile = bi_nFile bi, dp_nPos = bi_nDataPos bi\<rparr> else CDiskBlockPos_null)"

definition GetUndoPos :: "CBlockIndex \<Rightarrow> CDiskBlockPos" where
  "GetUndoPos bi =
     (if bi_nStatus bi AND BLOCK_HAVE_UNDO \<noteq> 0
      then \<lparr>dp_nFile = bi_nFile bi, dp_nPos = bi_nUndoPos bi\<rparr> else CDiskBlockPos_null)"

text \<open>\<open>None\<close> is the failed assertion on the requested level.\<close>

definition IsValid :: "CBlockIndex \<Rightarrow> u32 \<Rightarrow> bool option" where
  "IsValid bi nUpTo =
     (if nUpTo AND NOT BLOCK_VALID_MASK \<noteq> 0 then None
      else if bi_nStatus bi AND BLOCK_FAILED_MASK \<noteq> 0 then Some False
      else Some (nUpTo \<le> bi_nStatus bi AND BLOCK_VALID_MASK))"

definition RaiseValidity :: "CBlockIndex \<Rightarrow> u32 \<Rightarrow> (CBlockIndex \<times> bool) option" where
  "RaiseValidity bi nUpTo =
     (if nUpTo AND NOT BLOCK_VALID_MASK \<noteq> 0 then None
      else if bi_nStatus bi AND BLOCK_FAILED_MASK \<noteq> 0 then Some (bi, False)
      else if bi_nStatus bi AND BLOCK_VALID_MASK < nUpTo
      then Some (bi\<lparr>bi_nStatus := (bi_nStatus bi AND NOT BLOCK_VALID_MASK) OR nUpTo\<rparr>, True)
      else Some (bi, False))"

subsection \<open>Median time\<close>

definition nMedianTimeSpan :: nat where "nMedianTimeSpan = 11"

text \<open>
  The times of the block and of its predecessors, at most \<open>n\<close> of them, the block's own time
  first. \<open>None\<close> when a pointer that is not null dangles.
\<close>

fun past_times :: "block_store \<Rightarrow> nat \<Rightarrow> block_ptr option \<Rightarrow> int list option" where
  "past_times st 0 p = Some []"
| "past_times st (Suc n) None = Some []"
| "past_times st (Suc n) (Some p) =
     (case st p of None \<Rightarrow> None
      | Some bi \<Rightarrow> map_option (\<lambda>ts. uint (bi_nTime bi) # ts) (past_times st n (bi_pprev bi)))"

definition GetMedianTimePast :: "block_store \<Rightarrow> block_ptr \<Rightarrow> int option" where
  "GetMedianTimePast st p =
     map_option (\<lambda>ts. sort (rev ts) ! (length ts div 2)) (past_times st nMedianTimeSpan (Some p))"

subsection \<open>The skip list\<close>

definition InvertLowestOne :: "int \<Rightarrow> int" where
  "InvertLowestOne n = n AND (n - 1)"

definition GetSkipHeight :: "int \<Rightarrow> int" where
  "GetSkipHeight height =
     (if height < 2 then 0
      else if height AND 1 \<noteq> 0 then InvertLowestOne (InvertLowestOne (height - 1)) + 1
      else InvertLowestOne height)"

lemma InvertLowestOne_bounds: "0 < n \<Longrightarrow> 0 \<le> InvertLowestOne n \<and> InvertLowestOne n < n"
  using AND_upper2 [of "n - 1" n] by (simp add: InvertLowestOne_def)

lemma GetSkipHeight_bounds: "0 < h \<Longrightarrow> 0 \<le> GetSkipHeight h \<and> GetSkipHeight h < h"
proof (cases "h < 2")
  case False
  show ?thesis
  proof (cases "h AND 1 = 0")
    case True
    with False show ?thesis using InvertLowestOne_bounds [of h] by (simp add: GetSkipHeight_def)
  next
    case odd: False
    define m where "m = InvertLowestOne (h - 1)"
    have m: "0 \<le> m" "m < h - 1" using False InvertLowestOne_bounds [of "h - 1"] by (simp_all add: m_def)
    have "0 \<le> InvertLowestOne m \<and> InvertLowestOne m \<le> m"
      using m InvertLowestOne_bounds [of m] by (cases "m = 0") (auto simp: InvertLowestOne_def)
    with m odd False show ?thesis by (simp add: GetSkipHeight_def m_def [symmetric])
  qed
qed (simp add: GetSkipHeight_def)

function ga_walk :: "block_store \<Rightarrow> nat \<Rightarrow> block_ptr option \<Rightarrow> nat \<Rightarrow> block_ptr option option" where
  "ga_walk st height pindexWalk heightWalk =
     (if heightWalk > height then
        (let heightSkip = GetSkipHeight (int heightWalk);
             heightSkipPrev = GetSkipHeight (int heightWalk - 1)
         in (case pindexWalk of None \<Rightarrow> None
            | Some p \<Rightarrow> (case st p of None \<Rightarrow> None
                | Some bi \<Rightarrow>
                    if bi_pskip bi \<noteq> None \<and>
                       (heightSkip = int height \<or>
                        (heightSkip > int height \<and>
                          \<not> (heightSkipPrev < heightSkip - 2 \<and> heightSkipPrev \<ge> int height)))
                    then ga_walk st height (bi_pskip bi) (nat heightSkip)
                    else ga_walk st height (bi_pprev bi) (heightWalk - 1))))
      else Some pindexWalk)"
  by pat_completeness auto
termination
proof (relation "measure (\<lambda>(st, height, p, heightWalk). heightWalk)", goal_cases)
  case (2 st height pindexWalk heightWalk heightSkip heightSkipPrev p bi)
  then have "0 < int heightWalk" by simp
  then show ?case using 2(2) GetSkipHeight_bounds [of "int heightWalk"] by (simp add: nat_less_iff)
qed auto

declare ga_walk.simps [simp del]

definition GetAncestor :: "block_store \<Rightarrow> block_ptr \<Rightarrow> int \<Rightarrow> block_ptr option option" where
  "GetAncestor st p height =
     (case st p of None \<Rightarrow> None
      | Some bi \<Rightarrow>
          if height > bi_nHeight bi \<or> height < 0 then Some None
          else ga_walk st (nat height) (Some p) (nat (bi_nHeight bi)))"

definition BuildSkip :: "block_store \<Rightarrow> block_ptr \<Rightarrow> block_store option" where
  "BuildSkip st p =
     (case st p of None \<Rightarrow> None
      | Some bi \<Rightarrow> (case bi_pprev bi of None \<Rightarrow> Some st
          | Some q \<Rightarrow> (case GetAncestor st q (GetSkipHeight (bi_nHeight bi)) of None \<Rightarrow> None
              | Some r \<Rightarrow> Some (st(p \<mapsto> bi\<lparr>bi_pskip := r\<rparr>)))))"

section \<open>The active chain\<close>

type_synonym CChain = "block_ptr option list"

definition chain_Genesis :: "CChain \<Rightarrow> block_ptr option" where
  "chain_Genesis vChain = (if length vChain > 0 then vChain ! 0 else None)"

definition chain_Tip :: "CChain \<Rightarrow> block_ptr option" where
  "chain_Tip vChain = (if length vChain > 0 then vChain ! (length vChain - 1) else None)"

definition chain_at :: "CChain \<Rightarrow> int \<Rightarrow> block_ptr option" where
  "chain_at vChain nHeight =
     (if nHeight < 0 \<or> nHeight \<ge> int (length vChain) then None else vChain ! nat nHeight)"

definition chain_Contains :: "block_store \<Rightarrow> CChain \<Rightarrow> block_ptr \<Rightarrow> bool option" where
  "chain_Contains st vChain p =
     map_option (\<lambda>bi. chain_at vChain (bi_nHeight bi) = Some p) (st p)"

definition chain_Next :: "block_store \<Rightarrow> CChain \<Rightarrow> block_ptr \<Rightarrow> block_ptr option option" where
  "chain_Next st vChain p =
     (case st p of None \<Rightarrow> None
      | Some bi \<Rightarrow> Some (if chain_at vChain (bi_nHeight bi) = Some p
                        then chain_at vChain (bi_nHeight bi + 1) else None))"

definition chain_Height :: "CChain \<Rightarrow> int" where
  "chain_Height vChain = int (length vChain) - 1"

definition resize :: "nat \<Rightarrow> 'a \<Rightarrow> 'a list \<Rightarrow> 'a list" where
  "resize n x xs = take n xs @ replicate (n - length xs) x"

text \<open>
  The loop of \<open>SetTip\<close> moves to the predecessor each time; \<open>fuel\<close> bounds it, and a run that
  exhausts the fuel gives \<open>None\<close> like a bad pointer or an index out of the vector.
\<close>

fun SetTip_loop :: "nat \<Rightarrow> block_store \<Rightarrow> CChain \<Rightarrow> block_ptr option \<Rightarrow> CChain option" where
  "SetTip_loop fuel st vChain None = Some vChain"
| "SetTip_loop 0 st vChain (Some p) = None"
| "SetTip_loop (Suc fuel) st vChain (Some p) =
     (case st p of None \<Rightarrow> None
      | Some bi \<Rightarrow>
          if \<not> (0 \<le> bi_nHeight bi \<and> nat (bi_nHeight bi) < length vChain) then None
          else if vChain ! nat (bi_nHeight bi) = Some p then Some vChain
          else SetTip_loop fuel st (vChain[nat (bi_nHeight bi) := Some p]) (bi_pprev bi))"

definition SetTip :: "block_store \<Rightarrow> CChain \<Rightarrow> block_ptr option \<Rightarrow> CChain option" where
  "SetTip st vChain pindex =
     (case pindex of None \<Rightarrow> Some []
      | Some p \<Rightarrow> (case st p of None \<Rightarrow> None
          | Some bi \<Rightarrow>
              let n = nat (bi_nHeight bi + 1)
              in SetTip_loop (n + 1) st (resize n None vChain) (Some p)))"

fun FindFork_loop :: "nat \<Rightarrow> block_store \<Rightarrow> CChain \<Rightarrow> block_ptr option \<Rightarrow> block_ptr option option" where
  "FindFork_loop fuel st vChain None = Some None"
| "FindFork_loop 0 st vChain (Some p) = None"
| "FindFork_loop (Suc fuel) st vChain (Some p) =
     (case st p of None \<Rightarrow> None
      | Some bi \<Rightarrow> if chain_at vChain (bi_nHeight bi) = Some p then Some (Some p)
                  else FindFork_loop fuel st vChain (bi_pprev bi))"

definition FindFork :: "block_store \<Rightarrow> CChain \<Rightarrow> block_ptr \<Rightarrow> block_ptr option option" where
  "FindFork st vChain p =
     (case st p of None \<Rightarrow> None
      | Some bi \<Rightarrow>
          (case (if bi_nHeight bi > chain_Height vChain
                 then GetAncestor st p (chain_Height vChain) else Some (Some p)) of
             None \<Rightarrow> None
           | Some q \<Rightarrow> FindFork_loop (nat (bi_nHeight bi) + 2) st vChain q))"

fun GetLocator_loop ::
  "nat \<Rightarrow> block_store \<Rightarrow> CChain \<Rightarrow> int \<Rightarrow> uint256 list \<Rightarrow> block_ptr option \<Rightarrow> uint256 list option" where
  "GetLocator_loop fuel st vChain nStep vHave None = Some vHave"
| "GetLocator_loop 0 st vChain nStep vHave (Some p) = None"
| "GetLocator_loop (Suc fuel) st vChain nStep vHave (Some p) =
     (case st p of None \<Rightarrow> None
      | Some bi \<Rightarrow>
          let vHave1 = vHave @ [bi_hashBlock bi] in
          if bi_nHeight bi = 0 then Some vHave1
          else let nHeight = max (bi_nHeight bi - nStep) 0;
                   nStep1 = (if length vHave1 > 10 then nStep * 2 else nStep)
               in (case (if chain_at vChain (bi_nHeight bi) = Some p
                         then Some (chain_at vChain nHeight) else GetAncestor st p nHeight) of
                     None \<Rightarrow> None
                   | Some q \<Rightarrow> GetLocator_loop fuel st vChain nStep1 vHave1 q))"

definition GetLocator :: "block_store \<Rightarrow> CChain \<Rightarrow> block_ptr option \<Rightarrow> uint256 list option" where
  "GetLocator st vChain pindex =
     (let q = (case pindex of None \<Rightarrow> chain_Tip vChain | Some p \<Rightarrow> Some p);
          fuel = (case q of None \<Rightarrow> 0
                  | Some p \<Rightarrow> (case st p of None \<Rightarrow> 1 | Some bi \<Rightarrow> nat (bi_nHeight bi) + 1))
      in GetLocator_loop fuel st vChain 1 [] q)"

section \<open>Ancestors by following the predecessor\<close>

text \<open>The reference definition: \<open>n\<close> steps along \<open>pprev\<close>.\<close>

fun prev_n :: "block_store \<Rightarrow> nat \<Rightarrow> block_ptr \<Rightarrow> block_ptr option" where
  "prev_n st 0 p = Some p"
| "prev_n st (Suc n) p = Option.bind (st p) (\<lambda>bi. Option.bind (bi_pprev bi) (prev_n st n))"

text \<open>
  A well-formed store: heights are not negative, a block without predecessor has height 0, a
  predecessor exists and is one lower, and a skip pointer, where it is set, points to the
  ancestor at the skip height.
\<close>

definition entry_ok :: "block_store \<Rightarrow> block_ptr \<Rightarrow> CBlockIndex \<Rightarrow> bool" where
  "entry_ok st p bi \<longleftrightarrow>
     0 \<le> bi_nHeight bi \<and>
     (case bi_pprev bi of None \<Rightarrow> bi_nHeight bi = 0
      | Some q \<Rightarrow> (\<exists>bq. st q = Some bq \<and> bi_nHeight bi = bi_nHeight bq + 1)) \<and>
     (bi_pskip bi = None \<or> bi_nHeight bi > 0 \<and>
      bi_pskip bi = prev_n st (nat (bi_nHeight bi - GetSkipHeight (bi_nHeight bi))) p)"

definition store_ok :: "block_store \<Rightarrow> bool" where
  "store_ok st \<longleftrightarrow> (\<forall>p bi. st p = Some bi \<longrightarrow> entry_ok st p bi)"

lemma store_okD:
  assumes "store_ok st" "st p = Some bi"
  shows "0 \<le> bi_nHeight bi"
    and "bi_pprev bi = None \<Longrightarrow> bi_nHeight bi = 0"
    and "bi_pprev bi = Some q \<Longrightarrow> \<exists>bq. st q = Some bq \<and> bi_nHeight bi = bi_nHeight bq + 1"
    and "bi_pskip bi \<noteq> None \<Longrightarrow> bi_nHeight bi > 0 \<and>
      bi_pskip bi = prev_n st (nat (bi_nHeight bi - GetSkipHeight (bi_nHeight bi))) p"
proof -
  have "entry_ok st p bi" using assms by (simp add: store_ok_def)
  then show "0 \<le> bi_nHeight bi"
    and "bi_pprev bi = None \<Longrightarrow> bi_nHeight bi = 0"
    and "bi_pprev bi = Some q \<Longrightarrow> \<exists>bq. st q = Some bq \<and> bi_nHeight bi = bi_nHeight bq + 1"
    and "bi_pskip bi \<noteq> None \<Longrightarrow> bi_nHeight bi > 0 \<and>
      bi_pskip bi = prev_n st (nat (bi_nHeight bi - GetSkipHeight (bi_nHeight bi))) p"
    by (auto simp: entry_ok_def)
qed

lemma prev_n_height:
  assumes "store_ok st" "st p = Some bi" "int n \<le> bi_nHeight bi"
  shows "\<exists>q bq. prev_n st n p = Some q \<and> st q = Some bq \<and> bi_nHeight bq = bi_nHeight bi - int n"
  using assms(2,3)
proof (induction n arbitrary: p bi)
  case (Suc n)
  then obtain q where q: "bi_pprev bi = Some q"
    using store_okD(2) [OF assms(1), of p bi] by (cases "bi_pprev bi") auto
  then obtain bq where bq: "st q = Some bq" "bi_nHeight bi = bi_nHeight bq + 1"
    using store_okD(3) [OF assms(1) Suc.prems(1)] by blast
  then show ?case using Suc.IH [of q bq] Suc.prems q by auto
qed simp

lemma prev_n_add: "prev_n st (m + n) p = Option.bind (prev_n st m p) (prev_n st n)"
  by (induction m arbitrary: p) (auto split: bind_splits)

lemma ga_walk_correct:
  assumes "store_ok st" "st p = Some bi" "bi_nHeight bi = int heightWalk" "height \<le> heightWalk"
  shows "ga_walk st height (Some p) heightWalk = Some (prev_n st (heightWalk - height) p)"
  using assms(2-4)
proof (induction heightWalk arbitrary: p bi rule: less_induct)
  case (less h)
  show ?case
  proof (cases "h > height")
    case True
    let ?s = "GetSkipHeight (int h)" and ?sp = "GetSkipHeight (int h - 1)"
    let ?follow = "bi_pskip bi \<noteq> None \<and> (?s = int height \<or>
      (?s > int height \<and> \<not> (?sp < ?s - 2 \<and> ?sp \<ge> int height)))"
    have s: "0 \<le> ?s" "?s < int h" using GetSkipHeight_bounds [of "int h"] True by auto
    show ?thesis
    proof (cases ?follow)
      case follow: True
      have skip: "bi_pskip bi = prev_n st (nat (int h - ?s)) p"
        using store_okD(4) [OF assms(1) less.prems(1)] follow less.prems(2) by simp
      obtain q bq where q: "prev_n st (nat (int h - ?s)) p = Some q" "st q = Some bq"
        "bi_nHeight bq = int (nat ?s)"
        using prev_n_height [OF assms(1) less.prems(1), of "nat (int h - ?s)"] less.prems(2) s by auto
      have "ga_walk st height (Some p) h = ga_walk st height (Some q) (nat ?s)"
        using True follow less.prems skip q by (subst ga_walk.simps) (simp add: Let_def)
      also have "\<dots> = Some (prev_n st (nat ?s - height) q)"
        using less.IH [of "nat ?s" q bq] q s follow by (auto simp: nat_less_iff)
      also have "prev_n st (nat ?s - height) q = prev_n st (nat (int h - ?s) + (nat ?s - height)) p"
        using q by (simp add: prev_n_add)
      also have "nat (int h - ?s) + (nat ?s - height) = h - height"
        using s follow by auto
      finally show ?thesis .
    next
      case False
      obtain q bq where q: "bi_pprev bi = Some q" "st q = Some bq" "bi_nHeight bq = int (h - 1)"
        using store_okD(2,3) [OF assms(1) less.prems(1)] less.prems(2) True
        by (cases "bi_pprev bi") auto
      have "ga_walk st height (Some p) h = ga_walk st height (Some q) (h - 1)"
        using True False less.prems q by (subst ga_walk.simps) (auto simp: Let_def)
      also have "\<dots> = Some (prev_n st (h - 1 - height) q)"
        using less.IH [of "h - 1" q bq] q True by simp
      also have "prev_n st (h - 1 - height) q = prev_n st (Suc (h - 1 - height)) p"
        using q less.prems by simp
      finally show ?thesis using True by (simp add: Suc_diff_Suc)
    qed
  next
    case False
    then have "h = height" using less.prems by simp
    with False show ?thesis by (subst ga_walk.simps) simp
  qed
qed

lemma GetAncestor_correct:
  assumes "store_ok st" "st p = Some bi" "0 \<le> height" "height \<le> bi_nHeight bi"
  shows "GetAncestor st p height = Some (prev_n st (nat (bi_nHeight bi - height)) p)"
  using ga_walk_correct [OF assms(1,2), of "nat (bi_nHeight bi)" "nat height"] assms
  by (simp add: GetAncestor_def nat_diff_distrib)

lemma GetAncestor_out_of_range:
  "st p = Some bi \<Longrightarrow> height < 0 \<or> bi_nHeight bi < height \<Longrightarrow> GetAncestor st p height = Some None"
  by (auto simp: GetAncestor_def)

subsection \<open>Building the skip pointer\<close>

lemma prev_n_cong:
  assumes "\<And>r. map_option bi_pprev (st' r) = map_option bi_pprev (st r)"
  shows "prev_n st' n p = prev_n st n p"
proof (induction n arbitrary: p)
  case (Suc n)
  show ?case using assms [of p] Suc by (cases "st p"; cases "st' p") (auto split: bind_splits)
qed simp

lemma BuildSkip_ok:
  assumes "store_ok st" "st p = Some bi"
  shows "\<exists>st'. BuildSkip st p = Some st' \<and> store_ok st' \<and>
    (bi_pprev bi \<noteq> None \<longrightarrow>
      (\<exists>r. prev_n st (nat (bi_nHeight bi - GetSkipHeight (bi_nHeight bi))) p = Some r \<and>
           st' = st(p \<mapsto> bi\<lparr>bi_pskip := Some r\<rparr>)))"
proof (cases "bi_pprev bi")
  case None
  then show ?thesis using assms by (simp add: BuildSkip_def)
next
  case (Some q)
  define h where "h = bi_nHeight bi"
  obtain bq where bq: "st q = Some bq" "h = bi_nHeight bq + 1"
    using store_okD(3) [OF assms Some] by (auto simp: h_def)
  have h: "0 < h" "0 \<le> GetSkipHeight h" "GetSkipHeight h < h"
    using bq store_okD(1) [OF assms(1) bq(1)] GetSkipHeight_bounds [of h] by auto
  have "GetAncestor st q (GetSkipHeight h) = Some (prev_n st (nat (h - 1 - GetSkipHeight h)) q)"
    using GetAncestor_correct [OF assms(1) bq(1), of "GetSkipHeight h"] bq h by simp
  moreover have "prev_n st (nat (h - 1 - GetSkipHeight h)) q = prev_n st (nat (h - GetSkipHeight h)) p"
  proof -
    have "nat (h - GetSkipHeight h) = Suc (nat (h - 1 - GetSkipHeight h))" using h by simp
    then show ?thesis using Some assms(2) by simp
  qed
  moreover obtain r where r: "prev_n st (nat (h - GetSkipHeight h)) p = Some r"
    using prev_n_height [OF assms, of "nat (h - GetSkipHeight h)"] h by (auto simp: h_def)
  ultimately have b: "BuildSkip st p = Some (st(p \<mapsto> bi\<lparr>bi_pskip := Some r\<rparr>))"
    using Some assms(2) by (simp add: BuildSkip_def h_def)
  define st' where "st' = st(p \<mapsto> bi\<lparr>bi_pskip := Some r\<rparr>)"
  have walk: "prev_n st' n x = prev_n st n x" for n x
    by (rule prev_n_cong) (simp add: st'_def assms(2))
  have height: "\<exists>b'. st' x = Some b' \<and> bi_nHeight b' = bi_nHeight b" if "st x = Some b" for x b
    using that assms(2) by (auto simp: st'_def)
  have "entry_ok st' x b" if "st' x = Some b" for x b
  proof (cases "x = p")
    case True
    then have b: "b = bi\<lparr>bi_pskip := Some r\<rparr>" using that by (simp add: st'_def)
    then show ?thesis
      using True Some h r height [OF bq(1)] bq(2) by (auto simp: entry_ok_def walk h_def)
  next
    case False
    then have x: "st x = Some b" using that by (simp add: st'_def)
    have e: "entry_ok st x b" using assms(1) x by (simp add: store_ok_def)
    then show ?thesis using height by (fastforce simp: entry_ok_def walk split: option.splits)
  qed
  then have "store_ok st'" by (simp add: store_ok_def)
  with b r show ?thesis by (auto simp: st'_def h_def)
qed

section \<open>The active chain is the path to its tip\<close>

definition linked :: "block_store \<Rightarrow> CChain \<Rightarrow> nat \<Rightarrow> block_ptr option \<Rightarrow> bool" where
  "linked st c h prev \<longleftrightarrow>
     (\<exists>p b. c ! h = Some p \<and> st p = Some b \<and> bi_nHeight b = int h \<and> (0 < h \<longrightarrow> bi_pprev b = prev))"

definition chain_ok :: "block_store \<Rightarrow> CChain \<Rightarrow> bool" where
  "chain_ok st c \<longleftrightarrow> (\<forall>h < length c. linked st c h (c ! (h - 1)))"

lemma chain_ok_prev_n:
  assumes "chain_ok st c" "k < length c" "c ! k = Some p" "h \<le> k"
  shows "c ! h = prev_n st (k - h) p"
  using assms(2-4)
proof (induction k arbitrary: p)
  case (Suc k)
  show ?case
  proof (cases "h = Suc k")
    case False
    obtain b where b: "st p = Some b" "bi_pprev b = c ! k"
      using assms(1) Suc.prems by (auto simp: chain_ok_def linked_def)
    obtain q where q: "c ! k = Some q"
      using assms(1) Suc.prems by (auto simp: chain_ok_def linked_def dest: spec [of _ k])
    have "c ! h = prev_n st (k - h) q" using Suc.IH [OF _ q] Suc.prems False by simp
    then show ?thesis using b q Suc.prems False by (simp add: Suc_diff_le)
  qed (use Suc.prems in simp)
qed simp

lemma prefix_filled:
  assumes "\<forall>h \<le> k. c ! h = None \<or> linked st c h (c ! (h - 1)) \<and> (0 < h \<longrightarrow> c ! (h - 1) \<noteq> None)"
    and "c ! k \<noteq> None" "h \<le> k"
  shows "c ! h \<noteq> None"
  using assms
proof (induction k)
  case (Suc k)
  show ?case
  proof (cases "h = Suc k")
    case False
    have "c ! k \<noteq> None" using Suc.prems(1,2) by (auto dest: spec [of _ "Suc k"])
    then show ?thesis using Suc False by simp
  qed (use Suc.prems in simp)
qed simp

lemma SetTip_loop_ok:
  assumes "store_ok st" "st q = Some bq" "bi_nHeight bq = int k" "k < length c" "k < fuel"
    and "\<forall>h. k < h \<and> h < length c \<longrightarrow> linked st c h (if h = Suc k then Some q else c ! (h - 1))"
    and "\<forall>h \<le> k. c ! h = None \<or> linked st c h (c ! (h - 1)) \<and> (0 < h \<longrightarrow> c ! (h - 1) \<noteq> None)"
  shows "\<exists>c'. SetTip_loop fuel st c (Some q) = Some c' \<and> chain_ok st c' \<and> length c' = length c \<and>
    (\<forall>h. k < h \<longrightarrow> c' ! h = c ! h) \<and> c' ! k = Some q"
  using assms(2-)
proof (induction k arbitrary: q bq c fuel)
  case 0
  then obtain f where f: "fuel = Suc f" by (cases fuel) auto
  show ?case
  proof (cases "c ! 0 = Some q")
    case True
    have "chain_ok st c"
      unfolding chain_ok_def
    proof (intro allI impI)
      fix h assume "h < length c"
      then show "linked st c h (c ! (h - 1))"
        using 0 True by (cases h) (auto simp: linked_def)
    qed
    with True 0 f show ?thesis by simp
  next
    case False
    have prev: "bi_pprev bq = None"
      using store_okD(1,3) [OF assms(1)] 0 by (cases "bi_pprev bq") fastforce+
    have "chain_ok st (c[0 := Some q])"
      unfolding chain_ok_def
    proof (intro allI impI)
      fix h assume "h < length (c[0 := Some q])"
      then show "linked st (c[0 := Some q]) h (c[0 := Some q] ! (h - 1))"
        using 0 by (cases h) (auto simp: linked_def nth_list_update split: if_splits)
    qed
    with False 0 f prev show ?thesis by simp
  qed
next
  case (Suc k)
  then obtain f where f: "fuel = Suc f" by (cases fuel) auto
  show ?case
  proof (cases "c ! Suc k = Some q")
    case True
    have "chain_ok st c"
      unfolding chain_ok_def
    proof (intro allI impI)
      fix h assume "h < length c"
      show "linked st c h (c ! (h - 1))"
      proof (cases "h \<le> Suc k")
        case le: True
        then have "c ! h \<noteq> None"
          using prefix_filled [OF Suc.prems(6)] True by simp
        then show ?thesis using Suc.prems(6) [rule_format, OF le] by auto
      next
        case False
        then show ?thesis using Suc.prems(5) True \<open>h < length c\<close> by (auto split: if_splits)
      qed
    qed
    with True Suc.prems f show ?thesis by (auto simp: nat_add_distrib)
  next
    case False
    obtain r br where r: "bi_pprev bq = Some r" "st r = Some br" "bi_nHeight br = int k"
      using store_okD(2,3) [OF assms(1) Suc.prems(1)] Suc.prems(2) by (cases "bi_pprev bq") auto
    let ?c = "c[Suc k := Some q]"
    have above: "\<forall>h. k < h \<and> h < length ?c \<longrightarrow> linked st ?c h (if h = Suc k then Some r else ?c ! (h - 1))"
      using Suc.prems r by (auto simp: linked_def nth_list_update split: if_splits)
    have below: "\<forall>h \<le> k. ?c ! h = None \<or> linked st ?c h (?c ! (h - 1)) \<and> (0 < h \<longrightarrow> ?c ! (h - 1) \<noteq> None)"
    proof (intro allI impI)
      fix h assume "h \<le> k"
      then show "?c ! h = None \<or> linked st ?c h (?c ! (h - 1)) \<and> (0 < h \<longrightarrow> ?c ! (h - 1) \<noteq> None)"
        using Suc.prems(6) [rule_format, of h] by (auto simp: linked_def)
    qed
    obtain c' where c': "SetTip_loop f st ?c (Some r) = Some c'" "chain_ok st c'"
      "length c' = length c" "\<forall>h. k < h \<longrightarrow> c' ! h = ?c ! h"
      using Suc.IH [of r br ?c f] r Suc.prems f above below by auto
    have "SetTip_loop fuel st c (Some q) = Some c'"
      using f False Suc.prems r c' by (simp add: nat_add_distrib)
    moreover have "c' ! Suc k = Some q" using c'(4) Suc.prems(3) by simp
    moreover have "\<forall>h. Suc k < h \<longrightarrow> c' ! h = c ! h" using c'(4) by simp
    ultimately show ?thesis using c' by blast
  qed
qed

lemma SetTip_ok:
  assumes "store_ok st" "chain_ok st c" "st p = Some bi"
  shows "\<exists>c'. SetTip st c (Some p) = Some c' \<and> chain_ok st c' \<and>
    length c' = nat (bi_nHeight bi) + 1 \<and> chain_Tip c' = Some p"
proof -
  define k where "k = nat (bi_nHeight bi)"
  have k: "bi_nHeight bi = int k" using store_okD(1) [OF assms(1,3)] by (simp add: k_def)
  let ?r = "resize (Suc k) None c"
  have len: "length ?r = Suc k" by (simp add: resize_def)
  have nth: "?r ! h = (if h < length c then c ! h else None)" if "h \<le> k" for h
    using that by (auto simp: resize_def nth_append)
  have "\<forall>h \<le> k. ?r ! h = None \<or> linked st ?r h (?r ! (h - 1)) \<and> (0 < h \<longrightarrow> ?r ! (h - 1) \<noteq> None)"
  proof (intro allI impI)
    fix h assume h: "h \<le> k"
    show "?r ! h = None \<or> linked st ?r h (?r ! (h - 1)) \<and> (0 < h \<longrightarrow> ?r ! (h - 1) \<noteq> None)"
    proof (cases "h < length c")
      case True
      then have "linked st c h (c ! (h - 1))" "linked st c (h - 1) (c ! (h - 1 - 1))"
        using assms(2) [unfolded chain_ok_def, rule_format, of h]
          assms(2) [unfolded chain_ok_def, rule_format, of "h - 1"] by simp_all
      with True h show ?thesis by (auto simp: linked_def nth)
    qed (use h nth in simp)
  qed
  moreover have "\<forall>h. k < h \<and> h < length ?r \<longrightarrow> linked st ?r h (if h = Suc k then Some p else ?r ! (h - 1))"
    using len by auto
  ultimately obtain c' where "SetTip_loop (Suc (Suc k)) st ?r (Some p) = Some c'" "chain_ok st c'"
    "length c' = Suc k" "c' ! k = Some p"
    using SetTip_loop_ok [OF assms(1,3) k, of ?r "Suc (Suc k)"] len
    by (auto simp del: SetTip_loop.simps)
  then show ?thesis
    using assms(3) k
    by (auto simp: SetTip_def Let_def nat_add_distrib chain_Tip_def simp del: SetTip_loop.simps)
qed

subsection \<open>Forks\<close>

definition on_chain :: "block_store \<Rightarrow> CChain \<Rightarrow> block_ptr \<Rightarrow> bool" where
  "on_chain st c p \<longleftrightarrow> chain_Contains st c p = Some True"

text \<open>\<open>f\<close> is the first block on the chain on the way down from \<open>p\<close>, if there is one.\<close>

definition fork_of :: "block_store \<Rightarrow> CChain \<Rightarrow> block_ptr \<Rightarrow> block_ptr option \<Rightarrow> bool" where
  "fork_of st c p f \<longleftrightarrow>
     (case f of
        None \<Rightarrow> \<forall>n q. prev_n st n p = Some q \<longrightarrow> \<not> on_chain st c q
      | Some q \<Rightarrow> on_chain st c q \<and>
          (\<exists>n. prev_n st n p = Some q \<and>
               (\<forall>m < n. \<forall>r. prev_n st m p = Some r \<longrightarrow> \<not> on_chain st c r)))"

lemma fork_of_self: "on_chain st c p \<Longrightarrow> fork_of st c p (Some p)"
  by (auto simp: fork_of_def intro!: exI [of _ 0])

lemma fork_of_step:
  assumes "\<not> on_chain st c p" "st p = Some b" "bi_pprev b = Some q" "fork_of st c q f"
  shows "fork_of st c p f"
proof -
  have step: "prev_n st (Suc n) p = prev_n st n q" for n using assms(2,3) by simp
  show ?thesis
  proof (cases f)
    case None
    have "\<not> on_chain st c r" if "prev_n st n p = Some r" for n r
      using that assms(1,4) None step by (cases n) (auto simp: fork_of_def)
    then show ?thesis by (simp add: fork_of_def None)
  next
    case (Some g)
    then obtain n where n: "prev_n st n q = Some g" "on_chain st c g"
      "\<forall>m < n. \<forall>r. prev_n st m q = Some r \<longrightarrow> \<not> on_chain st c r"
      using assms(4) by (auto simp: fork_of_def)
    have "\<not> on_chain st c r" if "m < Suc n" "prev_n st m p = Some r" for m r
      using that assms(1) n(3) step by (cases m) auto
    then show ?thesis using n step [of n] Some by (auto simp: fork_of_def intro!: exI [of _ "Suc n"])
  qed
qed

lemma fork_of_end:
  assumes "\<not> on_chain st c p" "st p = Some b" "bi_pprev b = None"
  shows "fork_of st c p None"
proof -
  have "\<not> on_chain st c r" if "prev_n st n p = Some r" for n r
    using that assms by (cases n) auto
  then show ?thesis by (simp add: fork_of_def)
qed

lemma FindFork_loop_ok:
  assumes "store_ok st" "st q = Some bq" "bi_nHeight bq = int k" "k < fuel"
  shows "\<exists>f. FindFork_loop fuel st c (Some q) = Some f \<and> fork_of st c q f"
  using assms(2-)
proof (induction fuel arbitrary: q bq k)
  case (Suc fuel)
  show ?case
  proof (cases "on_chain st c q")
    case True
    then show ?thesis
      using Suc.prems fork_of_self [of st c q] by (auto simp: on_chain_def chain_Contains_def)
  next
    case False
    then have go: "FindFork_loop (Suc fuel) st c (Some q) = FindFork_loop fuel st c (bi_pprev bq)"
      using Suc.prems by (auto simp: on_chain_def chain_Contains_def)
    show ?thesis
    proof (cases "bi_pprev bq")
      case None
      then show ?thesis using go fork_of_end [OF False Suc.prems(1)] by simp
    next
      case (Some r)
      obtain br where br: "st r = Some br" "bi_nHeight bq = bi_nHeight br + 1"
        using store_okD(3) [OF assms(1) Suc.prems(1) Some] by blast
      have "bi_nHeight br = int (k - 1)" "k - 1 < fuel"
        using br Suc.prems store_okD(1) [OF assms(1) br(1)] by auto
      then obtain f where "FindFork_loop fuel st c (Some r) = Some f" "fork_of st c r f"
        using Suc.IH [OF br(1)] by blast
      then show ?thesis using go Some fork_of_step [OF False Suc.prems(1) Some] by simp
    qed
  qed
qed simp

lemma fork_of_skip:
  assumes "store_ok st" "st p = Some b" "int (length c) - 1 \<le> bi_nHeight b - int n"
    "int n \<le> bi_nHeight b" "prev_n st n p = Some q" "fork_of st c q f"
  shows "fork_of st c p f"
  using assms(2-5)
proof (induction n arbitrary: p b)
  case 0
  with assms(6) show ?case by simp
next
  case (Suc n)
  obtain r br where r: "bi_pprev b = Some r" "st r = Some br" "bi_nHeight b = bi_nHeight br + 1"
    using store_okD(2,3) [OF assms(1) Suc.prems(1)] Suc.prems(3) by (cases "bi_pprev b") auto
  have "\<not> on_chain st c p"
    using Suc.prems by (auto simp: on_chain_def chain_Contains_def chain_at_def)
  moreover have "fork_of st c r f" using Suc.IH [OF r(2)] Suc.prems r by simp
  ultimately show ?case using fork_of_step [of st c p b r f] Suc.prems(1) r(1) by simp
qed

lemma FindFork_ok:
  assumes "store_ok st" "st p = Some bi"
  shows "\<exists>f. FindFork st c p = Some f \<and> fork_of st c p f"
proof (cases "bi_nHeight bi > chain_Height c \<and> c \<noteq> []")
  case True
  define n where "n = nat (bi_nHeight bi - chain_Height c)"
  have n: "int n = bi_nHeight bi - chain_Height c" "0 \<le> chain_Height c" "int n \<le> bi_nHeight bi"
    using True by (auto simp: n_def chain_Height_def Suc_le_eq)
  obtain q bq where q: "prev_n st n p = Some q" "st q = Some bq" "bi_nHeight bq = chain_Height c"
    using prev_n_height [OF assms, of n] n by auto
  have "GetAncestor st p (chain_Height c) = Some (Some q)"
    using GetAncestor_correct [OF assms, of "chain_Height c"] n True q(1) by (simp add: n_def)
  moreover have "bi_nHeight bq = int (nat (chain_Height c))" "nat (chain_Height c) < nat (bi_nHeight bi) + 2"
    using q(3) n True by linarith+
  then obtain f where f: "FindFork_loop (nat (bi_nHeight bi) + 2) st c (Some q) = Some f"
    "fork_of st c q f"
    using FindFork_loop_ok [OF assms(1) q(2)] by blast
  moreover note f(1)
  moreover have "fork_of st c p f"
    using fork_of_skip [OF assms(1,2) _ _ q(1) f(2)] n by (simp add: chain_Height_def)
  ultimately show ?thesis using True assms(2) by (simp add: FindFork_def del: FindFork_loop.simps)
next
  case False
  show ?thesis
  proof (cases "c = []")
    case True
    then have "FindFork st c p = Some None"
      using assms store_okD(1) [OF assms] by (simp add: FindFork_def chain_Height_def GetAncestor_def)
    moreover have "fork_of st c p None"
      using True by (auto simp: fork_of_def on_chain_def chain_Contains_def chain_at_def)
    ultimately show ?thesis by blast
  next
    case ne: False
    with False have "\<not> bi_nHeight bi > chain_Height c" by simp
    then show ?thesis
      using FindFork_loop_ok [OF assms, of "nat (bi_nHeight bi)" "nat (bi_nHeight bi) + 2" c]
        store_okD(1) [OF assms] assms(2) by (simp add: FindFork_def del: FindFork_loop.simps)
  qed
qed

subsection \<open>Locators\<close>

definition anc_hash :: "block_store \<Rightarrow> block_ptr \<Rightarrow> nat \<Rightarrow> uint256" where
  "anc_hash st p n = (case Option.bind (prev_n st n p) st of Some b \<Rightarrow> bi_hashBlock b | None \<Rightarrow> [])"

lemma anc_hash_add: "prev_n st m p = Some q \<Longrightarrow> anc_hash st q n = anc_hash st p (m + n)"
  by (simp add: anc_hash_def prev_n_add)

lemma locator_next:
  assumes "store_ok st" "chain_ok st c" "st p = Some b" "bi_nHeight b = int k" "h \<le> k"
  shows "(if chain_at c (bi_nHeight b) = Some p then Some (chain_at c (int h))
          else GetAncestor st p (int h)) = Some (prev_n st (k - h) p)"
proof (cases "chain_at c (bi_nHeight b) = Some p")
  case True
  then have "k < length c" "c ! k = Some p"
    using assms(4) by (auto simp: chain_at_def split: if_splits)
  then have "c ! h = prev_n st (k - h) p" using chain_ok_prev_n [OF assms(2)] assms(5) by blast
  with True \<open>k < length c\<close> assms(5) show ?thesis by (simp add: chain_at_def)
next
  case False
  then show ?thesis
    using GetAncestor_correct [OF assms(1,3), of "int h"] assms(4,5) by (simp add: nat_diff_distrib)
qed

lemma GetLocator_loop_ok:
  assumes "store_ok st" "chain_ok st c" "st p = Some b" "bi_nHeight b = int k" "k < fuel" "1 \<le> nStep"
  shows "\<exists>ns. GetLocator_loop fuel st c nStep vHave (Some p) = Some (vHave @ map (anc_hash st p) ns) \<and>
    sorted_wrt (<) ns \<and> ns \<noteq> [] \<and> hd ns = 0 \<and> last ns = k"
  using assms(3-)
proof (induction fuel arbitrary: p b k nStep vHave)
  case (Suc fuel)
  have h0: "anc_hash st p 0 = bi_hashBlock b" using Suc.prems(1) by (simp add: anc_hash_def)
  show ?case
  proof (cases "k = 0")
    case True
    then show ?thesis using Suc.prems h0 by (intro exI [of _ "[0]"]) (simp add: Let_def)
  next
    case False
    define h where "h = nat (max (int k - nStep) 0)"
    let ?step = "if length (vHave @ [bi_hashBlock b]) > 10 then nStep * 2 else nStep"
    have h: "int h = max (int k - nStep) 0" "h < k" using False Suc.prems(4) by (auto simp: h_def)
    obtain q bq where q: "prev_n st (k - h) p = Some q" "st q = Some bq" "bi_nHeight bq = int h"
      using prev_n_height [OF assms(1) Suc.prems(1), of "k - h"] Suc.prems(2) h by auto
    have e: "max (bi_nHeight b - nStep) 0 = int h" "bi_nHeight b \<noteq> 0"
      using h(1) Suc.prems(2) False by simp_all
    have nx: "(if chain_at c (bi_nHeight b) = Some p then Some (chain_at c (int h))
        else GetAncestor st p (int h)) = Some (Some q)"
      using locator_next [OF assms(1,2) Suc.prems(1,2), of h] h(2) q(1) by simp
    have "GetLocator_loop (Suc fuel) st c nStep vHave (Some p) =
        GetLocator_loop fuel st c ?step (vHave @ [bi_hashBlock b]) (Some q)"
      by (simp only: GetLocator_loop.simps(3) Suc.prems(1) option.case Let_def e nx if_False)
    moreover obtain ns where ns: "GetLocator_loop fuel st c ?step (vHave @ [bi_hashBlock b]) (Some q) =
        Some ((vHave @ [bi_hashBlock b]) @ map (anc_hash st q) ns)"
      "sorted_wrt (<) ns" "ns \<noteq> []" "hd ns = 0" "last ns = h"
    proof -
      have "h < fuel" "1 \<le> ?step" using h Suc.prems(3,4) by auto
      then show ?thesis using Suc.IH [OF q(2,3)] that by blast
    qed
    moreover have "map (anc_hash st q) ns = map (anc_hash st p) (map ((+) (k - h)) ns)"
      using anc_hash_add [OF q(1)] by simp
    moreover have "sorted_wrt (<) (0 # map ((+) (k - h)) ns)"
      using ns(2) h(2) by (auto simp: sorted_wrt_map elim!: sorted_wrt_mono_rel [rotated])
    moreover have "last (0 # map ((+) (k - h)) ns) = k"
      using ns(3,5) h by (simp add: last_map)
    ultimately show ?thesis
      using h0 by (intro exI [of _ "0 # map ((+) (k - h)) ns"]) simp
  qed
qed simp

text \<open>
  A locator lists block hashes on the way from the start block down to the genesis block, at
  strictly growing distance.
\<close>

lemma GetLocator_ok:
  assumes "store_ok st" "chain_ok st c" "st p = Some b"
  shows "\<exists>ns. GetLocator st c (Some p) = Some (map (anc_hash st p) ns) \<and>
    sorted_wrt (<) ns \<and> ns \<noteq> [] \<and> hd ns = 0 \<and> int (last ns) = bi_nHeight b"
proof -
  have "bi_nHeight b = int (nat (bi_nHeight b))" using store_okD(1) [OF assms(1,3)] by simp
  then obtain ns where "GetLocator_loop (nat (bi_nHeight b) + 1) st c 1 [] (Some p) =
      Some ([] @ map (anc_hash st p) ns)" "sorted_wrt (<) ns" "ns \<noteq> []" "hd ns = 0"
    "last ns = nat (bi_nHeight b)"
    using GetLocator_loop_ok [OF assms, of "nat (bi_nHeight b)" "nat (bi_nHeight b) + 1" 1 "[]"] by auto
  then show ?thesis using assms(3) store_okD(1) [OF assms(1,3)]
    by (intro exI [of _ ns]) (simp add: GetLocator_def Let_def del: GetLocator_loop.simps)
qed

subsection \<open>Median time\<close>

lemma past_times_ok:
  assumes "store_ok st" "st p = Some b"
  shows "\<exists>ts. past_times st (Suc n) (Some p) = Some ts \<and> length ts = min (Suc n) (nat (bi_nHeight b) + 1) \<and>
    ts ! 0 = uint (bi_nTime b)"
  using assms(2)
proof (induction n arbitrary: p b)
  case 0
  then show ?case by simp
next
  case (Suc n)
  show ?case
  proof (cases "bi_pprev b")
    case None
    then show ?thesis using store_okD(2) [OF assms(1) Suc.prems] Suc.prems by simp
  next
    case (Some q)
    obtain bq where bq: "st q = Some bq" "bi_nHeight b = bi_nHeight bq + 1"
      using store_okD(3) [OF assms(1) Suc.prems Some] by blast
    then obtain ts where "past_times st (Suc n) (Some q) = Some ts"
      "length ts = min (Suc n) (nat (bi_nHeight bq) + 1)"
      using Suc.IH by blast
    then show ?thesis using Suc.prems Some bq store_okD(1) [OF assms(1) bq(1)]
      by (auto simp: nat_add_distrib)
  qed
qed

text \<open>
  The median exists for every block and is a median of the collected times: no more than half of
  them are smaller and no more than half are larger.
\<close>

lemma GetMedianTimePast_ok:
  assumes "store_ok st" "st p = Some b"
  shows "\<exists>ts m. past_times st nMedianTimeSpan (Some p) = Some ts \<and> ts \<noteq> [] \<and>
    GetMedianTimePast st p = Some m \<and> m \<in> set ts \<and>
    2 * length (filter (\<lambda>t. t < m) ts) \<le> length ts \<and> 2 * length (filter (\<lambda>t. m < t) ts) \<le> length ts"
proof -
  obtain ts where ts: "past_times st nMedianTimeSpan (Some p) = Some ts" "ts \<noteq> []"
  proof -
    have "nMedianTimeSpan = Suc 10" by (simp add: nMedianTimeSpan_def)
    then obtain ts where "past_times st nMedianTimeSpan (Some p) = Some ts"
      "length ts = min (Suc 10) (nat (bi_nHeight b) + 1)"
      using past_times_ok [OF assms, of 10] by metis
    then show ?thesis using that by (cases ts) auto
  qed
  define s where "s = sort (rev ts)"
  define k where "k = length ts div 2"
  have s: "sorted s" "mset s = mset ts" "length s = length ts" by (simp_all add: s_def)
  have k: "k < length s" using ts(2) s(3) by (simp add: k_def)
  have cnt: "length (filter P ts) = length (filter P s)" for P
    using s(2) by (metis mset_filter size_mset)
  have split: "s = take k s @ s ! k # drop (Suc k) s" using k by (rule id_take_nth_drop)
  have mono: "i \<le> j \<Longrightarrow> j < length s \<Longrightarrow> s ! i \<le> s ! j" for i j
    using sorted_nth_mono [OF s(1)] .
  have lo: "filter (\<lambda>t. t < s ! k) (s ! k # drop (Suc k) s) = []"
    using k mono [of k] by (fastforce simp: filter_empty_conv in_set_conv_nth not_less)
  have hi: "filter (\<lambda>t. s ! k < t) (take k s @ [s ! k]) = []"
    using k mono [of _ k] by (fastforce simp: filter_empty_conv in_set_conv_nth not_less)
  have "length (filter (\<lambda>t. t < s ! k) s) \<le> k"
    using lo by (subst split) (auto intro: order_trans [OF length_filter_le])
  moreover have "length (filter (\<lambda>t. s ! k < t) s) \<le> length s - Suc k"
    using hi by (subst split) (auto intro: order_trans [OF length_filter_le])
  moreover have "s ! k \<in> set ts" using k s(2) by (metis nth_mem set_mset_mset)
  moreover have "2 * k \<le> length ts" "2 * (length s - Suc k) \<le> length ts"
    using s(3) by (auto simp: k_def)
  ultimately show ?thesis
    using ts by (intro exI [of _ ts] exI [of _ "s ! k"])
      (simp add: GetMedianTimePast_def cnt s_def [symmetric] k_def [symmetric])
qed

section \<open>Properties\<close>

text \<open>A chain of twenty-one blocks on which the properties are instantiated.\<close>

definition sample_store :: block_store where
  "sample_store p = (if p \<le> 20 then Some (CBlockIndex_SetNull\<lparr>
     bi_pprev := (if p = 0 then None else Some (p - 1)), bi_nHeight := int p,
     bi_nTime := of_nat (150 * p), bi_nBits := 0x1f07ffff\<rparr>) else None)"

lemma sample_store_ok: "store_ok sample_store"
  by (auto simp: store_ok_def entry_ok_def sample_store_def CBlockIndex_SetNull_def)

lemma sample_store_at: "p \<le> 20 \<Longrightarrow> \<exists>b. sample_store p = Some b \<and> bi_nHeight b = int p"
  by (simp add: sample_store_def)

lemma sample_store_prev: "n \<le> p \<Longrightarrow> p \<le> 20 \<Longrightarrow> prev_n sample_store n p = Some (p - n)"
  by (induction n arbitrary: p) (auto simp: sample_store_def)

text \<open>
  C14: \<open>GetAncestor\<close>, which jumps along the skip pointers, finds the same block as following \<open>pprev\<close>
  one by one, and gives no block for a height below zero or above the block's own.
\<close>

theorem ancestor_by_skipping:
  assumes "store_ok st" "st p = Some bi"
  shows "GetAncestor st p height =
    Some (if 0 \<le> height \<and> height \<le> bi_nHeight bi then prev_n st (nat (bi_nHeight bi - height)) p
          else None)"
  using GetAncestor_correct [OF assms, of height] GetAncestor_out_of_range [of st p bi height]
    assms(2)
  by auto

theorem ancestor_by_skipping_witness: "GetAncestor sample_store 9 4 = Some (Some 4)"
proof -
  obtain b where "sample_store 9 = Some b" "bi_nHeight b = int 9" using sample_store_at [of 9] by auto
  then show ?thesis
    using ancestor_by_skipping [OF sample_store_ok, of 9 b 4] by (simp add: sample_store_prev)
qed

text \<open>
  \<open>BuildSkip\<close> keeps the block index well-formed: it succeeds on every block of it and sets the
  skip pointer of a block with a predecessor to the ancestor at \<open>GetSkipHeight\<close>.
\<close>

theorem skip_pointer_built:
  assumes "store_ok st" "st p = Some bi"
  shows "\<exists>st'. BuildSkip st p = Some st' \<and> store_ok st' \<and>
    (bi_pprev bi \<noteq> None \<longrightarrow>
      (\<exists>r. prev_n st (nat (bi_nHeight bi - GetSkipHeight (bi_nHeight bi))) p = Some r \<and>
           st' = st(p \<mapsto> bi\<lparr>bi_pskip := Some r\<rparr>)))"
  using assms by (rule BuildSkip_ok)

text \<open>
  C15: \<open>CChain::SetTip\<close> moves the active chain to the block given: whatever chain it was before, the
  result holds at each height the ancestor of the new tip, and nothing above it.
\<close>

theorem active_chain_set:
  assumes "store_ok st" "chain_ok st c" "st p = Some bi"
  shows "\<exists>c'. SetTip st c (Some p) = Some c' \<and> chain_ok st c' \<and> chain_Tip c' = Some p \<and>
    length c' = nat (bi_nHeight bi) + 1 \<and>
    (\<forall>h < length c'. c' ! h = prev_n st (nat (bi_nHeight bi) - h) p)"
proof -
  obtain c' where c': "SetTip st c (Some p) = Some c'" "chain_ok st c'"
    "length c' = nat (bi_nHeight bi) + 1" "chain_Tip c' = Some p"
    using SetTip_ok [OF assms] by blast
  have "c' ! (length c' - 1) = Some p" using c'(3,4) by (auto simp: chain_Tip_def last_conv_nth split: if_splits)
  then have "c' ! h = prev_n st (nat (bi_nHeight bi) - h) p" if "h < length c'" for h
    using chain_ok_prev_n [OF c'(2), of "length c' - 1" p h] that c'(3) by simp
  with c' show ?thesis by blast
qed

theorem active_chain_set_witness:
  "\<exists>c'. SetTip sample_store [] (Some 6) = Some c' \<and> chain_ok sample_store c' \<and> length c' = 7"
  using active_chain_set [OF sample_store_ok, of "[]" 6] sample_store_at [of 6]
  by (fastforce simp: chain_ok_def)

text \<open>
  C16: \<open>CChain::FindFork\<close> gives the first block of the active chain that one meets going down from a
  block, and none only if no ancestor is on the chain.
\<close>

theorem fork_found:
  assumes "store_ok st" "st p = Some bi"
  shows "\<exists>f. FindFork st c p = Some f \<and> fork_of st c p f"
  using assms by (rule FindFork_ok)

theorem fork_found_witness:
  "\<exists>f. FindFork sample_store [Some 0, Some 1] 7 = Some f \<and> fork_of sample_store [Some 0, Some 1] 7 f"
  using fork_found [OF sample_store_ok, of 7] sample_store_at [of 7] by auto

text \<open>
  a block locator lists ancestors of its block from the block itself down to genesis, each
  strictly deeper than the one before.
\<close>

theorem locator_descends:
  assumes "store_ok st" "chain_ok st c" "st p = Some b"
  shows "\<exists>ns. GetLocator st c (Some p) = Some (map (anc_hash st p) ns) \<and>
    sorted_wrt (<) ns \<and> ns \<noteq> [] \<and> hd ns = 0 \<and> int (last ns) = bi_nHeight b"
  using assms by (rule GetLocator_ok)



end
