(* ===== verification/Pow.thy ===== *)
theory Pow
  imports Chain "HOL-Library.Signed_Division"
begin

text \<open>
  Proof of work and difficulty adjustment: \<^verbatim>\<open>src/pow.cpp\<close> and the parameters of
  \<^verbatim>\<open>src/consensus/params.h\<close>. Times and spans are \<^verbatim>\<open>int64_t\<close> in the code and integers here; the
  C++ division that rounds towards zero is \<open>sdiv\<close>. An operation gives \<open>None\<close> where the code
  follows a bad pointer, divides by zero or fails an assertion.
  The interface \<open>uint_arith\<close> names what this component relies on of the 256-bit integers.
\<close>

section \<open>The interface of the 256-bit integers\<close>

locale uint_arith =
  fixes wf :: "'u \<Rightarrow> bool"
    and val :: "'u \<Rightarrow> nat"
    and bound :: nat
    and of64 :: "u64 \<Rightarrow> 'u"
    and add :: "'u \<Rightarrow> 'u \<Rightarrow> 'u"
    and inv :: "'u \<Rightarrow> 'u"
    and mul :: "'u \<Rightarrow> 'u \<Rightarrow> 'u"
    and mul32 :: "'u \<Rightarrow> u32 \<Rightarrow> 'u"
    and dv :: "'u \<Rightarrow> 'u \<Rightarrow> uint_error + 'u"
    and cmp :: "'u \<Rightarrow> 'u \<Rightarrow> int"
  assumes val_lt: "wf a \<Longrightarrow> val a < bound"
    and bound_gt: "2 ^ 64 \<le> bound"
    and wf_of64: "wf (of64 w)" and val_of64: "val (of64 w) = unat w"
    and wf_add: "wf a \<Longrightarrow> wf b \<Longrightarrow> wf (add a b)"
    and val_add: "wf a \<Longrightarrow> wf b \<Longrightarrow> val (add a b) = (val a + val b) mod bound"
    and wf_inv: "wf a \<Longrightarrow> wf (inv a)" and val_inv: "wf a \<Longrightarrow> val (inv a) = bound - 1 - val a"
    and wf_mul: "wf a \<Longrightarrow> wf b \<Longrightarrow> wf (mul a b)"
    and val_mul: "wf a \<Longrightarrow> wf b \<Longrightarrow> val (mul a b) = val a * val b mod bound"
    and wf_mul32: "wf a \<Longrightarrow> wf (mul32 a v)"
    and val_mul32: "wf a \<Longrightarrow> val (mul32 a v) = val a * unat v mod bound"
    and dv_zero: "wf a \<Longrightarrow> wf b \<Longrightarrow> val b = 0 \<Longrightarrow> dv a b = Inl Division_by_zero"
    and dv_val: "wf a \<Longrightarrow> wf b \<Longrightarrow> val b \<noteq> 0 \<Longrightarrow>
      \<exists>q. dv a b = Inr q \<and> wf q \<and> val q = val a div val b"
    and cmp_val: "wf a \<Longrightarrow> wf b \<Longrightarrow>
      cmp a b = (if val a < val b then - 1 else if val b < val a then 1 else 0)"
begin

text \<open>
  The formula of \<open>GetBlockProof\<close>: with \<open>~t / (t + 1) + 1\<close> the quotient \<open>2^256 / (t + 1)\<close> is computed
  without a number of 257 bits, as long as \<open>t\<close> is neither zero nor the largest value.
\<close>

lemma work_formula:
  assumes "wf t" "0 < val t" "val t < bound - 1"
  shows "\<exists>q. dv (inv t) (add t (of64 1)) = Inr q \<and> wf (add q (of64 1)) \<and>
    val (add q (of64 1)) = bound div (val t + 1)"
proof -
  have b: "0 < bound" using assms(3) by simp
  have t1: "wf (add t (of64 1))" "val (add t (of64 1)) = val t + 1"
    using assms b by (simp_all add: wf_add val_add wf_of64 val_of64)
  then obtain q where q: "dv (inv t) (add t (of64 1)) = Inr q" "wf q"
    "val q = (bound - 1 - val t) div (val t + 1)"
    using dv_val [OF wf_inv [OF assms(1)] t1(1)] val_inv [OF assms(1)] by auto
  have "bound = (bound - 1 - val t) + (val t + 1)" using assms(3) by simp
  then have sum: "bound div (val t + 1) = (bound - 1 - val t) div (val t + 1) + 1"
    by (metis add_gr_0 div_add_self2 less_numeral_extra(1) neq0_conv)
  have "bound div (val t + 1) \<le> bound div 2" using assms(2) by (intro div_le_mono2) simp_all
  also have "\<dots> < bound" using b by simp
  finally have "bound div (val t + 1) < bound" .
  then have "val (add q (of64 1)) = bound div (val t + 1)"
    using q sum by (simp add: val_add wf_of64 val_of64)
  with q show ?thesis by (auto simp: wf_add wf_of64)
qed

lemma scaled_down:
  assumes "wf a" "0 < unat T"
  shows "\<exists>q. dv a (of64 T) = Inr q \<and> wf q \<and> val q = val a div unat T"
  using dv_val [OF assms(1) wf_of64, of T] assms(2) by (simp add: val_of64)

end

interpretation au: uint_arith
  "\<lambda>a. length a = WIDTH" limbs_val "2 ^ 256" uint_of_u64 uint_add uint_not
  uint_mul uint_mul32 uint_div CompareTo
proof unfold_locales
  fix a b :: base_uint and w :: u64 and v :: u32
  show "length a = WIDTH \<Longrightarrow> limbs_val a < 2 ^ 256"
    using limbs_val_bound [of a] by (simp add: WIDTH_def)
  show "(2 :: nat) ^ 64 \<le> 2 ^ 256" by (intro power_increasing) simp_all
  show "length (uint_of_u64 w) = WIDTH" by simp
  show "limbs_val (uint_of_u64 w) = unat w" by (rule limbs_val_of_u64)
  show "length a = WIDTH \<Longrightarrow> length b = WIDTH \<Longrightarrow> length (uint_add a b) = WIDTH" by simp
  show "length a = WIDTH \<Longrightarrow> length b = WIDTH \<Longrightarrow>
      limbs_val (uint_add a b) = (limbs_val a + limbs_val b) mod 2 ^ 256"
    using uint_add_val [of a b] by (simp add: WIDTH_def)
  show "length a = WIDTH \<Longrightarrow> length (uint_not a) = WIDTH" by simp
  show "length a = WIDTH \<Longrightarrow> limbs_val (uint_not a) = 2 ^ 256 - 1 - limbs_val a"
    using uint_not_val [of a] by (simp add: WIDTH_def)
  show "length a = WIDTH \<Longrightarrow> length b = WIDTH \<Longrightarrow> length (uint_mul a b) = WIDTH" by simp
  show "length a = WIDTH \<Longrightarrow> length b = WIDTH \<Longrightarrow>
      limbs_val (uint_mul a b) = limbs_val a * limbs_val b mod 2 ^ 256"
    using uint_mul_val [of b a] by (simp add: WIDTH_def)
  show "length a = WIDTH \<Longrightarrow> length (uint_mul32 a v) = WIDTH"
    by (simp add: uint_mul32_def)
  show "length a = WIDTH \<Longrightarrow> limbs_val (uint_mul32 a v) = limbs_val a * unat v mod 2 ^ 256"
    using uint_mul32_val [of a v] by (simp add: WIDTH_def)
  show "length a = WIDTH \<Longrightarrow> length b = WIDTH \<Longrightarrow> limbs_val b = 0 \<Longrightarrow>
      uint_div a b = Inl Division_by_zero"
    by (rule uint_div_by_zero)
  show "length a = WIDTH \<Longrightarrow> length b = WIDTH \<Longrightarrow> limbs_val b \<noteq> 0 \<Longrightarrow>
      \<exists>q. uint_div a b = Inr q \<and> length q = WIDTH \<and> limbs_val q = limbs_val a div limbs_val b"
    using uint_div_val [of a b] by simp
  show "length a = WIDTH \<Longrightarrow> length b = WIDTH \<Longrightarrow> CompareTo a b =
      (if limbs_val a < limbs_val b then - 1 else if limbs_val b < limbs_val a then 1 else 0)"
    by (rule CompareTo_val) simp
qed

section \<open>Consensus parameters\<close>

record Params =
  par_hashGenesisBlock :: uint256
  par_fCoinbaseMustBeProtected :: bool
  par_nSubsidyHalvingInterval :: int
  par_nMajorityEnforceBlockUpgrade :: int
  par_nMajorityRejectBlockOutdated :: int
  par_nMajorityWindow :: int
  par_powLimit :: uint256
  par_nPowAveragingWindow :: int
  par_nPowMaxAdjustDown :: int
  par_nPowMaxAdjustUp :: int
  par_nPowTargetSpacing :: int

definition AveragingWindowTimespan :: "Params \<Rightarrow> int" where
  "AveragingWindowTimespan params = par_nPowAveragingWindow params * par_nPowTargetSpacing params"

definition MinActualTimespan :: "Params \<Rightarrow> int" where
  "MinActualTimespan params =
     (AveragingWindowTimespan params * (100 - par_nPowMaxAdjustUp params)) sdiv 100"

definition MaxActualTimespan :: "Params \<Rightarrow> int" where
  "MaxActualTimespan params =
     (AveragingWindowTimespan params * (100 + par_nPowMaxAdjustDown params)) sdiv 100"

text \<open>The consensus parameters the constructors of \<^verbatim>\<open>src/chainparams.cpp\<close> set for the three networks.\<close>

definition uint256S :: "string \<Rightarrow> uint256" where
  "uint256S str = SetHex 32 str"

definition CMainParams :: Params where
  "CMainParams = \<lparr>
     par_hashGenesisBlock = uint256S ''0x0003f52e78c166a7f44506c152f5e1df1577f21cb7062f863dd8f9a47e125ff9'',
     par_fCoinbaseMustBeProtected = True, par_nSubsidyHalvingInterval = 840000,
     par_nMajorityEnforceBlockUpgrade = 750, par_nMajorityRejectBlockOutdated = 950,
     par_nMajorityWindow = 4000,
     par_powLimit = uint256S ''0007ffffffffffffffffffffffffffffffffffffffffffffffffffffffffffff'',
     par_nPowAveragingWindow = 17, par_nPowMaxAdjustDown = 32, par_nPowMaxAdjustUp = 16,
     par_nPowTargetSpacing = 150\<rparr>"

definition CTestNetParams :: Params where
  "CTestNetParams = \<lparr>
     par_hashGenesisBlock = uint256S ''0x000777e63f7c2efb3c554405a07a4f3dd1def8ea5cef4fda65b2c57247171141'',
     par_fCoinbaseMustBeProtected = True, par_nSubsidyHalvingInterval = 840000,
     par_nMajorityEnforceBlockUpgrade = 51, par_nMajorityRejectBlockOutdated = 75,
     par_nMajorityWindow = 400,
     par_powLimit = uint256S ''07ffffffffffffffffffffffffffffffffffffffffffffffffffffffffffffff'',
     par_nPowAveragingWindow = 17, par_nPowMaxAdjustDown = 32, par_nPowMaxAdjustUp = 16,
     par_nPowTargetSpacing = 150\<rparr>"

definition CRegTestParams :: Params where
  "CRegTestParams = \<lparr>
     par_hashGenesisBlock = uint256S ''0x502ed0d1096705079d99872827b5448bdb357f99876bd497d78e6d01b1804272'',
     par_fCoinbaseMustBeProtected = False, par_nSubsidyHalvingInterval = 150,
     par_nMajorityEnforceBlockUpgrade = 750, par_nMajorityRejectBlockOutdated = 950,
     par_nMajorityWindow = 1000,
     par_powLimit = uint256S ''0f0f0f0f0f0f0f0f0f0f0f0f0f0f0f0f0f0f0f0f0f0f0f0f0f0f0f0f0f0f0f0f'',
     par_nPowAveragingWindow = 17, par_nPowMaxAdjustDown = 0, par_nPowMaxAdjustUp = 0,
     par_nPowTargetSpacing = 150\<rparr>"

section \<open>The operations\<close>

text \<open>
  The multiplication by the timespan is the overload for \<^verbatim>\<open>uint32_t\<close>: the standard conversion of the
  64-bit timespan to 32 bits wins over the user-defined conversion to \<^verbatim>\<open>base_uint\<close>.
\<close>

definition clamp_timespan :: "Params \<Rightarrow> int \<Rightarrow> int" where
  "clamp_timespan params nActualTimespan =
     (let t0 = AveragingWindowTimespan params +
                 (nActualTimespan - AveragingWindowTimespan params) sdiv 4;
          t1 = (if t0 < MinActualTimespan params then MinActualTimespan params else t0)
      in if t1 > MaxActualTimespan params then MaxActualTimespan params else t1)"

definition CalculateNextWorkRequired :: "base_uint \<Rightarrow> int \<Rightarrow> int \<Rightarrow> Params \<Rightarrow> u32 option" where
  "CalculateNextWorkRequired bnAvg nLastBlockTime nFirstBlockTime params =
     (let nActualTimespan = clamp_timespan params (nLastBlockTime - nFirstBlockTime);
          bnPowLimit = UintToArith256 (par_powLimit params)
      in case uint_div bnAvg (uint_of_u64 (of_int (AveragingWindowTimespan params))) of
           Inl e \<Rightarrow> None
         | Inr q \<Rightarrow>
             let bnNew0 = uint_mul32 q (of_int nActualTimespan);
                 bnNew = (if CompareTo bnNew0 bnPowLimit > 0 then bnPowLimit else bnNew0)
             in GetCompact bnNew False)"

fun pow_sum :: "block_store \<Rightarrow> nat \<Rightarrow> block_ptr option \<Rightarrow> base_uint \<Rightarrow>
    (base_uint \<times> block_ptr option) option" where
  "pow_sum st 0 pindexFirst bnTot = Some (bnTot, pindexFirst)"
| "pow_sum st (Suc n) None bnTot = Some (bnTot, None)"
| "pow_sum st (Suc n) (Some p) bnTot =
     (case st p of None \<Rightarrow> None
      | Some bi \<Rightarrow> pow_sum st n (bi_pprev bi) (uint_add bnTot (fst (SetCompact (bi_nBits bi)))))"

definition GetNextWorkRequired :: "block_store \<Rightarrow> block_ptr option \<Rightarrow> Params \<Rightarrow> u32 option" where
  "GetNextWorkRequired st pindexLast params =
     (case GetCompact (UintToArith256 (par_powLimit params)) False of None \<Rightarrow> None
      | Some nProofOfWorkLimit \<Rightarrow>
         (case pindexLast of None \<Rightarrow> Some nProofOfWorkLimit
          | Some plast \<Rightarrow>
             (case pow_sum st (nat (par_nPowAveragingWindow params)) (Some plast) (uint_of_u64 0) of
                None \<Rightarrow> None
              | Some (bnTot, None) \<Rightarrow> Some nProofOfWorkLimit
              | Some (bnTot, Some pfirst) \<Rightarrow>
                  (case uint_div bnTot (uint_of_u64 (of_int (par_nPowAveragingWindow params))) of
                     Inl e \<Rightarrow> None
                   | Inr bnAvg \<Rightarrow>
                      (case (GetMedianTimePast st plast, GetMedianTimePast st pfirst) of
                         (Some tLast, Some tFirst) \<Rightarrow> CalculateNextWorkRequired bnAvg tLast tFirst params
                       | _ \<Rightarrow> None)))))"

definition CheckProofOfWork :: "uint256 \<Rightarrow> u32 \<Rightarrow> Params \<Rightarrow> bool" where
  "CheckProofOfWork hash nBits params =
     (case SetCompact nBits of (bnTarget, fNegative, fOverflow) \<Rightarrow>
        if fNegative \<or> EqualTo bnTarget 0 \<or> fOverflow \<or>
           CompareTo bnTarget (UintToArith256 (par_powLimit params)) > 0
        then False
        else if CompareTo (UintToArith256 hash) bnTarget > 0 then False
        else True)"

definition GetBlockProof :: "CBlockIndex \<Rightarrow> base_uint option" where
  "GetBlockProof block =
     (case SetCompact (bi_nBits block) of (bnTarget, fNegative, fOverflow) \<Rightarrow>
        if fNegative \<or> fOverflow \<or> EqualTo bnTarget 0 then Some (uint_of_u64 0)
        else (case uint_div (uint_not bnTarget) (uint_add bnTarget (uint_of_u64 1)) of
                Inl e \<Rightarrow> None | Inr q \<Rightarrow> Some (uint_add q (uint_of_u64 1))))"

definition GetBlockProofEquivalentTime ::
  "CBlockIndex \<Rightarrow> CBlockIndex \<Rightarrow> CBlockIndex \<Rightarrow> Params \<Rightarrow> int option" where
  "GetBlockProofEquivalentTime to from tip params =
     (let fwd = (CompareTo (bi_nChainWork to) (bi_nChainWork from) > 0);
          r0 = (if fwd then uint_sub (bi_nChainWork to) (bi_nChainWork from)
                else uint_sub (bi_nChainWork from) (bi_nChainWork to));
          sign = (if fwd then 1 else - 1)
      in case GetBlockProof tip of None \<Rightarrow> None
         | Some work \<Rightarrow>
            (case uint_div (uint_mul r0 (uint_of_u64 (of_int (par_nPowTargetSpacing params)))) work of
               Inl e \<Rightarrow> None
             | Inr r \<Rightarrow> if uint_bits r > 63 then Some (sign * (2 ^ 63 - 1))
                        else Some (sint (of_int sign * GetLow64 r))))"

section \<open>What a valid proof of work means\<close>

lemma SetCompact_target:
  assumes "\<not> snd (snd (SetCompact c))"
  shows "limbs_val (fst (SetCompact c)) = compact_val c" "compact_val c < 2 ^ 256"
  using assms SetCompact_overflow [of c] by (simp_all add: SetCompact_val)

lemma CheckProofOfWork_iff:
  assumes "length hash = 32" "length (par_powLimit params) = 32"
  shows "CheckProofOfWork hash nBits params \<longleftrightarrow>
    \<not> fst (snd (SetCompact nBits)) \<and> 0 < compact_val nBits \<and>
    compact_val nBits \<le> le_read (par_powLimit params) \<and> le_read hash \<le> compact_val nBits"
proof -
  obtain t neg ovf where sc: "SetCompact nBits = (t, neg, ovf)" by (metis prod_cases3)
  have len: "length t = WIDTH" using length_SetCompact [of nBits] sc by simp
  have ovf: "ovf \<longleftrightarrow> 2 ^ 256 \<le> compact_val nBits"
    using SetCompact_overflow [of nBits] sc by simp
  have lim: "limbs_val (UintToArith256 (par_powLimit params)) = le_read (par_powLimit params)"
    and h: "limbs_val (UintToArith256 hash) = le_read hash"
    using assms by (simp_all add: UintToArith256_val)
  have lt: "le_read (par_powLimit params) < 2 ^ 256"
    using le_read_bound [of "par_powLimit params"] assms by simp
  show ?thesis
  proof (cases ovf)
    case True
    then show ?thesis using ovf sc lt by (simp add: CheckProofOfWork_def)
  next
    case False
    then have t: "limbs_val t = compact_val nBits"
      using SetCompact_target [of nBits] sc by simp
    have "2 \<le> length t" using len by (simp add: WIDTH_def)
    then show ?thesis
      using False sc t lim h len by (auto simp: CheckProofOfWork_def EqualTo_val CompareTo_gt)
  qed
qed

lemma GetBlockProof_ok:
  assumes "\<not> fst (snd (SetCompact (bi_nBits b)))" "0 < compact_val (bi_nBits b)"
    "compact_val (bi_nBits b) < 2 ^ 256"
  shows "\<exists>w. GetBlockProof b = Some w \<and> length w = WIDTH \<and>
    limbs_val w = 2 ^ 256 div (compact_val (bi_nBits b) + 1)"
proof -
  let ?c = "bi_nBits b"
  obtain t neg ovf where sc: "SetCompact ?c = (t, neg, ovf)" by (metis prod_cases3)
  have len: "length t = WIDTH" using length_SetCompact [of ?c] sc by simp
  have novf: "\<not> ovf" using SetCompact_overflow [of ?c] sc assms(3) by simp
  then have t: "limbs_val t = compact_val ?c" using SetCompact_target [of ?c] sc by simp
  have "compact_val ?c \<noteq> 2 ^ 256 - 1"
  proof (cases "compact_size ?c \<le> 3")
    case True
    have "compact_val ?c < 2 ^ 23"
      using True compact_mant_lt [of ?c] by (simp add: compact_val_def) (meson div_le_dividend le_less_trans)
    then show ?thesis by simp
  next
    case False
    then have "even (compact_val ?c)" by (simp add: compact_val_def)
    moreover have "odd ((2 :: nat) ^ 256 - 1)" by simp
    ultimately show ?thesis by metis
  qed
  then have lt: "limbs_val t < 2 ^ 256 - 1" using t assms(3) by simp
  obtain q where q: "uint_div (uint_not t) (uint_add t (uint_of_u64 1)) = Inr q" "length (uint_add q (uint_of_u64 1)) = WIDTH"
    "limbs_val (uint_add q (uint_of_u64 1)) = 2 ^ 256 div (limbs_val t + 1)"
    using au.work_formula [OF len _ lt] t assms(2) by auto
  have "2 \<le> length t" using len by (simp add: WIDTH_def)
  then show ?thesis
    using q sc novf assms(1,2) t by (simp add: GetBlockProof_def EqualTo_val)
qed

section \<open>Difficulty adjustment\<close>

lemma clamp_timespan_bounds:
  assumes "MinActualTimespan params \<le> MaxActualTimespan params"
  shows "MinActualTimespan params \<le> clamp_timespan params t \<and>
    clamp_timespan params t \<le> MaxActualTimespan params"
  using assms by (simp add: clamp_timespan_def Let_def)

text \<open>Parameters for which the arithmetic of the adjustment stays in range.\<close>

definition params_ok :: "Params \<Rightarrow> bool" where
  "params_ok params \<longleftrightarrow>
     length (par_powLimit params) = 32 \<and>
     0 < par_nPowAveragingWindow params \<and> par_nPowAveragingWindow params < 2 ^ 63 \<and>
     0 < AveragingWindowTimespan params \<and> AveragingWindowTimespan params < 2 ^ 63 \<and>
     nat (par_nPowAveragingWindow params) * le_read (par_powLimit params) < 2 ^ 256 \<and>
     le_read (par_powLimit params) * nat (MaxActualTimespan params) <
       2 ^ 256 * nat (AveragingWindowTimespan params) \<and>
     0 \<le> MinActualTimespan params \<and> MinActualTimespan params \<le> MaxActualTimespan params \<and>
     MaxActualTimespan params < 2 ^ 32"

lemma CalculateNextWorkRequired_ok:
  assumes "params_ok params" "length bnAvg = WIDTH"
    and fits: "limbs_val bnAvg * nat (MaxActualTimespan params) <
      2 ^ 256 * nat (AveragingWindowTimespan params)"
  shows "\<exists>c x. CalculateNextWorkRequired bnAvg t1 t0 params = Some c \<and>
    GetCompact x False = Some c \<and> length x = WIDTH \<and>
    limbs_val x = min (limbs_val bnAvg div nat (AveragingWindowTimespan params) *
                         nat (clamp_timespan params (t1 - t0)))
                      (le_read (par_powLimit params))"
proof -
  define T s where "T = nat (AveragingWindowTimespan params)" and "s = clamp_timespan params (t1 - t0)"
  have sb: "0 \<le> s" "s < 2 ^ 32" "s \<le> MaxActualTimespan params"
    using clamp_timespan_bounds [of params "t1 - t0"] assms(1) by (auto simp: params_ok_def s_def)
  have us: "unat (of_int s :: u32) = nat s"
    using sb by (simp add: unat_eq_nat_uint uint_word_of_int)
  have uT: "unat (of_int (AveragingWindowTimespan params) :: u64) = T"
    using assms(1) by (simp add: params_ok_def T_def unat_eq_nat_uint uint_word_of_int)
  have T: "0 < T" using assms(1) by (simp add: params_ok_def T_def)
  obtain q where q: "uint_div bnAvg (uint_of_u64 (of_int (AveragingWindowTimespan params))) = Inr q"
    "length q = WIDTH" "limbs_val q = limbs_val bnAvg div T"
    using au.scaled_down [OF assms(2)] uT T by metis
  have "limbs_val bnAvg div T * nat s \<le> limbs_val bnAvg div T * nat (MaxActualTimespan params)"
    using sb by (intro mult_le_mono2) simp
  also have "\<dots> \<le> limbs_val bnAvg * nat (MaxActualTimespan params) div T"
    using T mult_le_mono1 [OF div_times_less_eq_dividend [of "limbs_val bnAvg" T]]
    by (simp add: less_eq_div_iff_mult_less_eq mult.assoc mult.commute mult.left_commute)
  also have "\<dots> < 2 ^ 256"
    using fits T by (simp add: T_def div_less_iff_less_mult)
  finally have lt: "limbs_val bnAvg div T * nat s < 2 ^ 256" .
  have m: "length (uint_mul32 q (of_int s)) = WIDTH"
    "limbs_val (uint_mul32 q (of_int s)) = limbs_val bnAvg div T * nat s"
    using au.wf_mul32 [OF q(2)] au.val_mul32 [OF q(2), of "of_int s"] us q(3) lt by simp_all
  have lim: "limbs_val (UintToArith256 (par_powLimit params)) = le_read (par_powLimit params)"
    using assms(1) by (simp add: UintToArith256_val params_ok_def)
  define x where "x = (if CompareTo (uint_mul32 q (of_int s)) (UintToArith256 (par_powLimit params)) > 0
      then UintToArith256 (par_powLimit params) else uint_mul32 q (of_int s))"
  have x: "length x = WIDTH" "limbs_val x = min (limbs_val bnAvg div T * nat s) (le_read (par_powLimit params))"
    using m lim by (simp_all add: x_def CompareTo_gt)
  obtain c where "GetCompact x False = Some c" using GetCompact_val [OF x(1)] by blast
  moreover have "CalculateNextWorkRequired bnAvg t1 t0 params = GetCompact x False"
    using q(1) by (simp add: CalculateNextWorkRequired_def Let_def s_def x_def)
  ultimately show ?thesis using x by (auto simp: T_def s_def)
qed

text \<open>The targets of the \<open>n\<close> blocks that end at \<open>p\<close>, and that all of a store are within the limit.\<close>

fun window_targets :: "block_store \<Rightarrow> nat \<Rightarrow> block_ptr option \<Rightarrow> nat list" where
  "window_targets st 0 p = []"
| "window_targets st (Suc n) None = []"
| "window_targets st (Suc n) (Some p) =
     (case st p of None \<Rightarrow> []
      | Some bi \<Rightarrow> compact_val (bi_nBits bi) # window_targets st n (bi_pprev bi))"

definition targets_ok :: "block_store \<Rightarrow> nat \<Rightarrow> bool" where
  "targets_ok st lim \<longleftrightarrow> (\<forall>p bi. st p = Some bi \<longrightarrow> compact_val (bi_nBits bi) \<le> lim)"

lemma window_targets_le:
  assumes "targets_ok st lim"
  shows "sum_list (window_targets st n p) \<le> n * lim"
proof (induction n arbitrary: p)
  case (Suc n)
  then show ?case using assms
    by (cases p) (auto simp: targets_ok_def split: option.split intro!: add_mono)
qed simp

lemma pow_sum_ok:
  assumes "store_ok st" "targets_ok st lim" "st p = Some b" "length tot = WIDTH"
    "limbs_val tot + n * lim < 2 ^ 256" "lim < 2 ^ 256"
  shows "\<exists>tot'. pow_sum st n (Some p) tot =
      Some (tot', if int n \<le> bi_nHeight b then prev_n st n p else None) \<and> length tot' = WIDTH \<and>
      limbs_val tot' = limbs_val tot + sum_list (window_targets st n (Some p))"
  using assms(3-5)
proof (induction n arbitrary: p b tot)
  case 0
  then show ?case using store_okD(1) [OF assms(1)] by simp
next
  case (Suc n)
  let ?t = "fst (SetCompact (bi_nBits b))"
  have c: "compact_val (bi_nBits b) \<le> lim" using assms(2) Suc.prems(1) by (simp add: targets_ok_def)
  then have t: "limbs_val ?t = compact_val (bi_nBits b)" using assms(6) by (simp add: SetCompact_val)
  have add: "limbs_val (uint_add tot ?t) = limbs_val tot + compact_val (bi_nBits b)"
    using au.val_add [OF Suc.prems(2) length_SetCompact, of "bi_nBits b"] t c Suc.prems(3) by simp
  have len: "length (uint_add tot ?t) = WIDTH" using Suc.prems(2) by simp
  show ?case
  proof (cases "bi_pprev b")
    case None
    then have "bi_nHeight b = 0" using store_okD(2) [OF assms(1) Suc.prems(1)] by simp
    then show ?thesis using None Suc.prems(1) add len by (cases n) simp_all
  next
    case (Some q)
    then obtain bq where q: "st q = Some bq" "bi_nHeight b = bi_nHeight bq + 1"
      using store_okD(3) [OF assms(1) Suc.prems(1)] by blast
    have "limbs_val (uint_add tot ?t) + n * lim < 2 ^ 256" using add c Suc.prems(3) by simp
    from Suc.IH [OF q(1) len this] show ?thesis
      using Some Suc.prems(1) q(2) add by (auto simp: add.assoc)
  qed
qed

lemma GetNextWorkRequired_short:
  assumes "params_ok params" "store_ok st" "targets_ok st (le_read (par_powLimit params))"
    and "st p = Some b" "bi_nHeight b < par_nPowAveragingWindow params"
  shows "GetNextWorkRequired st (Some p) params = GetCompact (UintToArith256 (par_powLimit params)) False"
proof -
  have l: "length (UintToArith256 (par_powLimit params)) = WIDTH"
    using assms(1) by (simp add: params_ok_def)
  obtain tot where "pow_sum st (nat (par_nPowAveragingWindow params)) (Some p) (uint_of_u64 0) = Some (tot, None)"
    using pow_sum_ok [OF assms(2,3,4), of "uint_of_u64 0" "nat (par_nPowAveragingWindow params)"]
      assms(1,5) le_read_bound [of "par_powLimit params"]
    by (auto simp: params_ok_def limbs_val_of_u64)
  then show ?thesis
    using GetCompact_val [OF l] by (auto simp: GetNextWorkRequired_def)
qed

lemma GetNextWorkRequired_full:
  assumes ok: "params_ok params" "store_ok st" "targets_ok st (le_read (par_powLimit params))"
    and p: "st p = Some b" "par_nPowAveragingWindow params \<le> bi_nHeight b"
  defines "W \<equiv> nat (par_nPowAveragingWindow params)"
  shows "\<exists>q t1 t0 x c. prev_n st W p = Some q \<and> GetMedianTimePast st p = Some t1 \<and>
    GetMedianTimePast st q = Some t0 \<and> GetNextWorkRequired st (Some p) params = Some c \<and>
    GetCompact x False = Some c \<and> length x = WIDTH \<and>
    limbs_val x = min (sum_list (window_targets st W (Some p)) div W
        div nat (AveragingWindowTimespan params) * nat (clamp_timespan params (t1 - t0)))
      (le_read (par_powLimit params))"
proof -
  let ?L = "le_read (par_powLimit params)"
  have L: "?L < 2 ^ 256" using le_read_bound [of "par_powLimit params"] ok(1) by (simp add: params_ok_def)
  have W: "0 < W" "int W \<le> bi_nHeight b" "W * ?L < 2 ^ 256"
    "unat (of_int (par_nPowAveragingWindow params) :: u64) = W"
    using ok(1) p(2) by (simp_all add: W_def params_ok_def unat_eq_nat_uint uint_word_of_int)
  obtain q bq where q: "prev_n st W p = Some q" "st q = Some bq"
    using prev_n_height [OF ok(2) p(1) W(2)] by blast
  obtain tot where tot: "pow_sum st W (Some p) (uint_of_u64 0) = Some (tot, Some q)"
    "length tot = WIDTH" "limbs_val tot = sum_list (window_targets st W (Some p))"
    using pow_sum_ok [OF ok(2,3) p(1), of "uint_of_u64 0" W] W L q(1) by (auto simp: limbs_val_of_u64)
  obtain avg where avg: "uint_div tot (uint_of_u64 (of_int (par_nPowAveragingWindow params))) = Inr avg"
    "length avg = WIDTH" "limbs_val avg = limbs_val tot div W"
    using au.scaled_down [OF tot(2)] W(1,4) by metis
  obtain t1 t0 where t: "GetMedianTimePast st p = Some t1" "GetMedianTimePast st q = Some t0"
    using GetMedianTimePast_ok [OF ok(2)] p(1) q(2) by metis
  have "limbs_val avg \<le> ?L"
    using window_targets_le [OF ok(3), of W "Some p"] W(1) avg(3) tot(3)
    by (metis div_le_mono nonzero_mult_div_cancel_left not_gr0)
  then have "limbs_val avg * nat (MaxActualTimespan params) \<le> ?L * nat (MaxActualTimespan params)"
    by (rule mult_le_mono1)
  also have "\<dots> < 2 ^ 256 * nat (AveragingWindowTimespan params)"
    using ok(1) unfolding params_ok_def by blast
  finally have "limbs_val avg * nat (MaxActualTimespan params) < 2 ^ 256 * nat (AveragingWindowTimespan params)" .
  from CalculateNextWorkRequired_ok [OF ok(1) avg(2) this, of t1 t0] obtain c x where
    cx: "CalculateNextWorkRequired avg t1 t0 params = Some c" "GetCompact x False = Some c" "length x = WIDTH"
      "limbs_val x = min (limbs_val avg div nat (AveragingWindowTimespan params) *
         nat (clamp_timespan params (t1 - t0))) ?L"
    by blast
  have l: "length (UintToArith256 (par_powLimit params)) = WIDTH"
    using ok(1) by (simp add: params_ok_def)
  have "GetNextWorkRequired st (Some p) params = Some c"
    using GetCompact_val [OF l] tot(1) avg(1) t cx(1) by (auto simp: GetNextWorkRequired_def W_def)
  with q(1) t cx avg(3) tot(3) show ?thesis by auto
qed

lemma GetNextWorkRequired_total:
  assumes "params_ok params" "store_ok st" "targets_ok st (le_read (par_powLimit params))"
    and "pindexLast = None \<or> (\<exists>p b. pindexLast = Some p \<and> st p = Some b)"
  obtains x c where "length x = WIDTH" "limbs_val x \<le> le_read (par_powLimit params)"
    "GetCompact x False = Some c" "GetNextWorkRequired st pindexLast params = Some c"
proof -
  let ?L = "UintToArith256 (par_powLimit params)"
  have l: "length ?L = WIDTH" "limbs_val ?L = le_read (par_powLimit params)"
    using assms(1) by (simp_all add: params_ok_def UintToArith256_val)
  obtain c where c: "GetCompact ?L False = Some c" using GetCompact_val [OF l(1)] by blast
  show thesis
  proof (cases pindexLast)
    case None
    then show thesis using that [of ?L c] l c by (simp add: GetNextWorkRequired_def)
  next
    case (Some p)
    then obtain b where b: "st p = Some b" using assms(4) by auto
    show thesis
    proof (cases "bi_nHeight b < par_nPowAveragingWindow params")
      case True
      then show thesis
        using that [of ?L c] l c GetNextWorkRequired_short [OF assms(1-3) b] Some by simp
    next
      case False
      then obtain x d where "length x = WIDTH" "limbs_val x \<le> le_read (par_powLimit params)"
        "GetCompact x False = Some d" "GetNextWorkRequired st (Some p) params = Some d"
        using GetNextWorkRequired_full [OF assms(1-3) b] by auto
      then show thesis using that Some by blast
    qed
  qed
qed

section \<open>The parameters of the networks\<close>

lemma powLimit_main: "par_powLimit CMainParams = 
     [255, 255, 255, 255, 255, 255, 255, 255, 255, 255, 255, 255, 255, 255, 255, 255,
      255, 255, 255, 255, 255, 255, 255, 255, 255, 255, 255, 255, 255, 255, 7, 0]"
  by (simp add: CMainParams_def uint256S_def) code_simp

lemma powLimit_test: "par_powLimit CTestNetParams = 
     [255, 255, 255, 255, 255, 255, 255, 255, 255, 255, 255, 255, 255, 255, 255, 255,
      255, 255, 255, 255, 255, 255, 255, 255, 255, 255, 255, 255, 255, 255, 255, 7]"
  by (simp add: CTestNetParams_def uint256S_def) code_simp

lemma powLimit_regtest: "par_powLimit CRegTestParams = 
     [15, 15, 15, 15, 15, 15, 15, 15, 15, 15, 15, 15, 15, 15, 15, 15, 15, 15, 15, 15,
      15, 15, 15, 15, 15, 15, 15, 15, 15, 15, 15, 15]"
  by (simp add: CRegTestParams_def uint256S_def) code_simp

lemma timespans:
  "AveragingWindowTimespan CMainParams = 2550" "MinActualTimespan CMainParams = 2142"
  "MaxActualTimespan CMainParams = 3366" "AveragingWindowTimespan CTestNetParams = 2550"
  "MinActualTimespan CTestNetParams = 2142" "MaxActualTimespan CTestNetParams = 3366"
  "AveragingWindowTimespan CRegTestParams = 2550" "MinActualTimespan CRegTestParams = 2550"
  "MaxActualTimespan CRegTestParams = 2550"
  by (simp_all add: AveragingWindowTimespan_def MinActualTimespan_def MaxActualTimespan_def
      CMainParams_def CTestNetParams_def CRegTestParams_def signed_divide_int_def)

lemma powLimit_val:
  "le_read (par_powLimit CMainParams) = 14134776518227074636666380005943348126619871175004951664972849610340958207"
  "le_read (par_powLimit CTestNetParams) = 3618502788666131106986593281521497120414687020801267626233049500247285301247"
  "le_read (par_powLimit CRegTestParams) = 6811299366900952671974763824040465167839410862684739061144563765171360567055"
  by (simp_all add: powLimit_main powLimit_test powLimit_regtest)

lemma params_ok_main: "params_ok CMainParams"
proof -
  have "par_nPowAveragingWindow CMainParams = 17" by (simp add: CMainParams_def)
  then show ?thesis by (simp add: params_ok_def timespans powLimit_val) (simp add: powLimit_main)
qed

lemma params_ok_test: "params_ok CTestNetParams"
proof -
  have "par_nPowAveragingWindow CTestNetParams = 17" by (simp add: CTestNetParams_def)
  then show ?thesis by (simp add: params_ok_def timespans powLimit_val) (simp add: powLimit_test)
qed

lemma params_ok_regtest: "params_ok CRegTestParams"
proof -
  have "par_nPowAveragingWindow CRegTestParams = 17" by (simp add: CRegTestParams_def)
  then show ?thesis by (simp add: params_ok_def timespans powLimit_val) (simp add: powLimit_regtest)
qed

section \<open>Properties\<close>

text \<open>
  C2: \<open>CheckProofOfWork\<close> accepts a block hash exactly when the compact target is positive, not
  above the network's limit, and the hash, read as a number, is not above the target.
\<close>

theorem proof_of_work_meaning:
  assumes "length hash = 32" "length (par_powLimit params) = 32"
  shows "CheckProofOfWork hash nBits params \<longleftrightarrow>
    \<not> fst (snd (SetCompact nBits)) \<and> 0 < compact_val nBits \<and>
    compact_val nBits \<le> le_read (par_powLimit params) \<and> le_read hash \<le> compact_val nBits"
  using assms by (rule CheckProofOfWork_iff)

theorem proof_of_work_meaning_witness:
  "CheckProofOfWork (replicate 31 0 @ [1]) 0x1f07ffff CMainParams \<longleftrightarrow> False"
proof -
  have "le_read (replicate n 0) = 0" for n by (induction n) simp_all
  then have "compact_val 0x1f07ffff < le_read (replicate 31 0 @ [1])"
    by (simp add: compact_val_def compact_size_def compact_mant_def le_read_append)
  then show ?thesis
    using proof_of_work_meaning [of "replicate 31 0 @ [1]" CMainParams "0x1f07ffff"]
    by (simp add: powLimit_main)
qed

text \<open>
  C8: the work of a block with a valid target is \<open>2^256\<close> divided by the target plus one, although
  the code cannot represent \<open>2^256\<close>.
\<close>

theorem block_proof_value:
  assumes "\<not> fst (snd (SetCompact (bi_nBits b)))" "0 < compact_val (bi_nBits b)"
    "compact_val (bi_nBits b) < 2 ^ 256"
  shows "\<exists>w. GetBlockProof b = Some w \<and> length w = WIDTH \<and>
    limbs_val w = 2 ^ 256 div (compact_val (bi_nBits b) + 1)"
  using assms by (rule GetBlockProof_ok)

theorem block_proof_value_witness:
  "\<exists>w. GetBlockProof (CBlockIndex_SetNull\<lparr>bi_nBits := 0x1f07ffff\<rparr>) = Some w \<and> limbs_val w = 8192"
proof -
  let ?b = "CBlockIndex_SetNull\<lparr>bi_nBits := 0x1f07ffff\<rparr>"
  have v: "compact_val 0x1f07ffff = 0x7ffff * 2 ^ 224"
    by (simp add: compact_val_def compact_size_def compact_mant_def)
  have n: "\<not> fst (snd (SetCompact 0x1f07ffff))" by (simp add: SetCompact_def Let_def)
  show ?thesis using block_proof_value [of ?b] n v by auto
qed





end
