(* ===== verification/Equihash.thy ===== *)
theory Equihash
  imports Block Pow "HOL-Library.Monad_Syntax"
begin

text \<open>
  The Equihash proof of work (\<^verbatim>\<open>crypto/equihash.h\<close>, \<^verbatim>\<open>crypto/equihash.tcc\<close>, \<^verbatim>\<open>crypto/equihash.cpp\<close>) and its check on a header
  (\<^verbatim>\<open>pow.cpp\<close>). The template parameters are the arguments \<open>N\<close> and \<open>K\<close>, and BLAKE2b, which libsodium provides, is the
  argument \<open>blake2b\<close>. \<open>None\<close> stands for a failed assertion or the exception for unsupported parameters. A solution is a
  packed list of indices; packing and unpacking are changes of the base of a number, and the verifier
  accepts exactly the packed trees of colliding hashes.
\<close>

section \<open>Parameters\<close>

type_synonym eh_index = u32
type_synonym eh_trunc = u8

definition IndicesPerHashOutput :: "nat \<Rightarrow> nat" where
  "IndicesPerHashOutput N = 512 div N"

definition HashOutput :: "nat \<Rightarrow> nat" where
  "HashOutput N = IndicesPerHashOutput N * N div 8"

definition CollisionBitLength :: "nat \<Rightarrow> nat \<Rightarrow> nat" where
  "CollisionBitLength N K = N div (K + 1)"

definition CollisionByteLength :: "nat \<Rightarrow> nat \<Rightarrow> nat" where
  "CollisionByteLength N K = (CollisionBitLength N K + 7) div 8"

definition HashLength :: "nat \<Rightarrow> nat \<Rightarrow> nat" where
  "HashLength N K = (K + 1) * CollisionByteLength N K"

definition FullWidth :: "nat \<Rightarrow> nat \<Rightarrow> nat" where
  "FullWidth N K = 2 * CollisionByteLength N K + 4 * 2 ^ (K - 1)"

definition FinalFullWidth :: "nat \<Rightarrow> nat \<Rightarrow> nat" where
  "FinalFullWidth N K = 2 * CollisionByteLength N K + 4 * 2 ^ K"

definition SolutionWidth :: "nat \<Rightarrow> nat \<Rightarrow> nat" where
  "SolutionWidth N K = 2 ^ K * (CollisionBitLength N K + 1) div 8"

definition equihash_solution_size :: "nat \<Rightarrow> nat \<Rightarrow> nat" where
  "equihash_solution_size N K = 2 ^ K * (N div (K + 1) + 1) div 8"

section \<open>The hash of an index\<close>

text \<open>
  A state of BLAKE2b is what it was initialised with and what was absorbed so far; the function itself,
  which libsodium provides, is the argument \<open>blake2b\<close>: it takes the length of the output, the
  personalization and the message.
\<close>

record eh_HashState =
  eh_outlen :: nat
  eh_personal :: bytes
  eh_message :: bytes

definition InitialiseState :: "nat \<Rightarrow> nat \<Rightarrow> eh_HashState" where
  "InitialiseState N K =
     \<lparr>eh_outlen = 512 div N * N div 8,
      eh_personal = map (of_nat \<circ> of_char) ''ZcashPoW'' @ WriteLE32 (of_nat N) @ WriteLE32 (of_nat K),
      eh_message = []\<rparr>"

definition blake2b_update :: "eh_HashState \<Rightarrow> bytes \<Rightarrow> eh_HashState" where
  "blake2b_update st m = st\<lparr>eh_message := eh_message st @ m\<rparr>"

definition GenerateHash ::
  "(nat \<Rightarrow> bytes \<Rightarrow> bytes \<Rightarrow> bytes) \<Rightarrow> eh_HashState \<Rightarrow> eh_index \<Rightarrow> nat \<Rightarrow> bytes" where
  "GenerateHash blake2b base_state g hLen =
     (let state = blake2b_update base_state (WriteLE32 g)
      in take hLen (blake2b (eh_outlen state) (eh_personal state) (eh_message state)))"

section \<open>Arrays of bit strings\<close>

definition bit_len_mask :: "nat \<Rightarrow> u32" where
  "bit_len_mask bit_len = push_bit bit_len 1 - 1"

definition expand_element :: "nat \<Rightarrow> nat \<Rightarrow> nat \<Rightarrow> u32 \<Rightarrow> bytes" where
  "expand_element bit_len byte_pad acc_bits acc_value =
     (let out_width = (bit_len + 7) div 8 + byte_pad
      in replicate byte_pad 0 @
         map (\<lambda>x. ucast (drop_bit (acc_bits + 8 * (out_width - x - 1)) acc_value AND
                         (drop_bit (8 * (out_width - x - 1)) (bit_len_mask bit_len) AND 0xFF)))
           [byte_pad..<out_width])"

fun expand_loop :: "nat \<Rightarrow> nat \<Rightarrow> nat \<Rightarrow> u32 \<Rightarrow> bytes \<Rightarrow> bytes" where
  "expand_loop bit_len byte_pad acc_bits acc_value [] = []"
| "expand_loop bit_len byte_pad acc_bits acc_value (b # ins) =
     (let acc_value = push_bit 8 acc_value OR ucast b; acc_bits = acc_bits + 8
      in if bit_len \<le> acc_bits
         then expand_element bit_len byte_pad (acc_bits - bit_len) acc_value @
              expand_loop bit_len byte_pad (acc_bits - bit_len) acc_value ins
         else expand_loop bit_len byte_pad acc_bits acc_value ins)"

text \<open>The array that is filled is the list of the bytes written to it.\<close>

definition ExpandArray :: "bytes \<Rightarrow> nat \<Rightarrow> nat \<Rightarrow> nat \<Rightarrow> bytes option" where
  "ExpandArray ins out_len bit_len byte_pad =
     (let out_width = (bit_len + 7) div 8 + byte_pad
      in if bit_len \<ge> 8 \<and> 32 \<ge> 7 + bit_len \<and> out_len = 8 * out_width * length ins div bit_len
         then Some (expand_loop bit_len byte_pad 0 0 ins) else None)"

definition compress_element :: "nat \<Rightarrow> nat \<Rightarrow> u32 \<Rightarrow> bytes \<Rightarrow> u32" where
  "compress_element bit_len byte_pad acc_value ins =
     (let in_width = (bit_len + 7) div 8 + byte_pad
      in foldl (\<lambda>acc x. acc OR push_bit (8 * (in_width - x - 1))
                  (ucast (ins ! x) AND (drop_bit (8 * (in_width - x - 1)) (bit_len_mask bit_len) AND 0xFF)))
           (push_bit bit_len acc_value) [byte_pad..<in_width])"

text \<open>The first argument counts the output bytes still to write; the input is read up to its end only.\<close>

fun compress_loop :: "nat \<Rightarrow> nat \<Rightarrow> nat \<Rightarrow> nat \<Rightarrow> u32 \<Rightarrow> bytes \<Rightarrow> bytes" where
  "compress_loop bit_len byte_pad 0 acc_bits acc_value ins = []"
| "compress_loop bit_len byte_pad (Suc n) acc_bits acc_value ins =
     (let (acc_value, ins, acc_bits) =
        (if acc_bits < 8
         then (compress_element bit_len byte_pad acc_value ins,
               drop ((bit_len + 7) div 8 + byte_pad) ins, acc_bits + bit_len)
         else (acc_value, ins, acc_bits));
        acc_bits = acc_bits - 8
      in ucast (drop_bit acc_bits acc_value AND 0xFF) #
         compress_loop bit_len byte_pad n acc_bits acc_value ins)"

definition CompressArray :: "bytes \<Rightarrow> nat \<Rightarrow> nat \<Rightarrow> nat \<Rightarrow> bytes option" where
  "CompressArray ins out_len bit_len byte_pad =
     (let in_width = (bit_len + 7) div 8 + byte_pad
      in if bit_len \<ge> 8 \<and> 32 \<ge> 7 + bit_len \<and> out_len = bit_len * length ins div (8 * in_width)
         then Some (compress_loop bit_len byte_pad out_len 0 0 ins) else None)"

definition EhIndexToArray :: "eh_index \<Rightarrow> bytes" where
  "EhIndexToArray i = WriteBE32 i"

definition ArrayToEhIndex :: "bytes \<Rightarrow> eh_index" where
  "ArrayToEhIndex array = ReadBE32 array"

definition TruncateIndex :: "eh_index \<Rightarrow> nat \<Rightarrow> eh_trunc" where
  "TruncateIndex i ilen = ucast (drop_bit (ilen - 8) i AND 0xff)"

definition UntruncateIndex :: "eh_trunc \<Rightarrow> eh_index \<Rightarrow> nat \<Rightarrow> eh_index" where
  "UntruncateIndex t r ilen = push_bit (ilen - 8) (ucast t) OR r"

fun indices_of_array :: "bytes \<Rightarrow> eh_index list" where
  "indices_of_array [] = []"
| "indices_of_array (b # bs) = ArrayToEhIndex (b # bs) # indices_of_array (drop 3 bs)"

definition GetIndicesFromMinimal :: "bytes \<Rightarrow> nat \<Rightarrow> eh_index list option" where
  "GetIndicesFromMinimal minimal cBitLen =
     (if ((cBitLen + 1) + 7) div 8 \<le> 4
      then do { array \<leftarrow> ExpandArray minimal (8 * 4 * length minimal div (cBitLen + 1)) (cBitLen + 1)
                           (4 - ((cBitLen + 1) + 7) div 8);
                Some (indices_of_array array) }
      else None)"

definition GetMinimalFromIndices :: "eh_index list \<Rightarrow> nat \<Rightarrow> bytes option" where
  "GetMinimalFromIndices indices cBitLen =
     (if ((cBitLen + 1) + 7) div 8 \<le> 4
      then CompressArray (concat (map EhIndexToArray indices))
             ((cBitLen + 1) * (length indices * 4) div (8 * 4)) (cBitLen + 1)
             (4 - ((cBitLen + 1) + 7) div 8)
      else None)"

section \<open>Rows\<close>

text \<open>
  A \<^verbatim>\<open>FullStepRow\<close> is an array whose first \<open>len\<close> bytes are a hash and whose next \<open>lenIndices\<close> bytes are the
  indices it was made from; the callers carry the two lengths. Here it is the list of these bytes; the rest
  of the array, which is never read, is left out. The template parameter \<open>WIDTH\<close> only serves the assertions.
\<close>

type_synonym FullStepRow = bytes

definition row_indices :: "nat \<Rightarrow> nat \<Rightarrow> FullStepRow \<Rightarrow> bytes" where
  "row_indices len lenIndices a = take lenIndices (drop len a)"

definition IndicesBefore :: "FullStepRow \<Rightarrow> FullStepRow \<Rightarrow> nat \<Rightarrow> nat \<Rightarrow> bool" where
  "IndicesBefore self a len lenIndices =
     memcmp_less (row_indices len lenIndices self) (row_indices len lenIndices a)"

definition FullStepRow_of :: "nat \<Rightarrow> bytes \<Rightarrow> nat \<Rightarrow> nat \<Rightarrow> eh_index \<Rightarrow> FullStepRow option" where
  "FullStepRow_of wd hashIn hLen cBitLen i =
     (if hLen \<le> wd
      then do { hash \<leftarrow> ExpandArray hashIn hLen cBitLen 0; Some (hash @ EhIndexToArray i) }
      else None)"

definition FullStepRow_combine ::
  "nat \<Rightarrow> nat \<Rightarrow> FullStepRow \<Rightarrow> FullStepRow \<Rightarrow> nat \<Rightarrow> nat \<Rightarrow> nat \<Rightarrow> FullStepRow option" where
  "FullStepRow_combine W wd a b len lenIndices trim =
     (if len + lenIndices \<le> W \<and> len - trim + 2 * lenIndices \<le> wd
      then Some (map2 (XOR) (drop trim (take len a)) (drop trim (take len b)) @
                 (if IndicesBefore a b len lenIndices
                  then row_indices len lenIndices a @ row_indices len lenIndices b
                  else row_indices len lenIndices b @ row_indices len lenIndices a))
      else None)"

definition IsZero :: "FullStepRow \<Rightarrow> nat \<Rightarrow> bool" where
  "IsZero a len = list_all (\<lambda>b. b = 0) (take len a)"

definition GetIndices :: "FullStepRow \<Rightarrow> nat \<Rightarrow> nat \<Rightarrow> nat \<Rightarrow> bytes option" where
  "GetIndices a len lenIndices cBitLen =
     (if ((cBitLen + 1) + 7) div 8 \<le> 4
      then CompressArray (row_indices len lenIndices a) ((cBitLen + 1) * lenIndices div (8 * 4)) (cBitLen + 1)
             (4 - ((cBitLen + 1) + 7) div 8)
      else None)"

definition HasCollision :: "FullStepRow \<Rightarrow> FullStepRow \<Rightarrow> nat \<Rightarrow> bool" where
  "HasCollision a b l = list_all2 (=) (take l a) (take l b)"

fun index_arrays :: "bytes \<Rightarrow> bytes list" where
  "index_arrays [] = []"
| "index_arrays (b # bs) = take 4 (b # bs) # index_arrays (drop 3 bs)"

definition DistinctIndices :: "FullStepRow \<Rightarrow> FullStepRow \<Rightarrow> nat \<Rightarrow> nat \<Rightarrow> bool" where
  "DistinctIndices a b len lenIndices =
     list_all (\<lambda>i. list_all (\<lambda>j. i \<noteq> j) (index_arrays (row_indices len lenIndices b)))
       (index_arrays (row_indices len lenIndices a))"

definition IsValidBranch :: "FullStepRow \<Rightarrow> nat \<Rightarrow> nat \<Rightarrow> eh_trunc \<Rightarrow> bool" where
  "IsValidBranch a len ilen t = (TruncateIndex (ArrayToEhIndex (drop len a)) ilen = t)"

section \<open>The verifier\<close>

definition solution_row ::
  "(nat \<Rightarrow> bytes \<Rightarrow> bytes \<Rightarrow> bytes) \<Rightarrow> nat \<Rightarrow> nat \<Rightarrow> eh_HashState \<Rightarrow> eh_index \<Rightarrow> FullStepRow option" where
  "solution_row blake2b N K base_state i =
     (let tmpHash = GenerateHash blake2b base_state (i div of_nat (IndicesPerHashOutput N)) (HashOutput N)
      in FullStepRow_of (FinalFullWidth N K)
           (take (N div 8) (drop (unat (i mod of_nat (IndicesPerHashOutput N)) * N div 8) tmpHash))
           (HashLength N K) (CollisionBitLength N K) i)"

text \<open>One round over the pairs of rows: \<open>Some None\<close> when the solution is rejected.\<close>

fun verify_pairs ::
  "nat \<Rightarrow> nat \<Rightarrow> nat \<Rightarrow> nat \<Rightarrow> FullStepRow list \<Rightarrow> FullStepRow list option option" where
  "verify_pairs N K hashLen lenIndices [] = Some (Some [])"
| "verify_pairs N K hashLen lenIndices [a] = None"
| "verify_pairs N K hashLen lenIndices (a # b # X) =
     (if \<not> HasCollision a b (CollisionByteLength N K) then Some None
      else if IndicesBefore b a hashLen lenIndices then Some None
      else if \<not> DistinctIndices a b hashLen lenIndices then Some None
      else do { c \<leftarrow> FullStepRow_combine (FinalFullWidth N K) (FinalFullWidth N K) a b hashLen lenIndices
                       (CollisionByteLength N K);
                rest \<leftarrow> verify_pairs N K hashLen lenIndices X;
                Some (map_option ((#) c) rest) })"

lemma verify_pairs_halves:
  "verify_pairs N K hashLen lenIndices X = Some (Some Xc) \<Longrightarrow> length X = 2 * length Xc"
  by (induction N K hashLen lenIndices X arbitrary: Xc rule: verify_pairs.induct)
    (auto split: if_splits bind_splits)

function verify_rounds :: "nat \<Rightarrow> nat \<Rightarrow> nat \<Rightarrow> nat \<Rightarrow> FullStepRow list \<Rightarrow> bool option" where
  "verify_rounds N K hashLen lenIndices X =
     (if 1 < length X
      then case verify_pairs N K hashLen lenIndices X of
             None \<Rightarrow> None
           | Some None \<Rightarrow> Some False
           | Some (Some Xc) \<Rightarrow> verify_rounds N K (hashLen - CollisionByteLength N K) (lenIndices * 2) Xc
      else case X of [x] \<Rightarrow> Some (IsZero x hashLen) | _ \<Rightarrow> None)"
  by pat_completeness auto
termination
  by (relation "measure (\<lambda>(N, K, hashLen, lenIndices, X). length X)") (auto dest!: verify_pairs_halves)

declare verify_rounds.simps [simp del]

definition IsValidSolution ::
  "(nat \<Rightarrow> bytes \<Rightarrow> bytes \<Rightarrow> bytes) \<Rightarrow> nat \<Rightarrow> nat \<Rightarrow> eh_HashState \<Rightarrow> bytes \<Rightarrow> bool option" where
  "IsValidSolution blake2b N K base_state soln =
     (if length soln \<noteq> SolutionWidth N K then Some False
      else do { indices \<leftarrow> GetIndicesFromMinimal soln (CollisionBitLength N K);
                X \<leftarrow> those (map (solution_row blake2b N K base_state) indices);
                verify_rounds N K (HashLength N K) 4 X })"

text \<open>The parameters for which the templates are instantiated; others raise an exception.\<close>

definition eh_supported :: "nat \<Rightarrow> nat \<Rightarrow> bool" where
  "eh_supported n k =
     (n = 96 \<and> k = 3 \<or> n = 200 \<and> k = 9 \<or> n = 96 \<and> k = 5 \<or> n = 48 \<and> k = 5)"

definition EhInitialiseState :: "nat \<Rightarrow> nat \<Rightarrow> eh_HashState option" where
  "EhInitialiseState n k = (if eh_supported n k then Some (InitialiseState n k) else None)"

definition EhIsValidSolution ::
  "(nat \<Rightarrow> bytes \<Rightarrow> bytes \<Rightarrow> bytes) \<Rightarrow> nat \<Rightarrow> nat \<Rightarrow> eh_HashState \<Rightarrow> bytes \<Rightarrow> bool option" where
  "EhIsValidSolution blake2b n k base_state soln =
     (if eh_supported n k then IsValidSolution blake2b n k base_state soln else None)"

definition CheckEquihashSolution ::
  "(nat \<Rightarrow> bytes \<Rightarrow> bytes \<Rightarrow> bytes) \<Rightarrow> 'a CBlockHeader_scheme \<Rightarrow> nat \<Rightarrow> nat \<Rightarrow> bool option" where
  "CheckEquihashSolution blake2b pblock n k = do {
     state \<leftarrow> EhInitialiseState n k;
     EhIsValidSolution blake2b n k
       (blake2b_update state (put_CEquihashInput pblock @ put_blob (bh_nNonce pblock))) (bh_nSolution pblock) }"

section \<open>Numbers in base \<open>2 ^ k\<close>\<close>

text \<open>
  Both array operations change the base in which a number is written: \<open>undigits k\<close> reads a list of digits
  below \<open>2 ^ k\<close>, the most significant first, and \<open>digits k n\<close> writes the last \<open>n\<close> digits.
\<close>

fun digits :: "nat \<Rightarrow> nat \<Rightarrow> nat \<Rightarrow> nat list" where
  "digits k 0 v = []"
| "digits k (Suc n) v = (v div 2 ^ (k * n)) mod 2 ^ k # digits k n v"

fun undigits :: "nat \<Rightarrow> nat list \<Rightarrow> nat" where
  "undigits k [] = 0"
| "undigits k (d # ds) = d * 2 ^ (k * length ds) + undigits k ds"

lemma length_digits [simp]: "length (digits k n v) = n"
  by (induction n) simp_all

lemma digits_bound: "d \<in> set (digits k n v) \<Longrightarrow> d < 2 ^ k"
  by (induction n) auto

lemma undigits_bound: "\<forall>d\<in>set ds. d < 2 ^ k \<Longrightarrow> undigits k ds < 2 ^ (k * length ds)"
proof (induction ds)
  case (Cons d ds)
  have "d * 2 ^ (k * length ds) + undigits k ds < (d + 1) * 2 ^ (k * length ds)"
    using Cons by simp
  also have "\<dots> \<le> 2 ^ k * 2 ^ (k * length ds)"
    using Cons.prems by (intro mult_le_mono1) simp
  finally show ?case by (simp add: power_add)
qed simp

lemma digits_mod: "k * n \<le> m \<Longrightarrow> digits k n (v mod 2 ^ m) = digits k n v"
proof (induction n)
  case (Suc n)
  have "v mod 2 ^ m div 2 ^ (k * n) mod 2 ^ k = v div 2 ^ (k * n) mod 2 ^ k"
    using Suc.prems by (simp flip: take_bit_eq_mod drop_bit_eq_div add: drop_bit_take_bit)
  with Suc show ?case by simp
qed simp

lemma digits_undigits:
  assumes "\<forall>d\<in>set ds. d < 2 ^ k" "length ds = n"
  shows "digits k n (undigits k ds) = ds"
  using assms
proof (induction ds arbitrary: n)
  case (Cons d ds)
  obtain m where n: "n = Suc m" "length ds = m" using Cons.prems by auto
  have b: "undigits k ds < 2 ^ (k * m)" using undigits_bound [of ds k] Cons.prems n by simp
  have "digits k m (d * 2 ^ (k * m) + undigits k ds) = digits k m (undigits k ds)"
    using digits_mod [of k m "k * m" "d * 2 ^ (k * m) + undigits k ds"]
      digits_mod [of k m "k * m" "undigits k ds"] by (simp add: mult.commute)
  with Cons n b show ?case by simp
qed simp

lemma undigits_digits: "undigits k (digits k n v) = v mod 2 ^ (k * n)"
proof (induction n)
  case (Suc n)
  have "v mod (2 ^ (k * n) * 2 ^ k) = 2 ^ (k * n) * (v div 2 ^ (k * n) mod 2 ^ k) + v mod 2 ^ (k * n)"
    by (rule mod_mult2_eq)
  then show ?case
    unfolding digits.simps undigits.simps Suc length_digits by (simp add: power_add ac_simps)
qed simp

lemma undigits_zero: "undigits k ds = 0 \<longleftrightarrow> (\<forall>d\<in>set ds. d = 0)"
  by (induction ds) auto

lemma digits_xor: "digits k n (v XOR w) = map2 (XOR) (digits k n v) (digits k n w)"
proof (induction n)
  case (Suc n)
  have "(v XOR w) div 2 ^ (k * n) mod 2 ^ k =
      (v div 2 ^ (k * n) mod 2 ^ k) XOR (w div 2 ^ (k * n) mod 2 ^ k)"
    by (simp flip: take_bit_eq_mod drop_bit_eq_div)
  with Suc show ?case by simp
qed simp

definition be_write :: "nat \<Rightarrow> nat \<Rightarrow> bytes" where
  "be_write w v = rev (le_write w v)"

definition be_read :: "bytes \<Rightarrow> nat" where
  "be_read bs = undigits 8 (map unat bs)"

lemma length_be_write [simp]: "length (be_write w v) = w"
  by (simp add: be_write_def)

lemma be_write_Suc: "be_write (Suc w) v = be_write w (v div 256) @ [of_nat v]"
  by (simp add: be_write_def)

lemma be_write_Cons: "be_write (Suc w) v = of_nat (v div 256 ^ w) # be_write w v"
proof (induction w arbitrary: v)
  case (Suc w)
  show ?case
    by (subst be_write_Suc, subst Suc) (simp add: be_write_Suc div_mult2_eq)
qed (simp add: be_write_def)

lemma be_write_digits: "be_write w v = map of_nat (digits 8 w v)"
proof (induction w)
  case (Suc w)
  have "(of_nat (x mod 256) :: u8) = of_nat x" for x
    by (simp add: word_of_nat_eq_iff take_bit_eq_mod)
  with Suc show ?case by (simp add: be_write_Cons power_mult)
qed (simp add: be_write_def)

lemma be_write_read: "be_write (length bs) (be_read bs) = bs"
proof -
  have "digits 8 (length bs) (be_read bs) = map unat bs"
    unfolding be_read_def by (rule digits_undigits) (auto simp: unat_lt8)
  then show ?thesis by (simp add: be_write_digits comp_def)
qed

lemma be_read_write: "be_read (be_write w v) = v mod 2 ^ (8 * w)"
proof -
  have "map unat (map of_nat (digits 8 w v) :: bytes) = digits 8 w v"
    using digits_bound [of _ 8 w v] by (auto simp: unat_of_nat intro: map_idI)
  then show ?thesis by (simp add: be_read_def be_write_digits undigits_digits)
qed

lemma be_write_xor: "be_write w (u XOR v) = map2 (XOR) (be_write w u) (be_write w v)"
  by (simp add: be_write_digits digits_xor zip_map_map case_prod_beta comp_def flip: of_nat_xor_eq)

lemma be_write_zero: "list_all (\<lambda>b. b = 0) (be_write w v) \<longleftrightarrow> v mod 2 ^ (8 * w) = 0"
proof
  assume "list_all (\<lambda>b. b = 0) (be_write w v)"
  then have "be_read (be_write w v) = 0" by (auto simp: be_read_def undigits_zero list_all_iff)
  then show "v mod 2 ^ (8 * w) = 0" by (simp add: be_read_write)
next
  assume "v mod 2 ^ (8 * w) = 0"
  then have "undigits 8 (digits 8 w v) = 0" by (simp add: undigits_digits)
  then show "list_all (\<lambda>b. b = 0) (be_write w v)"
    by (auto simp: be_write_digits undigits_zero list_all_iff)
qed

section \<open>What the array operations compute\<close>

lemma digits_map: "digits k n v = map (\<lambda>x. v div 2 ^ (k * (n - x - 1)) mod 2 ^ k) [0..<n]"
proof (rule nth_equalityI)
  fix i
  assume "i < length (digits k n v)"
  moreover have "i < n \<Longrightarrow> digits k n v ! i = v div 2 ^ (k * (n - i - 1)) mod 2 ^ k" for i
    by (induction n arbitrary: i) (auto simp: nth_Cons split: nat.split)
  ultimately show "digits k n v ! i = map (\<lambda>x. v div 2 ^ (k * (n - x - 1)) mod 2 ^ k) [0..<n] ! i" by simp
qed simp

lemma bit_len_mask_mask: "bit_len_mask n = mask n"
  by (simp add: bit_len_mask_def mask_eq_exp_minus_1 push_bit_eq_mult)

lemma byte_mask: "(0xFF :: u32) = mask 8"
  by (simp add: mask_eq_exp_minus_1)

lemma be_write_pad: "e < 2 ^ (8 * c) \<Longrightarrow> be_write (p + c) e = replicate p 0 @ be_write c e"
proof (induction p)
  case (Suc p)
  have "e < 256 ^ (p + c)"
    using Suc.prems by (rule less_le_trans) (simp add: power_mult power_add)
  with Suc show ?case by (simp add: be_write_Cons)
qed simp

lemma bytes_cover: "(n :: nat) \<le> 8 * ((n + 7) div 8)"
  by presburger

lemma expand_element_value:
  assumes b: "acc_bits + bit_len \<le> 32"
  shows "expand_element bit_len byte_pad acc_bits (of_nat A) =
    be_write (byte_pad + (bit_len + 7) div 8) (A div 2 ^ acc_bits mod 2 ^ bit_len)"
proof -
  let ?c = "(bit_len + 7) div 8" and ?e = "A div 2 ^ acc_bits mod 2 ^ bit_len"
  have "(2::nat) ^ bit_len \<le> 2 ^ (8 * ?c)" using bytes_cover [of bit_len] by (intro power_increasing) auto
  then have e: "?e < 2 ^ (8 * ?c)" by (intro less_le_trans [OF mod_less_divisor]) simp_all
  have elem: "(ucast (drop_bit (acc_bits + 8 * j) (of_nat A) AND
      (drop_bit (8 * j) (bit_len_mask bit_len) AND 0xFF)) :: u8) = of_nat (?e div 2 ^ (8 * j) mod 2 ^ 8)" for j
    using b unfolding bit_len_mask_mask byte_mask take_bit_eq_mod [symmetric] drop_bit_eq_div [symmetric]
    by (auto simp: bit_eq_iff bit_simps ac_simps)
  have idx: "[byte_pad..<?c + byte_pad] = map (\<lambda>i. byte_pad + i) [0..<?c]"
    by (simp add: map_add_upt add.commute)
  have "map (\<lambda>x. ucast (drop_bit (acc_bits + 8 * (?c + byte_pad - x - 1)) (of_nat A) AND
      (drop_bit (8 * (?c + byte_pad - x - 1)) (bit_len_mask bit_len) AND 0xFF))) [byte_pad..<?c + byte_pad] =
    be_write ?c ?e"
    unfolding idx be_write_digits digits_map elem by (simp add: comp_def)
  then show ?thesis
    unfolding expand_element_def be_write_pad [OF e] by (simp add: Let_def)
qed

text \<open>The number in the accumulator followed by the digits still to come.\<close>

definition pending :: "nat \<Rightarrow> nat \<Rightarrow> nat \<Rightarrow> nat list \<Rightarrow> nat" where
  "pending w A a ds = (A mod 2 ^ a) * 2 ^ (w * length ds) + undigits w ds"

lemma pending_shift:
  assumes "d < 2 ^ w"
  shows "pending w A a (d # ds) = pending w (A * 2 ^ w + d) (a + w) ds"
proof -
  have "(A * 2 ^ w + d) mod 2 ^ (w + a) = (A mod 2 ^ a) * 2 ^ w + d"
    unfolding power_add mod_mult2_eq using assms by simp
  then show ?thesis by (simp add: pending_def power_add algebra_simps)
qed

lemma pending_first:
  assumes "\<forall>d\<in>set ds. d < 2 ^ w"
  shows "pending w A (m + k) ds div 2 ^ (m + w * length ds) mod 2 ^ k = A div 2 ^ m mod 2 ^ k"
proof -
  have "pending w A (m + k) ds div 2 ^ (w * length ds) = A mod 2 ^ (m + k)"
    using undigits_bound [OF assms] by (simp add: pending_def)
  then have "pending w A (m + k) ds div 2 ^ (m + w * length ds) = A mod 2 ^ (m + k) div 2 ^ m"
    by (metis div_mult2_eq mult.commute power_add)
  then show ?thesis
    by (simp flip: take_bit_eq_mod drop_bit_eq_div add: drop_bit_take_bit)
qed

lemma pending_rest:
  assumes "\<forall>d\<in>set ds. d < 2 ^ w"
  shows "pending w A (m + k) ds mod 2 ^ (m + w * length ds) = pending w A m ds"
proof -
  have "pending w A (m + k) ds mod (2 ^ (w * length ds) * 2 ^ m) =
      2 ^ (w * length ds) * (A mod 2 ^ (m + k) mod 2 ^ m) + undigits w ds"
    unfolding mod_mult2_eq using undigits_bound [OF assms] by (simp add: pending_def)
  also have "A mod 2 ^ (m + k) mod 2 ^ m = A mod 2 ^ m"
    by (simp flip: take_bit_eq_mod)
  finally show ?thesis by (simp add: pending_def power_add mult.commute)
qed

lemma accumulate_byte: "push_bit 8 (of_nat A) OR (ucast (b :: u8) :: u32) = of_nat (A * 2 ^ 8 + unat b)"
proof -
  have "(A * 2 ^ 8 + unat b) = push_bit 8 A OR unat b"
    using or_push_bit_nat [of "unat b" 8 A] unat_lt8 [of b] by (simp add: push_bit_eq_mult ac_simps)
  moreover have "push_bit 8 (of_nat A) OR (ucast b :: u32) = of_nat (push_bit 8 A OR unat b)"
    by (auto simp: bit_eq_iff bit_simps)
  ultimately show ?thesis by simp
qed

lemma expand_loop_digits:
  assumes k: "8 \<le> k" "7 + k \<le> 32"
  shows "a < k \<Longrightarrow> a + 8 * length ins = k * n \<Longrightarrow>
    expand_loop k byte_pad a (of_nat A) ins =
      concat (map (be_write (byte_pad + (k + 7) div 8)) (digits k n (pending 8 A a (map unat ins))))"
proof (induction ins arbitrary: a A n)
  case Nil
  then show ?case by (cases n) auto
next
  case (Cons b ins)
  let ?A = "A * 2 ^ 8 + unat b" and ?w = "byte_pad + (k + 7) div 8"
  have small: "\<forall>d\<in>set (map unat ins). d < 2 ^ 8" by (auto simp: unat_lt8)
  have shift: "pending 8 A a (map unat (b # ins)) = pending 8 ?A (a + 8) (map unat ins)"
    using pending_shift [of "unat b" 8 A a] unat_lt8 [of b] by simp
  show ?case
  proof (cases "k \<le> a + 8")
    case True
    then obtain m where m: "a + 8 = m + k" by (metis add.commute le_iff_add)
    obtain n' where n: "n = Suc n'" using Cons.prems True by (cases n) auto
    have len: "m + 8 * length ins = k * n'" using Cons.prems m n by simp
    let ?W = "pending 8 ?A (m + k) (map unat ins)"
    have "digits k n ?W = ?W div 2 ^ (k * n') mod 2 ^ k # digits k n' (?W mod 2 ^ (k * n'))"
      by (simp add: n digits_mod)
    also have "\<dots> = ?A div 2 ^ m mod 2 ^ k # digits k n' (pending 8 ?A m (map unat ins))"
      using pending_first [OF small, of ?A m k] pending_rest [OF small, of ?A m k] by (simp add: len)
    finally have d: "digits k n ?W = \<dots>" .
    have "m < k" "m + k \<le> 32" using m Cons.prems k by auto
    moreover have "a + 8 - k = m" using m by simp
    then have "expand_loop k byte_pad a (of_nat A) (b # ins) =
        expand_element k byte_pad m (of_nat ?A) @ expand_loop k byte_pad m (of_nat ?A) ins"
      using True unfolding expand_loop.simps Let_def accumulate_byte by (simp only: if_True)
    ultimately show ?thesis
      unfolding shift m d by (simp only: Cons.IH [OF _ len] expand_element_value list.map concat.simps)
  next
    case False
    with Cons.IH [of "a + 8" n ?A] Cons.prems show ?thesis
      unfolding shift by (simp add: accumulate_byte Let_def del: of_nat_add of_nat_mult)
  qed
qed

lemma ExpandArray_digits:
  assumes k: "8 \<le> k" "7 + k \<le> 32" and l: "8 * length ins = k * n"
    and w: "out_len = ((k + 7) div 8 + byte_pad) * n"
  shows "ExpandArray ins out_len k byte_pad =
    Some (concat (map (be_write (byte_pad + (k + 7) div 8)) (digits k n (be_read ins))))"
proof -
  have "8 * ((k + 7) div 8 + byte_pad) * length ins div k = ((k + 7) div 8 + byte_pad) * (8 * length ins) div k"
    by (simp add: ac_simps)
  also have "\<dots> = out_len" using k unfolding l w by simp
  finally show ?thesis
    using expand_loop_digits [OF k, of 0 ins n byte_pad 0] k l
    by (simp add: ExpandArray_def pending_def be_read_def Let_def)
qed

lemma bit_foldl_or:
  "bit (foldl (\<lambda>acc x. acc OR f x) a xs) n \<longleftrightarrow> bit (a :: 'a::len word) n \<or> (\<exists>x\<in>set xs. bit (f x) n)"
  by (induction xs arbitrary: a) (auto simp: bit_or_iff)

lemma bit_bound_nat: "(e :: nat) < 2 ^ k \<Longrightarrow> bit e n \<Longrightarrow> n < k"
  by (metis bit_take_bit_iff take_bit_nat_eq_self)

lemma be_write_nth:
  assumes "j < c"
  shows "be_write c e ! (c - Suc j) = of_nat (take_bit 8 (drop_bit (8 * j) e))"
  using assms by (simp add: be_write_digits digits_map take_bit_eq_mod drop_bit_eq_div)

lemma compress_element_value:
  assumes e: "e < 2 ^ k"
  shows "compress_element k byte_pad (of_nat A) (be_write (byte_pad + (k + 7) div 8) e @ rest) =
    of_nat (A * 2 ^ k + e)"
proof -
  let ?c = "(k + 7) div 8"
  let ?ins = "be_write (byte_pad + ?c) e @ rest"
  let ?f = "\<lambda>x. push_bit (8 * (?c + byte_pad - x - 1))
    ((ucast (?ins ! x) :: u32) AND (drop_bit (8 * (?c + byte_pad - x - 1)) (bit_len_mask k) AND 0xFF))"
  have c: "e < 2 ^ (8 * ?c)"
    using e bytes_cover [of k] by (meson less_le_trans one_le_numeral power_increasing)
  have f: "bit (?f (byte_pad + (?c - Suc j))) n \<longleftrightarrow> 8 * j \<le> n \<and> n < 8 * j + 8 \<and> n < 32 \<and> bit e n"
    if j: "j < ?c" for j n
  proof -
    have "?ins ! (byte_pad + (?c - Suc j)) = of_nat (take_bit 8 (drop_bit (8 * j) e))"
      using j be_write_nth [OF j] by (auto simp: be_write_pad [OF c] nth_append)
    moreover have "?c + byte_pad - (byte_pad + (?c - Suc j)) - 1 = j" using j by simp
    ultimately show ?thesis
      using bit_bound_nat [OF e, of n] unfolding bit_len_mask_mask byte_mask
      by (auto simp: bit_simps)
  qed
  have "(\<exists>x\<in>set [byte_pad..<?c + byte_pad]. bit (?f x) n) \<longleftrightarrow> n < 32 \<and> bit e n" for n
  proof
    assume "\<exists>x\<in>set [byte_pad..<?c + byte_pad]. bit (?f x) n"
    then obtain x where x: "byte_pad \<le> x" "x < ?c + byte_pad" "bit (?f x) n" by auto
    define j where "j = ?c - Suc (x - byte_pad)"
    have "x = byte_pad + (?c - Suc j)" "j < ?c" using x by (auto simp: j_def)
    with f x(3) show "n < 32 \<and> bit e n" by blast
  next
    assume n: "n < 32 \<and> bit e n"
    then have "n < k" using bit_bound_nat [OF e] by blast
    then have "(n + 8) div 8 \<le> ?c" by (intro div_le_mono) simp
    then have j: "n div 8 < ?c" "8 * (n div 8) \<le> n" "n < 8 * (n div 8) + 8"
      using dividend_less_times_div [of 8 n] by auto
    then have "bit (?f (byte_pad + (?c - Suc (n div 8)))) n" using f [OF j(1), of n] n by blast
    moreover have "byte_pad + (?c - Suc (n div 8)) \<in> set [byte_pad..<?c + byte_pad]" using j(1) by auto
    ultimately show "\<exists>x\<in>set [byte_pad..<?c + byte_pad]. bit (?f x) n" by blast
  qed
  then have "compress_element k byte_pad (of_nat A) ?ins = of_nat (e OR push_bit k A)"
    unfolding compress_element_def Let_def by (auto simp: bit_eq_iff bit_foldl_or bit_simps)
  then show ?thesis unfolding or_push_bit_nat [OF e] by (simp add: push_bit_eq_mult add.commute)
qed

lemma accumulator_byte:
  "a + 8 \<le> 32 \<Longrightarrow> (ucast (drop_bit a (of_nat A :: u32) AND 0xFF) :: u8) = of_nat (A div 2 ^ a mod 2 ^ 8)"
  unfolding byte_mask take_bit_eq_mod [symmetric] drop_bit_eq_div [symmetric]
  by (auto simp: bit_eq_iff bit_simps ac_simps)

lemma compress_loop_digits:
  assumes k: "8 \<le> k" "7 + k \<le> 32"
  shows "a \<le> 32 \<Longrightarrow> \<forall>d\<in>set ds. d < 2 ^ k \<Longrightarrow> a + k * length ds = 8 * n \<Longrightarrow>
    compress_loop k byte_pad n a (of_nat A) (concat (map (be_write (byte_pad + (k + 7) div 8)) ds)) =
      be_write n (pending k A a ds)"
proof (induction n arbitrary: a A ds)
  case (Suc n)
  let ?w = "byte_pad + (k + 7) div 8"
  let ?enc = "\<lambda>ds. concat (map (be_write ?w) ds)"
  have step: "compress_loop k byte_pad (Suc n) (m + 8) (of_nat A) (?enc ds) =
      be_write (Suc n) (pending k A (m + 8) ds)"
    if "m + 8 \<le> 32" "\<forall>d\<in>set ds. d < 2 ^ k" "m + 8 + k * length ds = 8 * Suc n" for m A ds
  proof -
    have l: "m + k * length ds = 8 * n" using that(3) by simp
    have "be_write (Suc n) (pending k A (m + 8) ds) =
        map of_nat (pending k A (m + 8) ds div 2 ^ (8 * n) mod 2 ^ 8 # digits 8 n (pending k A (m + 8) ds mod 2 ^ (8 * n)))"
      unfolding be_write_digits by (simp add: digits_mod)
    also have "\<dots> = map of_nat (A div 2 ^ m mod 2 ^ 8 # digits 8 n (pending k A m ds))"
      using pending_first [OF that(2), of A m 8] pending_rest [OF that(2), of A m 8] unfolding l by (simp only:)
    finally have "be_write (Suc n) (pending k A (m + 8) ds) =
        of_nat (A div 2 ^ m mod 2 ^ 8) # be_write n (pending k A m ds)"
      by (simp only: be_write_digits list.map)
    then show ?thesis
      using that(1) Suc.IH [OF _ that(2) l, of A] accumulator_byte [OF that(1), of A]
      by (simp add: Let_def del: of_nat_add)
  qed
  show ?case
  proof (cases "a < 8")
    case True
    then obtain d ds' where ds: "ds = d # ds'" using Suc.prems k by (cases ds) auto
    have d: "d < 2 ^ k" using Suc.prems ds by simp
    obtain m where m: "a + k = m + 8" using k by (metis add.commute le_iff_add trans_le_add2)
    have "compress_loop k byte_pad (Suc n) a (of_nat A) (?enc ds) =
        compress_loop k byte_pad (Suc n) (m + 8) (of_nat (A * 2 ^ k + d)) (?enc ds')"
      using True m compress_element_value [OF d, of byte_pad A "?enc ds'"]
      unfolding ds by (simp add: Let_def add.commute [of _ byte_pad] del: of_nat_add of_nat_mult)
    then show ?thesis
      using step [of m ds' "A * 2 ^ k + d"] True k Suc.prems m pending_shift [OF d, of A a ds']
      by (simp add: ds)
  next
    case False
    then obtain m where "a = m + 8" by (metis add.commute leI le_iff_add)
    with step [of m ds A] Suc.prems show ?thesis by simp
  qed
qed (simp add: be_write_def)

lemma CompressArray_digits:
  assumes k: "8 \<le> k" "7 + k \<le> 32" and ds: "\<forall>d\<in>set ds. d < 2 ^ k" and l: "k * length ds = 8 * n"
  shows "CompressArray (concat (map (be_write (byte_pad + (k + 7) div 8)) ds)) n k byte_pad =
    Some (be_write n (undigits k ds))"
proof -
  let ?w = "(k + 7) div 8 + byte_pad"
  have "length (concat (map (be_write ?w) ds)) = length ds * ?w" by (simp add: length_concat comp_def sum_list_triv)
  moreover have "k * (length ds * ?w) div (8 * ?w) = n"
  proof -
    have "k * (length ds * ?w) = n * (8 * ?w)" using l by (simp add: mult.assoc [symmetric])
    moreover have "0 < 8 * ?w" using k by (simp add: div_greater_zero_iff)
    ultimately show ?thesis by simp
  qed
  ultimately show ?thesis
    using compress_loop_digits [OF k, of 0 ds n byte_pad 0] k ds l
    by (simp add: CompressArray_def pending_def Let_def add.commute [of byte_pad])
qed

section \<open>Solutions and their indices\<close>

lemma EhIndexToArray_bytes: "\<exists>a b c d. EhIndexToArray i = [a, b, c, d]"
  using length_WriteBE(1) [of i] unfolding EhIndexToArray_def
  by (auto simp: numeral_eq_Suc length_Suc_conv simp del: length_WriteBE)

lemma indices_of_array_encoded [simp]: "indices_of_array (concat (map EhIndexToArray is)) = is"
proof (induction "is")
  case (Cons i "is")
  obtain a b c d where "EhIndexToArray i = [a, b, c, d]"
    using EhIndexToArray_bytes by blast
  moreover have "ArrayToEhIndex (EhIndexToArray i @ concat (map EhIndexToArray is)) = i"
    by (simp add: ArrayToEhIndex_def EhIndexToArray_def)
  ultimately show ?case using Cons by simp
qed simp

lemma index_arrays_encoded [simp]: "index_arrays (concat (map EhIndexToArray is)) = map EhIndexToArray is"
proof (induction "is")
  case (Cons i "is")
  obtain a b c d where "EhIndexToArray i = [a, b, c, d]"
    using EhIndexToArray_bytes by blast
  with Cons show ?case by simp
qed simp

lemma EhIndexToArray_be_write: "EhIndexToArray i = be_write 4 (unat i)"
  by (simp add: EhIndexToArray_def WriteBE32_def be_write_def)

lemma EhIndexToArray_eq [simp]: "EhIndexToArray i = EhIndexToArray j \<longleftrightarrow> i = j"
  by (metis EhIndexToArray_def ReadBE_WriteBE(1))

lemma EhIndexToArray_length [simp]: "length (EhIndexToArray i) = 4"
  by (simp add: EhIndexToArray_def)

lemma length_encoded [simp]: "length (concat (map EhIndexToArray is)) = 4 * length is"
  by (induction "is") (simp_all add: EhIndexToArray_def)

definition index_bits_ok :: "nat \<Rightarrow> bool" where
  "index_bits_ok cBitLen = (7 \<le> cBitLen \<and> cBitLen \<le> 24)"

lemma index_width:
  assumes "index_bits_ok c"
  shows "4 - (c + 8) div 8 + (c + 8) div 8 = 4" "(c + 8) div 8 \<le> 4" "((c + 1) + 7) div 8 \<le> 4"
  using assms by (auto simp: index_bits_ok_def)

lemma index_digit_small:
  assumes "index_bits_ok c" "d \<in> set (digits (c + 1) n v)"
  shows "d < 2 ^ 32"
  using assms(1) digits_bound [OF assms(2)] power_increasing [of "c + 1" 32 "2::nat"]
  by (simp add: index_bits_ok_def)

lemma index_digits_unat:
  "index_bits_ok c \<Longrightarrow> map unat (map of_nat (digits (c + 1) n v) :: eh_index list) = digits (c + 1) n v"
  by (auto simp: unat_of_nat comp_def intro!: map_idI dest: index_digit_small)

lemma GetIndicesFromMinimal_digits:
  assumes c: "index_bits_ok c" and l: "8 * length s = (c + 1) * n"
  shows "GetIndicesFromMinimal s c = Some (map of_nat (digits (c + 1) n (be_read s)))"
proof -
  let ?ds = "digits (c + 1) n (be_read s)"
  have "8 * 4 * length s = 4 * ((c + 1) * n)" using l by linarith
  then have "8 * 4 * length s div (c + 1) = 4 * ((c + 1) * n) div (c + 1)" by (simp only:)
  also have "\<dots> = 4 * n" by (metis add_is_0 div_mult_self1_is_m mult.left_commute neq0_conv one_neq_zero)
  finally have "ExpandArray s (8 * 4 * length s div (c + 1)) (c + 1) (4 - ((c + 1) + 7) div 8) =
      Some (concat (map (be_write 4) ?ds))"
    using ExpandArray_digits [of "c + 1" s n "4 * n" "4 - ((c + 1) + 7) div 8"] c l index_width [OF c]
    by (simp add: index_bits_ok_def add.commute [of "(c + 8) div 8"])
  also have "map (be_write 4) ?ds = map EhIndexToArray (map of_nat ?ds)"
    using index_digit_small [OF c] by (auto simp: EhIndexToArray_be_write unat_of_nat)
  finally show ?thesis
    using index_width(3) [OF c] unfolding GetIndicesFromMinimal_def by (simp del: map_map)
qed

lemma GetMinimalFromIndices_digits:
  assumes c: "index_bits_ok c" and l: "(c + 1) * length is = 8 * n" and b: "\<forall>i\<in>set is. unat i < 2 ^ (c + 1)"
  shows "CompressArray (concat (map EhIndexToArray is)) n (c + 1) (4 - ((c + 1) + 7) div 8) =
      Some (be_write n (undigits (c + 1) (map unat is)))" (is ?C)
    and "GetMinimalFromIndices is c = Some (be_write n (undigits (c + 1) (map unat is)))"
proof -
  have "(c + 1) * (length is * 4) div (8 * 4) = n" using l by (simp add: mult.assoc [symmetric])
  moreover have arr: "concat (map EhIndexToArray is) = concat (map (be_write 4) (map unat is))"
    by (simp add: EhIndexToArray_be_write [abs_def] comp_def)
  show ?C
    unfolding arr using CompressArray_digits [of "c + 1" "map unat is" n "4 - ((c + 1) + 7) div 8"] c l b index_width [OF c]
    by (simp add: index_bits_ok_def del: map_map)
  ultimately show "GetMinimalFromIndices is c = Some (be_write n (undigits (c + 1) (map unat is)))"
    using index_width [OF c] by (simp add: GetMinimalFromIndices_def)
qed

lemma minimal_inverse:
  assumes c: "index_bits_ok c" and l: "8 * length s = (c + 1) * length is"
  shows "GetMinimalFromIndices is c = Some s \<and> (\<forall>i\<in>set is. unat i < 2 ^ (c + 1)) \<longleftrightarrow>
    GetIndicesFromMinimal s c = Some is"
proof
  assume "GetMinimalFromIndices is c = Some s \<and> (\<forall>i\<in>set is. unat i < 2 ^ (c + 1))"
  then have s: "s = be_write (length s) (undigits (c + 1) (map unat is))"
    and b: "\<forall>d\<in>set (map unat is). d < 2 ^ (c + 1)"
    using GetMinimalFromIndices_digits(2) [OF c l [symmetric]] by auto
  have "undigits (c + 1) (map unat is) < 2 ^ ((c + 1) * length is)" using undigits_bound [OF b] by simp
  then have "be_read s = undigits (c + 1) (map unat is)"
    using l by (subst s) (simp add: be_read_write)
  then have "digits (c + 1) (length is) (be_read s) = map unat is"
    using digits_undigits [OF b] by simp
  then show "GetIndicesFromMinimal s c = Some is"
    using GetIndicesFromMinimal_digits [OF c l] by (simp add: comp_def)
next
  assume "GetIndicesFromMinimal s c = Some is"
  then have i: "is = map of_nat (digits (c + 1) (length is) (be_read s))"
    using GetIndicesFromMinimal_digits [OF c l] by simp
  then have u: "map unat is = digits (c + 1) (length is) (be_read s)"
    using index_digits_unat [OF c, of "length is" "be_read s"] by metis
  then have b: "\<forall>i\<in>set is. unat i < 2 ^ (c + 1)"
    using digits_bound by (metis image_eqI list.set_map)
  have "be_read s < 2 ^ (8 * length s)"
    unfolding be_read_def using undigits_bound [of "map unat s" 8] by (auto simp: unat_lt8)
  then have "undigits (c + 1) (map unat is) = be_read s"
    unfolding u undigits_digits l by simp
  then show "GetMinimalFromIndices is c = Some s \<and> (\<forall>i\<in>set is. unat i < 2 ^ (c + 1))"
    using GetMinimalFromIndices_digits(2) [OF c l [symmetric] b] b by (simp add: be_write_read)
qed

section \<open>What the verifier accepts\<close>

text \<open>
  The specification speaks of numbers: \<open>eh_hash\<close> is the number of \<open>N\<close> bits that belongs to an index. A list of
  \<open>2 ^ r\<close> indices is a tree of depth \<open>r\<close> when its halves are, no index is in both halves, the first index of the left half
  is the smaller one, and the exclusive or of all the hashes starts with \<open>r\<close> times the collision length zero bits.
\<close>

definition blake2b_ok :: "(nat \<Rightarrow> bytes \<Rightarrow> bytes \<Rightarrow> bytes) \<Rightarrow> nat \<Rightarrow> bool" where
  "blake2b_ok blake2b n = (\<forall>p m. length (blake2b n p m) = n)"

definition eh_hash ::
  "(nat \<Rightarrow> bytes \<Rightarrow> bytes \<Rightarrow> bytes) \<Rightarrow> nat \<Rightarrow> eh_HashState \<Rightarrow> eh_index \<Rightarrow> nat" where
  "eh_hash blake2b N st i =
     be_read (take (N div 8) (drop (unat i mod (512 div N) * (N div 8))
       (blake2b (eh_outlen st) (eh_personal st) (eh_message st @ WriteLE32 (of_nat (unat i div (512 div N)))))))"

fun xor_all :: "(eh_index \<Rightarrow> nat) \<Rightarrow> eh_index list \<Rightarrow> nat" where
  "xor_all h [] = 0"
| "xor_all h (i # is) = h i XOR xor_all h is"

fun equihash_tree :: "nat \<Rightarrow> nat \<Rightarrow> (eh_index \<Rightarrow> nat) \<Rightarrow> nat \<Rightarrow> eh_index list \<Rightarrow> bool" where
  "equihash_tree N cbl h 0 is = True"
| "equihash_tree N cbl h (Suc r) is =
     (let l = take (2 ^ r) is; r' = drop (2 ^ r) is
      in equihash_tree N cbl h r l \<and> equihash_tree N cbl h r r' \<and>
         xor_all h is < 2 ^ (N - Suc r * cbl) \<and> hd l < hd r' \<and> set l \<inter> set r' = {})"

lemma xor_all_append [simp]: "xor_all h (xs @ ys) = xor_all h xs XOR xor_all h ys"
  by (induction xs) (simp_all add: xor.assoc)

lemma equihash_tree_pair:
  "length a = 2 ^ r \<Longrightarrow> equihash_tree N cbl h (Suc r) (a @ b) \<longleftrightarrow>
     equihash_tree N cbl h r a \<and> equihash_tree N cbl h r b \<and>
     xor_all h (a @ b) < 2 ^ (N - Suc r * cbl) \<and> hd a < hd b \<and> set a \<inter> set b = {}"
  by (simp add: Let_def)

lemma equihash_tree_parts:
  "equihash_tree N cbl h (m + r) (concat Cs) \<Longrightarrow> length Cs = 2 ^ m \<Longrightarrow> \<forall>C\<in>set Cs. length C = 2 ^ r \<Longrightarrow>
    \<forall>C\<in>set Cs. equihash_tree N cbl h r C"
proof (induction m arbitrary: Cs)
  case 0
  then obtain C where "Cs = [C]" by (auto simp: length_Suc_conv)
  with 0 show ?case by simp
next
  case (Suc m)
  let ?l = "take (2 ^ m) Cs" and ?r = "drop (2 ^ m) Cs"
  have len: "length ?l = 2 ^ m" "length ?r = 2 ^ m" using Suc.prems by simp_all
  have all: "\<forall>C\<in>set ?l. length C = 2 ^ r" "\<forall>C\<in>set ?r. length C = 2 ^ r"
    using Suc.prems by (auto dest: in_set_takeD in_set_dropD)
  have "length (concat ?l) = sum_list (map (\<lambda>C. 2 ^ r) ?l)"
    unfolding length_concat using all(1) by (intro arg_cong [where f = sum_list] map_cong) auto
  also have "\<dots> = 2 ^ (m + r)" using len by (simp add: sum_list_triv power_add)
  finally have t: "equihash_tree N cbl h (m + r) (concat ?l)" "equihash_tree N cbl h (m + r) (concat ?r)"
    using equihash_tree_pair [of "concat ?l" "m + r" N cbl h "concat ?r"] Suc.prems(1)
    by (simp_all flip: concat_append)
  have "set Cs = set ?l \<union> set ?r" by (metis append_take_drop_id set_append)
  with Suc.IH [OF t(1) len(1) all(1)] Suc.IH [OF t(2) len(2) all(2)] show ?case by blast
qed

lemma memcmp_less_append:
  "length x = length y \<Longrightarrow> x \<noteq> y \<Longrightarrow> memcmp_less (x @ x') (y @ y') = memcmp_less x y"
  by (induction x y rule: list_induct2) auto

lemma memcmp_be_write:
  "u < 2 ^ (8 * w) \<Longrightarrow> v < 2 ^ (8 * w) \<Longrightarrow> memcmp_less (be_write w u) (be_write w v) \<longleftrightarrow> u < v"
proof (induction w arbitrary: u v)
  case 0
  then show ?case by (simp add: be_write_def)
next
  case (Suc w)
  have m: "be_write w x = be_write w (x mod 2 ^ (8 * w))" for x
    by (simp add: be_write_digits digits_mod)
  have b: "x div 256 ^ w < 256" if "x < 2 ^ (8 * Suc w)" for x :: nat
    using that by (simp add: less_mult_imp_div_less power_add power_mult)
  then have n: "(of_nat (u div 256 ^ w) :: u8) = of_nat (v div 256 ^ w) \<longleftrightarrow> u div 256 ^ w = v div 256 ^ w"
    "(of_nat (u div 256 ^ w) :: u8) < of_nat (v div 256 ^ w) \<longleftrightarrow> u div 256 ^ w < v div 256 ^ w"
    using Suc.prems by (simp_all add: word_of_nat_eq_iff word_of_nat_less_iff take_bit_eq_mod)
  have split: "x = x div 256 ^ w * 256 ^ w + x mod 256 ^ w" for x :: nat by (rule div_mult_mod_eq [symmetric])
  have ih: "memcmp_less (be_write w u) (be_write w v) \<longleftrightarrow> u mod 256 ^ w < v mod 256 ^ w"
    using Suc.IH [of "u mod 2 ^ (8 * w)" "v mod 2 ^ (8 * w)"] m [of u] m [of v] by (simp add: power_mult)
  consider "u div 256 ^ w = v div 256 ^ w" | "u div 256 ^ w < v div 256 ^ w" | "v div 256 ^ w < u div 256 ^ w"
    by linarith
  then show ?case
  proof cases
    case 1
    then have "u < v \<longleftrightarrow> u mod 256 ^ w < v mod 256 ^ w"
      by (metis add_less_cancel_left split)
    with 1 show ?thesis by (simp add: be_write_Cons ih)
  next
    case 2
    then have "u < v" by (meson div_le_mono leD leI)
    with 2 n show ?thesis by (simp add: be_write_Cons)
  next
    case 3
    then have "\<not> u < v" by (meson div_le_mono leD less_imp_le)
    with 3 n show ?thesis by (simp add: be_write_Cons)
  qed
qed

lemma memcmp_indices:
  assumes "a \<noteq> []" "b \<noteq> []" "hd a \<noteq> hd b"
  shows "memcmp_less (concat (map EhIndexToArray a)) (concat (map EhIndexToArray b)) \<longleftrightarrow> hd a < hd b"
proof -
  obtain i a' j b' where ij: "a = i # a'" "b = j # b'" "i \<noteq> j" using assms by (metis list.collapse)
  then have "memcmp_less (concat (map EhIndexToArray a)) (concat (map EhIndexToArray b)) \<longleftrightarrow>
      memcmp_less (EhIndexToArray i) (EhIndexToArray j)"
    using memcmp_less_append [of "EhIndexToArray i" "EhIndexToArray j"] by simp
  then show ?thesis
    using ij memcmp_be_write [of "unat i" 4 "unat j"] unat_lt32
    by (simp add: EhIndexToArray_be_write word_less_nat_alt)
qed

fun pair_up :: "'a list list \<Rightarrow> 'a list list" where
  "pair_up (a # b # Cs) = (a @ b) # pair_up Cs"
| "pair_up _ = []"

lemma pair_up_props:
  "length Cs = 2 * n \<Longrightarrow> \<forall>C\<in>set Cs. length C = l \<Longrightarrow>
    length (pair_up Cs) = n \<and> concat (pair_up Cs) = concat Cs \<and> (\<forall>C\<in>set (pair_up Cs). length C = 2 * l)"
proof (induction Cs arbitrary: n rule: pair_up.induct)
  case (1 a b Cs)
  then obtain m where "n = Suc m" by (cases n) auto
  with 1 "1.IH" [of m] show ?case by simp
qed auto


lemma those_map_Some: "those (map Some xs) = Some xs"
  by (induction xs) simp_all

text \<open>
  A pair of parameters the node supports, with hashes of \<open>N\<close> bits. Rows in round \<open>r\<close> stand for lists of \<open>2 ^ r\<close> indices.
\<close>

locale eh_instance =
  fixes N K :: nat
  assumes supported: "eh_supported N K"
begin

abbreviation cbl where "cbl \<equiv> CollisionBitLength N K"
abbreviation cbytes where "cbytes \<equiv> CollisionByteLength N K"

lemma sizes:
  "(K + 1) * cbl = N" "8 \<le> cbl" "cbl \<le> 24" "cbytes \<le> 4" "1 \<le> K" "8 * (N div 8) = N"
  "8 * SolutionWidth N K = (cbl + 1) * 2 ^ K" "0 < 512 div N" "512 div N < 2 ^ 32"
  "cbytes = (cbl + 7) div 8" "N * (512 div N) div 8 = N div 8 * (512 div N)"
  using supported
  by (auto simp: eh_supported_def CollisionBitLength_def CollisionByteLength_def SolutionWidth_def)

definition hash_bytes :: "nat \<Rightarrow> nat \<Rightarrow> bytes" where
  "hash_bytes m v = concat (map (be_write cbytes) (digits cbl m v))"

definition row :: "(eh_index \<Rightarrow> nat) \<Rightarrow> nat \<Rightarrow> eh_index list \<Rightarrow> FullStepRow" where
  "row h r js = hash_bytes (K + 1 - r) (xor_all h js) @ concat (map EhIndexToArray js)"

lemma length_hash_bytes [simp]: "length (hash_bytes m v) = m * cbytes"
  by (simp add: hash_bytes_def length_concat comp_def sum_list_triv)

lemma hash_bytes_Suc:
  "hash_bytes (Suc m) v = be_write cbytes (v div 2 ^ (cbl * m) mod 2 ^ cbl) @ hash_bytes m v"
  by (simp add: hash_bytes_def)

lemma hash_bytes_xor: "hash_bytes m (v XOR w) = map2 (XOR) (hash_bytes m v) (hash_bytes m w)"
proof (induction m)
  case (Suc m)
  have "(v XOR w) div 2 ^ (cbl * m) mod 2 ^ cbl =
      (v div 2 ^ (cbl * m) mod 2 ^ cbl) XOR (w div 2 ^ (cbl * m) mod 2 ^ cbl)"
    by (simp flip: take_bit_eq_mod drop_bit_eq_div)
  with Suc show ?case by (simp add: hash_bytes_Suc be_write_xor)
qed (simp add: hash_bytes_def)

lemma xor_nat_zero: "(v :: nat) XOR w = 0 \<longleftrightarrow> v = w"
  by (auto simp: bit_eq_iff bit_xor_iff)

lemma digit_small: "(d :: nat) < 2 ^ cbl \<Longrightarrow> d < 2 ^ (8 * cbytes)"
  unfolding sizes(10) by (erule less_le_trans) (intro power_increasing bytes_cover, simp)

lemma first_digit_eq:
  assumes v: "v < 2 ^ (cbl * Suc m)" and w: "w < 2 ^ (cbl * Suc m)"
  shows "take cbytes (hash_bytes (Suc m) v) = take cbytes (hash_bytes (Suc m) w) \<longleftrightarrow> v XOR w < 2 ^ (cbl * m)"
proof -
  have d: "x div 2 ^ (cbl * m) < 2 ^ cbl" if "x < 2 ^ (cbl * Suc m)" for x :: nat
    using that by (simp add: less_mult_imp_div_less power_add)
  have "take cbytes (hash_bytes (Suc m) v) = take cbytes (hash_bytes (Suc m) w) \<longleftrightarrow>
      be_write cbytes (v div 2 ^ (cbl * m)) = be_write cbytes (w div 2 ^ (cbl * m))"
    using d [OF v] d [OF w] by (simp add: hash_bytes_Suc)
  also have "\<dots> \<longleftrightarrow> v div 2 ^ (cbl * m) = w div 2 ^ (cbl * m)"
    using be_read_write [of cbytes "v div 2 ^ (cbl * m)"] be_read_write [of cbytes "w div 2 ^ (cbl * m)"]
      digit_small [OF d [OF v]] digit_small [OF d [OF w]] by (metis mod_less)
  also have "\<dots> \<longleftrightarrow> (v XOR w) div 2 ^ (cbl * m) = 0"
    unfolding drop_bit_eq_div [symmetric] drop_bit_xor by (rule xor_nat_zero [symmetric])
  also have "\<dots> \<longleftrightarrow> v XOR w < 2 ^ (cbl * m)" by (simp add: div_eq_0_iff)
  finally show ?thesis .
qed

lemma bound_exp: "r \<le> K + 1 \<Longrightarrow> N - r * cbl = cbl * (K + 1 - r)"
  using sizes(1) diff_mult_distrib [of "K + 1" r cbl] by (simp only: mult.commute)

lemma tree_bound:
  assumes "\<forall>i. h i < 2 ^ N" "equihash_tree N cbl h r js" "length js = 2 ^ r" "r \<le> K"
  shows "xor_all h js < 2 ^ (cbl * (K + 1 - r))"
proof (cases r)
  case 0
  with assms obtain i where "js = [i]" by (auto simp: length_Suc_conv)
  then show ?thesis using spec [OF assms(1), of i] bound_exp [of 0] 0 by simp
next
  case (Suc r')
  then show ?thesis using assms bound_exp [of r] by (simp add: Let_def)
qed

lemma row_parts:
  assumes "length js = 2 ^ r" "r \<le> K"
  shows "row_indices ((K + 1 - r) * cbytes) (4 * 2 ^ r) (row h r js) = concat (map EhIndexToArray js)"
    "take ((K + 1 - r) * cbytes) (row h r js) = hash_bytes (K + 1 - r) (xor_all h js)"
  using assms by (simp_all add: row_indices_def row_def)

lemma widths:
  assumes "r < K"
  shows "(K + 1 - r) * cbytes + 4 * 2 ^ r \<le> FinalFullWidth N K"
    "(K + 1 - r) * cbytes - cbytes + 2 * (4 * 2 ^ r) \<le> FinalFullWidth N K"
proof -
  have grow: "s \<le> K \<Longrightarrow> 2 ^ s + (K - s) \<le> 2 ^ K" for s
  proof (induction "K - s" arbitrary: s)
    case (Suc d)
    then have "2 ^ Suc s + (K - Suc s) \<le> (2::nat) ^ K" by (intro Suc.hyps) auto
    moreover have "(1::nat) \<le> 2 ^ s" by simp
    ultimately show ?case using Suc.hyps(2) unfolding power_Suc by linarith
  qed simp
  obtain d where K: "K = Suc r + d" using assms less_iff_Suc_add by auto
  have "(K + 1 - r) * cbytes = 2 * cbytes + d * cbytes" by (simp add: K algebra_simps)
  moreover have "d * cbytes \<le> d * 4" using sizes(4) by simp
  moreover have "(2::nat) ^ r + Suc d \<le> 2 ^ K" "2 * 2 ^ r + d \<le> (2::nat) ^ K"
    using grow [of r] grow [of "Suc r"] assms by (simp_all add: K)
  ultimately show "(K + 1 - r) * cbytes + 4 * 2 ^ r \<le> FinalFullWidth N K"
    "(K + 1 - r) * cbytes - cbytes + 2 * (4 * 2 ^ r) \<le> FinalFullWidth N K"
    unfolding FinalFullWidth_def by linarith+
qed

lemma row_pair:
  assumes h: "\<forall>i. h i < 2 ^ N" and r: "r < K"
    and a: "equihash_tree N cbl h r a" "length a = 2 ^ r"
    and b: "equihash_tree N cbl h r b" "length b = 2 ^ r"
  shows "HasCollision (row h r a) (row h r b) cbytes \<and>
      \<not> IndicesBefore (row h r b) (row h r a) ((K + 1 - r) * cbytes) (4 * 2 ^ r) \<and>
      DistinctIndices (row h r a) (row h r b) ((K + 1 - r) * cbytes) (4 * 2 ^ r) \<longleftrightarrow>
      equihash_tree N cbl h (Suc r) (a @ b)"
proof -
  have m: "K + 1 - r = Suc (K - r)" using r by simp
  have bounds: "xor_all h a < 2 ^ (cbl * Suc (K - r))" "xor_all h b < 2 ^ (cbl * Suc (K - r))"
    using tree_bound [OF h a] tree_bound [OF h b] r unfolding m by simp_all
  have "HasCollision (row h r a) (row h r b) cbytes \<longleftrightarrow>
      take cbytes (hash_bytes (Suc (K - r)) (xor_all h a)) = take cbytes (hash_bytes (Suc (K - r)) (xor_all h b))"
    unfolding HasCollision_def row_def m by (simp add: list.rel_eq)
  also have "\<dots> \<longleftrightarrow> xor_all h (a @ b) < 2 ^ (N - Suc r * cbl)"
    unfolding first_digit_eq [OF bounds] xor_all_append using bound_exp [of "Suc r"] r by simp
  finally have c: "HasCollision (row h r a) (row h r b) cbytes \<longleftrightarrow> \<dots>" .
  have d: "DistinctIndices (row h r a) (row h r b) ((K + 1 - r) * cbytes) (4 * 2 ^ r) \<longleftrightarrow> set a \<inter> set b = {}"
    unfolding DistinctIndices_def row_parts(1) [OF a(2) less_imp_le [OF r]] row_parts(1) [OF b(2) less_imp_le [OF r]]
    by (auto simp: list_all_iff)
  have ne: "a \<noteq> []" "b \<noteq> []" using a(2) b(2) by auto
  have e: "set a \<inter> set b = {} \<Longrightarrow> hd a \<noteq> hd b"
    using hd_in_set [OF ne(1)] hd_in_set [OF ne(2)] by auto
  have o: "IndicesBefore (row h r b) (row h r a) ((K + 1 - r) * cbytes) (4 * 2 ^ r) \<longleftrightarrow> hd b < hd a"
    if "set a \<inter> set b = {}"
    unfolding IndicesBefore_def row_parts(1) [OF a(2) less_imp_le [OF r]] row_parts(1) [OF b(2) less_imp_le [OF r]]
    by (rule memcmp_indices [OF ne(2,1) not_sym [OF e [OF that]]])
  show ?thesis
  proof (cases "set a \<inter> set b = {}")
    case True
    then have "\<not> hd b < hd a \<longleftrightarrow> hd a < hd b" using e by auto
    with True show ?thesis unfolding equihash_tree_pair [OF a(2)] c d o [OF True] using a(1) b(1) by blast
  next
    case False
    then show ?thesis unfolding equihash_tree_pair [OF a(2)] d by blast
  qed
qed

lemma row_combine:
  assumes r: "r < K" and a: "length a = 2 ^ r" and b: "length b = 2 ^ r" and t: "equihash_tree N cbl h (Suc r) (a @ b)"
  shows "FullStepRow_combine (FinalFullWidth N K) (FinalFullWidth N K) (row h r a) (row h r b)
      ((K + 1 - r) * cbytes) (4 * 2 ^ r) cbytes = Some (row h (Suc r) (a @ b))"
proof -
  note parts = row_parts [OF a less_imp_le [OF r], of h] row_parts [OF b less_imp_le [OF r], of h]
  have ne: "a \<noteq> []" "b \<noteq> []" using a b by auto
  have "hd a < hd b" using t unfolding equihash_tree_pair [OF a] by blast
  then have before: "IndicesBefore (row h r a) (row h r b) ((K + 1 - r) * cbytes) (4 * 2 ^ r)"
    unfolding IndicesBefore_def parts by (subst memcmp_indices [OF ne]) simp_all
  have m: "K + 1 - r = Suc (K - r)" "K + 1 - Suc r = K - r" using r by simp_all
  have trim: "drop cbytes (hash_bytes (K + 1 - r) v) = hash_bytes (K - r) v" for v
    unfolding m hash_bytes_Suc by simp
  show ?thesis
    unfolding FullStepRow_combine_def parts trim hash_bytes_xor [symmetric]
    using before widths [OF r] by (simp add: row_def)
qed

lemma verify_pairs_trees:
  assumes h: "\<forall>i. h i < 2 ^ N" and r: "r < K"
  shows "length Cs = 2 * n \<Longrightarrow> \<forall>C\<in>set Cs. length C = 2 ^ r \<and> equihash_tree N cbl h r C \<Longrightarrow>
    verify_pairs N K ((K + 1 - r) * cbytes) (4 * 2 ^ r) (map (row h r) Cs) =
      Some (if \<forall>C\<in>set (pair_up Cs). equihash_tree N cbl h (Suc r) C
            then Some (map (row h (Suc r)) (pair_up Cs)) else None)"
proof (induction Cs arbitrary: n rule: pair_up.induct)
  case (1 a b Cs)
  let ?l = "(K + 1 - r) * cbytes"
  have ab: "equihash_tree N cbl h r a" "length a = 2 ^ r" "equihash_tree N cbl h r b" "length b = 2 ^ r"
    using 1 by simp_all
  have ih: "verify_pairs N K ?l (4 * 2 ^ r) (map (row h r) Cs) =
      Some (if \<forall>C\<in>set (pair_up Cs). equihash_tree N cbl h (Suc r) C
            then Some (map (row h (Suc r)) (pair_up Cs)) else None)"
    using 1 by (intro "1.IH" [of "n - 1"]) auto
  note p = row_pair [OF h r ab]
  show ?case
  proof (cases "equihash_tree N cbl h (Suc r) (a @ b)")
    case True
    then have "HasCollision (row h r a) (row h r b) cbytes" "\<not> IndicesBefore (row h r b) (row h r a) ?l (4 * 2 ^ r)"
      "DistinctIndices (row h r a) (row h r b) ?l (4 * 2 ^ r)" using p by blast+
    with row_combine [OF r ab(2,4) True] ih True show ?thesis
      by (simp del: equihash_tree.simps add_Suc_right)
  next
    case False
    then consider "\<not> HasCollision (row h r a) (row h r b) cbytes"
      | "IndicesBefore (row h r b) (row h r a) ?l (4 * 2 ^ r)"
      | "\<not> DistinctIndices (row h r a) (row h r b) ?l (4 * 2 ^ r)" using p by blast
    then show ?thesis using False by cases (simp_all del: equihash_tree.simps)
  qed
qed auto

lemma row_IsZero:
  assumes "\<forall>i. h i < 2 ^ N" "equihash_tree N cbl h K C" "length C = 2 ^ K"
  shows "IsZero (row h K C) cbytes \<longleftrightarrow> xor_all h C = 0"
proof -
  have b: "xor_all h C < 2 ^ cbl" using tree_bound [OF assms(1) assms(2,3)] by simp
  have "IsZero (row h K C) cbytes \<longleftrightarrow> list_all (\<lambda>b. b = 0) (be_write cbytes (xor_all h C))"
    using b by (simp add: IsZero_def row_def hash_bytes_Suc hash_bytes_def)
  then show ?thesis using digit_small [OF b] by (simp add: be_write_zero)
qed

lemma verify_rounds_trees:
  assumes h: "\<forall>i. h i < 2 ^ N"
  shows "m + r = K \<Longrightarrow> length Cs = 2 ^ m \<Longrightarrow> \<forall>C\<in>set Cs. length C = 2 ^ r \<and> equihash_tree N cbl h r C \<Longrightarrow>
    verify_rounds N K ((K + 1 - r) * cbytes) (4 * 2 ^ r) (map (row h r) Cs) =
      Some (equihash_tree N cbl h K (concat Cs) \<and> xor_all h (concat Cs) = 0)"
proof (induction m arbitrary: r Cs)
  case 0
  then obtain C where "Cs = [C]" "length C = 2 ^ K" "equihash_tree N cbl h K C" "r = K"
    by (auto simp: length_Suc_conv)
  with row_IsZero [OF h, of C] show ?case by (subst verify_rounds.simps) simp
next
  case (Suc m)
  let ?l = "(K + 1 - r) * cbytes"
  have r: "r < K" and len: "length Cs = 2 * 2 ^ m" using Suc.prems by simp_all
  have "\<forall>C\<in>set Cs. length C = 2 ^ r" using Suc.prems by blast
  note pp = pair_up_props [OF len this]
  note vp = verify_pairs_trees [OF h r len Suc.prems(3)]
  have next_len: "?l - cbytes = (K + 1 - Suc r) * cbytes" by (simp add: diff_mult_distrib)
  have next_idx: "4 * 2 ^ Suc r = (4 * 2 ^ r * 2 :: nat)" by simp
  have "(1::nat) \<le> 2 ^ m" by simp
  then have two: "1 < length (map (row h r) Cs)" unfolding length_map len by linarith
  show ?case
  proof (cases "\<forall>C\<in>set (pair_up Cs). equihash_tree N cbl h (Suc r) C")
    case True
    have "verify_rounds N K ?l (4 * 2 ^ r) (map (row h r) Cs) =
        verify_rounds N K ((K + 1 - Suc r) * cbytes) (4 * 2 ^ Suc r) (map (row h (Suc r)) (pair_up Cs))"
      using True two unfolding next_len [symmetric] next_idx
      by (subst verify_rounds.simps) (simp only: vp if_P [OF True] if_True option.case)
    also have "\<dots> = Some (equihash_tree N cbl h K (concat (pair_up Cs)) \<and> xor_all h (concat (pair_up Cs)) = 0)"
      using Suc.prems pp True by (intro Suc.IH) (simp_all del: equihash_tree.simps)
    finally show ?thesis using pp by simp
  next
    case False
    have "\<not> equihash_tree N cbl h (m + Suc r) (concat (pair_up Cs))"
      using equihash_tree_parts [of N cbl h m "Suc r" "pair_up Cs"] pp False
      by (auto simp del: equihash_tree.simps)
    then have "\<not> equihash_tree N cbl h K (concat Cs)"
      using pp Suc.prems(1) by (simp del: equihash_tree.simps)
    with two show ?thesis
      by (subst verify_rounds.simps) (simp only: vp if_not_P [OF False] if_True option.case simp_thms)
  qed
qed

lemma solution_row_row:
  assumes st: "eh_outlen st = HashOutput N" and len: "blake2b_ok blake2b (HashOutput N)"
  shows "solution_row blake2b N K st i = Some (row (eh_hash blake2b N st) 0 [i])"
proof -
  let ?n = "512 div N"
  let ?out = "blake2b (HashOutput N) (eh_personal st) (eh_message st @ WriteLE32 (of_nat (unat i div ?n)))"
  let ?part = "take (N div 8) (drop (unat i mod ?n * (N div 8)) ?out)"
  have n: "unat (of_nat ?n :: u32) = ?n" using sizes(9) by (simp add: unat_of_nat)
  have "unat i mod ?n * (N div 8) + N div 8 = (unat i mod ?n + 1) * (N div 8)" by simp
  also have "\<dots> \<le> ?n * (N div 8)" using sizes(8) by (intro mult_le_mono1) (simp add: Suc_leI)
  finally have fits: "length ?part = N div 8"
    using len sizes(11) by (simp add: blake2b_ok_def HashOutput_def IndicesPerHashOutput_def mult.commute)
  have lt: "unat i div ?n < 2 ^ 32"
    by (rule le_less_trans [OF div_le_dividend]) (simp add: unat_lt32)
  have i: "i div of_nat (IndicesPerHashOutput N) = of_nat (unat i div ?n)"
    "unat (i mod of_nat (IndicesPerHashOutput N)) = unat i mod ?n"
    unfolding IndicesPerHashOutput_def word_unat_eq_iff unat_div unat_mod n using lt by (simp_all add: unat_of_nat)
  have "8 dvd N" by (metis dvd_triv_left sizes(6))
  then have off: "unat i mod ?n * N div 8 = unat i mod ?n * (N div 8)" by (simp only: div_mult_swap)
  have e8: "8 * length ?part = cbl * (K + 1)" unfolding fits sizes(6) using sizes(1) by (simp only: mult.commute)
  have hl: "HashLength N K = ((cbl + 7) div 8 + 0) * (K + 1)"
    unfolding HashLength_def sizes(10) by simp
  have "7 + cbl \<le> 32" using sizes(3) by simp
  from ExpandArray_digits [OF sizes(2) this e8 hl]
  have "ExpandArray ?part (HashLength N K) cbl 0 = Some (hash_bytes (K + 1) (be_read ?part))"
    unfolding hash_bytes_def sizes(10) by (simp only: add_0)
  moreover have "HashLength N K \<le> FinalFullWidth N K"
    using widths(1) [of 0] sizes(5) by (simp add: HashLength_def)
  moreover have "GenerateHash blake2b st (of_nat (unat i div ?n)) (HashOutput N) = ?out"
    using len st by (simp add: blake2b_ok_def GenerateHash_def blake2b_update_def)
  ultimately show ?thesis
    using st unfolding solution_row_def Let_def i off FullStepRow_of_def
    by (simp add: row_def eh_hash_def)
qed

lemma eh_hash_bound:
  assumes "eh_outlen st = HashOutput N" "blake2b_ok blake2b (HashOutput N)"
  shows "eh_hash blake2b N st i < 2 ^ N"
proof -
  have "be_read bs < 2 ^ (8 * length bs)" for bs
    unfolding be_read_def using undigits_bound [of "map unat bs" 8] by (auto simp: unat_lt8)
  then have "be_read (take (N div 8) xs) < 2 ^ (8 * (N div 8))" for xs
    by (rule less_le_trans) (simp add: power_increasing)
  then show ?thesis unfolding eh_hash_def sizes(6) .
qed

lemma IsValidSolution_indices:
  assumes st: "eh_outlen st = HashOutput N" "blake2b_ok blake2b (HashOutput N)"
    and js: "GetIndicesFromMinimal soln cbl = Some js" "length js = 2 ^ K" "length soln = SolutionWidth N K"
  shows "IsValidSolution blake2b N K st soln =
    Some (equihash_tree N cbl (eh_hash blake2b N st) K js \<and> xor_all (eh_hash blake2b N st) js = 0)"
proof -
  let ?h = "eh_hash blake2b N st"
  have "map (solution_row blake2b N K st) js = map Some (map (row ?h 0) (map (\<lambda>i. [i]) js))"
    by (simp add: solution_row_row [OF st])
  then have "those (map (solution_row blake2b N K st) js) = Some (map (row ?h 0) (map (\<lambda>i. [i]) js))"
    by (simp only: those_map_Some)
  moreover have "verify_rounds N K ((K + 1 - 0) * cbytes) (4 * 2 ^ 0) (map (row ?h 0) (map (\<lambda>i. [i]) js)) =
      Some (equihash_tree N cbl ?h K (concat (map (\<lambda>i. [i]) js)) \<and> xor_all ?h (concat (map (\<lambda>i. [i]) js)) = 0)"
    using js eh_hash_bound [OF st] by (intro verify_rounds_trees) auto
  moreover have "concat (map (\<lambda>i. [i]) js) = js" by simp
  ultimately show ?thesis using js by (simp add: IsValidSolution_def HashLength_def)
qed

lemma index_bits: "index_bits_ok cbl"
  using sizes by (simp add: index_bits_ok_def)

lemma IsValidSolution_iff:
  assumes st: "eh_outlen st = HashOutput N" "blake2b_ok blake2b (HashOutput N)"
  shows "IsValidSolution blake2b N K st soln = Some (\<exists>js. length js = 2 ^ K \<and> (\<forall>i\<in>set js. unat i < 2 ^ (cbl + 1)) \<and>
      GetMinimalFromIndices js cbl = Some soln \<and>
      equihash_tree N cbl (eh_hash blake2b N st) K js \<and> xor_all (eh_hash blake2b N st) js = 0)"
proof (cases "length soln = SolutionWidth N K")
  case True
  then have l: "8 * length soln = (cbl + 1) * 2 ^ K" using sizes(7) by simp
  then obtain js where js: "GetIndicesFromMinimal soln cbl = Some js" "length js = 2 ^ K"
    using GetIndicesFromMinimal_digits [OF index_bits l] by simp
  have "GetMinimalFromIndices ks cbl = Some soln \<and> (\<forall>i\<in>set ks. unat i < 2 ^ (cbl + 1)) \<longleftrightarrow> ks = js"
    if "length ks = 2 ^ K" for ks
    using minimal_inverse [OF index_bits, of soln ks] l that js(1) by auto
  with IsValidSolution_indices [OF st js True] js(2) show ?thesis by auto
next
  case False
  have "length soln = SolutionWidth N K"
    if "length js = 2 ^ K" "\<forall>i\<in>set js. unat i < 2 ^ (cbl + 1)" "GetMinimalFromIndices js cbl = Some soln" for js
    using GetMinimalFromIndices_digits(2) [OF index_bits, of js "SolutionWidth N K"] that sizes(7) by auto
  with False show ?thesis by (auto simp: IsValidSolution_def)
qed

end

text \<open>The four instances of the templates.\<close>

interpretation eh96_3: eh_instance 96 3
  by unfold_locales (simp add: eh_supported_def)

interpretation eh200_9: eh_instance 200 9
  by unfold_locales (simp add: eh_supported_def)

interpretation eh96_5: eh_instance 96 5
  by unfold_locales (simp add: eh_supported_def)

interpretation eh48_5: eh_instance 48 5
  by unfold_locales (simp add: eh_supported_def)

section \<open>The check on a header\<close>

definition equihash_base :: "'a CBlockHeader_scheme \<Rightarrow> nat \<Rightarrow> nat \<Rightarrow> eh_HashState" where
  "equihash_base hdr n k =
     blake2b_update (InitialiseState n k) (put_CEquihashInput hdr @ put_blob (bh_nNonce hdr))"

text \<open>
  C3: The Equihash check on a header returns for the supported parameters and only for them, and it accepts a
  header exactly when its solution is the packed form of \<open>2 ^ k\<close> indices in range that form a tree of the
  generalized birthday problem, that is, at every level the halves are ordered and disjoint and the hashes
  of a subtree collide on one more block of bits, and the exclusive or of all hashes is zero. BLAKE2b is only
  assumed to produce as many bytes as asked for.
\<close>

theorem equihash_check_meaning:
  assumes "blake2b_ok blake2b (HashOutput n)"
  shows "CheckEquihashSolution blake2b hdr n k =
    (if eh_supported n k
     then Some (\<exists>js. length js = 2 ^ k \<and> (\<forall>i\<in>set js. unat i < 2 ^ (CollisionBitLength n k + 1)) \<and>
       GetMinimalFromIndices js (CollisionBitLength n k) = Some (bh_nSolution hdr) \<and>
       equihash_tree n (CollisionBitLength n k) (eh_hash blake2b n (equihash_base hdr n k)) k js \<and>
       xor_all (eh_hash blake2b n (equihash_base hdr n k)) js = 0)
     else None)"
proof (cases "eh_supported n k")
  case True
  have "eh_outlen (equihash_base hdr n k) = HashOutput n"
    by (simp add: equihash_base_def blake2b_update_def InitialiseState_def HashOutput_def IndicesPerHashOutput_def)
  from eh_instance.IsValidSolution_iff [OF eh_instance.intro [OF True] this assms]
  show ?thesis
    using True
    by (simp add: CheckEquihashSolution_def EhInitialiseState_def EhIsValidSolution_def equihash_base_def)
qed (simp add: CheckEquihashSolution_def EhInitialiseState_def)

lemma xor_all_zero [simp]: "xor_all (\<lambda>i. 0) js = 0"
  by (induction js) simp_all

lemma counting_tree:
  "a + 2 ^ r \<le> 2 ^ 32 \<Longrightarrow> equihash_tree N cbl (\<lambda>i. 0) r (map of_nat [a..<a + 2 ^ r])"
proof (induction r arbitrary: a)
  case (Suc r)
  let ?l = "map of_nat [a..<a + 2 ^ r] :: eh_index list" and ?r = "map of_nat [a + 2 ^ r..<a + 2 ^ r + 2 ^ r] :: eh_index list"
  have split: "map of_nat [a..<a + 2 ^ Suc r] = ?l @ ?r"
    using upt_add_eq_append [of a "a + 2 ^ r" "2 ^ r"] by (simp add: mult_2 add.assoc)
  have small: "unat (of_nat x :: u32) = x" if "x < a + 2 ^ r + 2 ^ r" for x
    using that Suc.prems by (simp add: unat_of_nat)
  have "hd ?l < hd ?r"
    using small [of a] small [of "a + 2 ^ r"] by (simp add: word_less_nat_alt hd_map)
  moreover have "(of_nat x :: u32) \<noteq> of_nat y" if "x < a + 2 ^ r" "a + 2 ^ r \<le> y" "y < a + 2 ^ r + 2 ^ r" for x y
    using small [of x] small [of y] that by auto
  then have "set ?l \<inter> set ?r = {}" by auto
  ultimately show ?case
    unfolding split using Suc by (subst equihash_tree_pair) simp_all
qed simp

theorem equihash_check_meaning_witness:
  "CheckEquihashSolution (\<lambda>n p m. replicate n 0)
     (CBlockHeader_SetNull\<lparr>bh_nSolution := the (GetMinimalFromIndices (map of_nat [0..<32]) 8)\<rparr>) 48 5 = Some True"
proof -
  let ?b = "\<lambda>n (p :: bytes) (m :: bytes). replicate n (0 :: u8)" and ?js = "map of_nat [0..<32] :: eh_index list"
  have ok: "blake2b_ok ?b (HashOutput 48)" by (simp add: blake2b_ok_def)
  have "be_read (replicate n 0) = 0" for n by (simp add: be_read_def undigits_zero)
  then have h: "eh_hash ?b 48 st = (\<lambda>i. 0)" for st by (auto simp: eh_hash_def)
  have "equihash_tree 48 8 (\<lambda>i. 0) 5 ?js" using counting_tree [of 0 5 48 8] by simp
  moreover have "\<exists>s. GetMinimalFromIndices ?js 8 = Some s"
    by (simp add: GetMinimalFromIndices_def CompressArray_def del: map_map)
  moreover have "\<forall>i\<in>set ?js. unat i < 2 ^ 9" by (auto simp: unat_of_nat)
  ultimately show ?thesis
    unfolding equihash_check_meaning [OF ok] h
    by (simp add: eh_supported_def CollisionBitLength_def del: equihash_tree.simps) (rule exI [of _ ?js], auto)
qed

end
