(* ===== verification/TxChecks.thy ===== *)
theory TxChecks
  imports CoinsView Equihash
begin

text \<open>
  Validation of transactions (\<^verbatim>\<open>main.cpp\<close>): the validation state of \<^verbatim>\<open>consensus/validation.h\<close>, the checks a transaction must pass by
  itself and against the coins it spends, the block subsidy, the cache of verified signatures
  (\<^verbatim>\<open>script/sigcache.cpp\<close>), and the change a transaction makes to the chain state. A check gives \<open>Inl\<close> the refusal or \<open>Inr\<close> its value;
  \<open>None\<close> stands for a failed assertion, an exception that leaves the function, or an access outside a container. The counters
  of \<^verbatim>\<open>metrics.cpp\<close> are left out. The lemmas say which transactions are accepted, bound the subsidies, show that cached
  signatures verify, and relate spending through a cache to spending in the abstract chain state.
\<close>

section \<open>The outcome of validation\<close>

datatype mode_state = MODE_VALID | MODE_INVALID | MODE_ERROR

record CValidationState =
  mode :: mode_state
  nDoS :: int
  strRejectReason :: string
  chRejectCode :: u8
  corruptionPossible :: bool

definition REJECT_MALFORMED :: u8 where "REJECT_MALFORMED = 0x01"
definition REJECT_INVALID :: u8 where "REJECT_INVALID = 0x10"
definition REJECT_OBSOLETE :: u8 where "REJECT_OBSOLETE = 0x11"
definition REJECT_DUPLICATE :: u8 where "REJECT_DUPLICATE = 0x12"
definition REJECT_NONSTANDARD :: u8 where "REJECT_NONSTANDARD = 0x40"

definition CValidationState_new :: CValidationState where
  "CValidationState_new = \<lparr>mode = MODE_VALID, nDoS = 0, strRejectReason = [], chRejectCode = 0, corruptionPossible = False\<rparr>"

definition state_DoS :: "int \<Rightarrow> u8 \<Rightarrow> string \<Rightarrow> bool \<Rightarrow> CValidationState \<Rightarrow> CValidationState" where
  "state_DoS level chRejectCodeIn strRejectReasonIn corruptionIn st =
     (let st = st\<lparr>chRejectCode := chRejectCodeIn, strRejectReason := strRejectReasonIn, corruptionPossible := corruptionIn\<rparr>
      in if mode st = MODE_ERROR then st else st\<lparr>nDoS := nDoS st + level, mode := MODE_INVALID\<rparr>)"

definition state_Invalid :: "u8 \<Rightarrow> string \<Rightarrow> CValidationState \<Rightarrow> CValidationState" where
  "state_Invalid chRejectCodeIn strRejectReasonIn st = state_DoS 0 chRejectCodeIn strRejectReasonIn False st"

definition state_Error :: "string \<Rightarrow> CValidationState \<Rightarrow> CValidationState" where
  "state_Error strRejectReasonIn st =
     (if mode st = MODE_VALID then st\<lparr>strRejectReason := strRejectReasonIn\<rparr> else st)\<lparr>mode := MODE_ERROR\<rparr>"

definition state_IsValid :: "CValidationState \<Rightarrow> bool" where "state_IsValid st \<longleftrightarrow> mode st = MODE_VALID"
definition state_IsInvalid :: "CValidationState \<Rightarrow> bool" where "state_IsInvalid st \<longleftrightarrow> mode st = MODE_INVALID"
definition state_IsError :: "CValidationState \<Rightarrow> bool" where "state_IsError st \<longleftrightarrow> mode st = MODE_ERROR"

text \<open>
  A check stops at the first refusal, and a refusal touches the state at most once: by \<open>DoS\<close> (\<open>Invalid\<close> is
  \<open>DoS\<close> with level 0) with its level, code, reason and the corruption flag, by \<open>Error\<close>, or not at all. The result of a
  check is \<open>Inl\<close> the refusal, or \<open>Inr\<close> its value; \<open>refuse\<close> is the state afterwards.
\<close>

datatype refusal = DoS int u8 string bool | Error string | Failed

abbreviation "Invalid code reason \<equiv> DoS 0 code reason False"
abbreviation "Bad level reason \<equiv> DoS level REJECT_INVALID reason False"

fun refuse :: "refusal \<Rightarrow> CValidationState \<Rightarrow> CValidationState" where
  "refuse (DoS level code reason corrupt) st = state_DoS level code reason corrupt st"
| "refuse (Error reason) st = state_Error reason st"
| "refuse Failed st = st"

section \<open>Checks of a transaction by itself\<close>

definition MIN_TX_VERSION :: int where "MIN_TX_VERSION = 1"
definition MAX_TX_SIZE :: nat where "MAX_TX_SIZE = 100000"
definition COINBASE_MATURITY :: int where "COINBASE_MATURITY = 100"
definition MAX_BLOCK_SIGOPS :: u32 where "MAX_BLOCK_SIGOPS = 20000"

definition IsFinalTx :: "'a CMutableTransaction_scheme \<Rightarrow> int \<Rightarrow> int \<Rightarrow> bool" where
  "IsFinalTx tx nBlockHeight nBlockTime =
     (if nLockTime tx = 0 then True
      else if uint (nLockTime tx) < (if uint (nLockTime tx) < LOCKTIME_THRESHOLD then nBlockHeight else nBlockTime) then True
      else list_all CTxIn_IsFinal (vin tx))"

definition GetLegacySigOpCount :: "'a CMutableTransaction_scheme \<Rightarrow> u32" where
  "GetLegacySigOpCount tx =
     foldl (\<lambda>nSigOps txout. nSigOps + GetSigOpCount False (scriptPubKey txout))
       (foldl (\<lambda>nSigOps txin. nSigOps + GetSigOpCount False (scriptSig txin)) 0 (vin tx)) (vout tx)"

fun check_outputs :: "CAmount \<Rightarrow> CTxOut list \<Rightarrow> refusal + CAmount" where
  "check_outputs nValueOut [] = Inr nValueOut"
| "check_outputs nValueOut (txout # outs) =
     (if nValue txout < 0 then Inl (Bad 100 ''bad-txns-vout-negative'')
      else if nValue txout > MAX_MONEY then Inl (Bad 100 ''bad-txns-vout-toolarge'')
      else if \<not> MoneyRange (nValueOut + nValue txout) then Inl (Bad 100 ''bad-txns-txouttotal-toolarge'')
      else check_outputs (nValueOut + nValue txout) outs)"

fun check_joinsplits :: "CAmount \<Rightarrow> JSDescription list \<Rightarrow> refusal + CAmount" where
  "check_joinsplits nValueOut [] = Inr nValueOut"
| "check_joinsplits nValueOut (joinsplit # js) =
     (if vpub_old joinsplit < 0 then Inl (Bad 100 ''bad-txns-vpub_old-negative'')
      else if vpub_new joinsplit < 0 then Inl (Bad 100 ''bad-txns-vpub_new-negative'')
      else if vpub_old joinsplit > MAX_MONEY then Inl (Bad 100 ''bad-txns-vpub_old-toolarge'')
      else if vpub_new joinsplit > MAX_MONEY then Inl (Bad 100 ''bad-txns-vpub_new-toolarge'')
      else if vpub_new joinsplit \<noteq> 0 \<and> vpub_old joinsplit \<noteq> 0 then Inl (Bad 100 ''bad-txns-vpubs-both-nonzero'')
      else if \<not> MoneyRange (nValueOut + vpub_old joinsplit) then Inl (Bad 100 ''bad-txns-txouttotal-toolarge'')
      else check_joinsplits (nValueOut + vpub_old joinsplit) js)"

fun check_joinsplit_inputs :: "CAmount \<Rightarrow> JSDescription list \<Rightarrow> refusal + unit" where
  "check_joinsplit_inputs nValueIn [] = Inr ()"
| "check_joinsplit_inputs nValueIn (it # js) =
     (let nValueIn = nValueIn + vpub_new it
      in if \<not> MoneyRange (vpub_new it) \<or> \<not> MoneyRange nValueIn then Inl (Bad 100 ''bad-txns-txintotal-toolarge'')
         else check_joinsplit_inputs nValueIn js)"

text \<open>The loops that collect a set and stop at a repetition.\<close>

fun check_distinct :: "refusal \<Rightarrow> 'k list \<Rightarrow> 'k list \<Rightarrow> refusal + unit" where
  "check_distinct e seen [] = Inr ()"
| "check_distinct e seen (x # xs) = (if x \<in> set seen then Inl e else check_distinct e (x # seen) xs)"

text \<open>
  The signature scheme of libsodium and the proof system of libsnark are arguments: \<open>sodium_verify\<close> takes the signature, the
  message and the key, and \<open>js_verify\<close> stands for \<^verbatim>\<open>JSDescription::Verify\<close> with the verifier it is given.
\<close>

definition CheckTransactionWithoutProofVerification ::
  "(bytes \<Rightarrow> bytes \<Rightarrow> bytes \<Rightarrow> bool) \<Rightarrow> 'a CMutableTransaction_scheme \<Rightarrow> refusal + unit" where
  "CheckTransactionWithoutProofVerification sodium_verify tx =
     (if nVersion tx < MIN_TX_VERSION then Inl (Bad 100 ''bad-txns-version-too-low'')
      else if vin tx = [] \<and> vjoinsplit tx = [] then Inl (Bad 10 ''bad-txns-vin-empty'')
      else if vout tx = [] \<and> vjoinsplit tx = [] then Inl (Bad 10 ''bad-txns-vout-empty'')
      else if length (put_transaction tx) > MAX_TX_SIZE then Inl (Bad 100 ''bad-txns-oversize'')
      else case check_outputs 0 (vout tx) of Inl e \<Rightarrow> Inl e | Inr nValueOut \<Rightarrow>
      (case check_joinsplits nValueOut (vjoinsplit tx) of Inl e \<Rightarrow> Inl e | Inr _ \<Rightarrow>
      (case check_joinsplit_inputs 0 (vjoinsplit tx) of Inl e \<Rightarrow> Inl e | Inr _ \<Rightarrow>
      (case check_distinct (Bad 100 ''bad-txns-inputs-duplicate'') [] (map prevout (vin tx)) of Inl e \<Rightarrow> Inl e | Inr _ \<Rightarrow>
      (case check_distinct (Bad 100 ''bad-joinsplits-nullifiers-duplicate'') [] (concat (map nullifiers (vjoinsplit tx))) of
         Inl e \<Rightarrow> Inl e | Inr _ \<Rightarrow>
       if IsCoinBase tx then
         (if length (vjoinsplit tx) > 0 then Inl (Bad 100 ''bad-cb-has-joinsplits'')
          else if length (scriptSig (vin tx ! 0)) < 2 \<or> length (scriptSig (vin tx ! 0)) > 100 then Inl (Bad 100 ''bad-cb-length'')
          else Inr ())
       else if list_ex (\<lambda>txin. COutPoint_IsNull (prevout txin)) (vin tx) then Inl (Bad 10 ''bad-txns-prevout-null'')
       else if length (vjoinsplit tx) > 0 then
         (case SignatureHash [] tx NOT_AN_INPUT (ucast SIGHASH_ALL) of
            Inl _ \<Rightarrow> Inl (Bad 100 ''error-computing-signature-hash'')
          | Inr dataToBeSigned \<Rightarrow>
              if \<not> sodium_verify (joinSplitSig tx) dataToBeSigned (joinSplitPubKey tx)
              then Inl (Bad 100 ''bad-txns-invalid-joinsplit-signature'') else Inr ())
       else Inr ())))))"

definition CheckTransaction ::
  "(bytes \<Rightarrow> bytes \<Rightarrow> bytes \<Rightarrow> bool) \<Rightarrow> (JSDescription \<Rightarrow> uint256 \<Rightarrow> bool) \<Rightarrow> 'a CMutableTransaction_scheme \<Rightarrow> refusal + unit" where
  "CheckTransaction sodium_verify js_verify tx =
     (case CheckTransactionWithoutProofVerification sodium_verify tx of Inl e \<Rightarrow> Inl e
      | Inr _ \<Rightarrow>
          if list_all (\<lambda>joinsplit. js_verify joinsplit (joinSplitPubKey tx)) (vjoinsplit tx) then Inr ()
          else Inl (Bad 100 ''bad-txns-joinsplit-verification-failed''))"

section \<open>The subsidy\<close>

definition GetBlockSubsidy :: "int \<Rightarrow> Params \<Rightarrow> CAmount" where
  "GetBlockSubsidy nHeight consensusParams =
     (let halvings = nHeight sdiv par_nSubsidyHalvingInterval consensusParams
      in if halvings \<ge> 64 then 0 else drop_bit (nat halvings) (50 * COIN))"

section \<open>Checks of a transaction against the coins it spends\<close>

fun p2sh_sigops_loop ::
  "'s CCoinsView \<Rightarrow> 's CCoinsViewCache \<Rightarrow> u32 \<Rightarrow> CTxIn list \<Rightarrow> (u32 \<times> 's CCoinsViewCache) option" where
  "p2sh_sigops_loop ops c nSigOps [] = Some (nSigOps, c)"
| "p2sh_sigops_loop ops c nSigOps (txin # ins) = do {
     (prevout, c) \<leftarrow> GetOutputFor ops c txin;
     p2sh_sigops_loop ops c
       (if IsPayToScriptHash (scriptPubKey prevout)
        then nSigOps + GetSigOpCount_P2SH (scriptPubKey prevout) (scriptSig txin) else nSigOps) ins }"

definition GetP2SHSigOpCount ::
  "'s CCoinsView \<Rightarrow> 's CCoinsViewCache \<Rightarrow> CTransaction \<Rightarrow> (u32 \<times> 's CCoinsViewCache) option" where
  "GetP2SHSigOpCount ops c tx = (if IsCoinBase tx then Some (0, c) else p2sh_sigops_loop ops c 0 (vin tx))"

text \<open>
  The values the node takes from its settings, its clock and other libraries: the chain parameters and checkpoints, whether
  spending coinbases is restricted, whether scripts are checked by other threads, whether transactions are indexed, the
  elliptic curve, BLAKE2b, the signature check of libsodium, and the verification of JoinSplit proofs, which is told whether
  the verifier is the strict one.
\<close>

record ('pk, 'sig) node =
  nd_params :: Params
  nd_EquihashN :: nat
  nd_EquihashK :: nat
  nd_messageStart :: bytes
  nd_fCheckpointsEnabled :: bool
  nd_mapCheckpoints :: "(int \<times> uint256) list"
  nd_protection :: bool
  nd_nScriptCheckThreads :: bool
  nd_fTxIndex :: bool
  nd_GetAdjustedTime :: int
  nd_secp :: "('pk, 'sig) secp256k1"
  nd_blake2b :: "nat \<Rightarrow> bytes \<Rightarrow> bytes \<Rightarrow> bytes"
  nd_sodium :: "bytes \<Rightarrow> bytes \<Rightarrow> bytes \<Rightarrow> bool"
  nd_js_verify :: "bool \<Rightarrow> JSDescription \<Rightarrow> uint256 \<Rightarrow> bool"

fun check_inputs_loop ::
  "('pk, 'sig) node \<Rightarrow> 's CCoinsView \<Rightarrow> 's CCoinsViewCache \<Rightarrow> CTransaction \<Rightarrow> int \<Rightarrow> CAmount \<Rightarrow> CTxIn list \<Rightarrow>
   ((refusal + CAmount) \<times> 's CCoinsViewCache) option" where
  "check_inputs_loop nd ops c tx nSpendHeight nValueIn [] = Some (Inr nValueIn, c)"
| "check_inputs_loop nd ops c tx nSpendHeight nValueIn (txin # ins) =
     (let (coins, c) = AccessCoins ops c (out_hash (prevout txin))
      in case coins of None \<Rightarrow> None
         | Some coins \<Rightarrow>
             if fCoinBase coins \<and> nSpendHeight - cc_nHeight coins < COINBASE_MATURITY
             then Some (Inl (Invalid REJECT_INVALID ''bad-txns-premature-spend-of-coinbase''), c)
             else if fCoinBase coins \<and> nd_protection nd \<and> par_fCoinbaseMustBeProtected (nd_params nd) \<and> vout tx \<noteq> []
             then Some (Inl (Invalid REJECT_INVALID ''bad-txns-coinbase-spend-has-transparent-outputs''), c)
             else if unat (out_n (prevout txin)) \<ge> length (cc_vout coins) then None
             else let v = nValue (cc_vout coins ! unat (out_n (prevout txin))); nValueIn = nValueIn + v
                  in if \<not> MoneyRange v \<or> \<not> MoneyRange nValueIn
                     then Some (Inl (Bad 100 ''bad-txns-inputvalues-outofrange''), c)
                     else check_inputs_loop nd ops c tx nSpendHeight nValueIn ins)"

definition CheckTxInputs ::
  "('pk, 'sig) node \<Rightarrow> 's CCoinsView \<Rightarrow> 's CCoinsViewCache \<Rightarrow> CTransaction \<Rightarrow> int \<Rightarrow>
   ((refusal + unit) \<times> 's CCoinsViewCache) option" where
  "CheckTxInputs nd ops c tx nSpendHeight =
     (let (have, c) = HaveInputs ops c tx
      in if \<not> have then Some (Inl (Invalid 0 []), c)
      else do {
        (met, c) \<leftarrow> HaveJoinSplitRequirements ops c tx;
        if \<not> met then Some (Inl (Invalid 0 []), c)
        else do {
          (r, c) \<leftarrow> check_inputs_loop nd ops c tx nSpendHeight 0 (vin tx);
          case r of Inl e \<Rightarrow> Some (Inl e, c)
          | Inr nValueIn \<Rightarrow> do {
              js \<leftarrow> GetJoinSplitValueIn tx;
              let nValueIn = nValueIn + js;
              if \<not> MoneyRange nValueIn then Some (Inl (Bad 100 ''bad-txns-inputvalues-outofrange''), c)
              else do {
                out \<leftarrow> GetValueOut tx;
                if nValueIn < out then Some (Inl (Bad 100 ''bad-txns-in-belowout''), c)
                else let nTxFee = nValueIn - out
                     in if nTxFee < 0 then Some (Inl (Bad 100 ''bad-txns-fee-negative''), c)
                        else if \<not> MoneyRange nTxFee then Some (Inl (Bad 100 ''bad-txns-fee-outofrange''), c)
                        else Some (Inr (), c) } } } })"

record CScriptCheck =
  sc_scriptPubKey :: bytes
  sc_txTo :: CTransaction
  sc_nIn :: nat
  sc_nFlags :: u32

text \<open>
  The constructor reads the output the input spends. Running a check gives the verdict and the error. The code runs it with
  the caching signature checker, which answers as \<open>TransactionSignatureChecker\<close> does.
\<close>

definition CScriptCheck_of :: "CCoins \<Rightarrow> CTransaction \<Rightarrow> nat \<Rightarrow> u32 \<Rightarrow> CScriptCheck option" where
  "CScriptCheck_of txFrom txTo nIn nFlags =
     (if nIn < length (vin txTo) \<and> unat (out_n (prevout (vin txTo ! nIn))) < length (cc_vout txFrom)
      then Some \<lparr>sc_scriptPubKey = scriptPubKey (cc_vout txFrom ! unat (out_n (prevout (vin txTo ! nIn)))),
                 sc_txTo = txTo, sc_nIn = nIn, sc_nFlags = nFlags\<rparr>
      else None)"

definition CScriptCheck_run :: "('pk, 'sig) node \<Rightarrow> CScriptCheck \<Rightarrow> (bool \<times> ScriptError) option" where
  "CScriptCheck_run nd check =
     VerifyScript (CPubKey_CheckLowS (nd_secp nd))
       (TransactionSignatureChecker (nd_secp nd) (sc_txTo check) (of_nat (sc_nIn check))) (sc_nFlags check)
       (scriptSig (vin (sc_txTo check) ! sc_nIn check)) (sc_scriptPubKey check)"

definition MANDATORY_SCRIPT_VERIFY_FLAGS :: u32 where
  "MANDATORY_SCRIPT_VERIFY_FLAGS = SCRIPT_VERIFY_P2SH"

definition STANDARD_SCRIPT_VERIFY_FLAGS :: u32 where
  "STANDARD_SCRIPT_VERIFY_FLAGS = MANDATORY_SCRIPT_VERIFY_FLAGS OR SCRIPT_VERIFY_STRICTENC OR SCRIPT_VERIFY_MINIMALDATA OR
     SCRIPT_VERIFY_NULLDUMMY OR SCRIPT_VERIFY_DISCOURAGE_UPGRADABLE_NOPS OR SCRIPT_VERIFY_CLEANSTACK OR
     SCRIPT_VERIFY_CHECKLOCKTIMEVERIFY OR SCRIPT_VERIFY_LOW_S"

definition STANDARD_NOT_MANDATORY_VERIFY_FLAGS :: u32 where
  "STANDARD_NOT_MANDATORY_VERIFY_FLAGS = STANDARD_SCRIPT_VERIFY_FLAGS AND NOT MANDATORY_SCRIPT_VERIFY_FLAGS"

definition script_failure :: "('pk, 'sig) node \<Rightarrow> CCoins \<Rightarrow> CTransaction \<Rightarrow> nat \<Rightarrow> u32 \<Rightarrow> ScriptError \<Rightarrow> refusal option" where
  "script_failure nd coins tx i flags err = do {
     relaxed \<leftarrow>
       (if flags AND STANDARD_NOT_MANDATORY_VERIFY_FLAGS \<noteq> 0
        then do { check \<leftarrow> CScriptCheck_of coins tx i (flags AND NOT STANDARD_NOT_MANDATORY_VERIFY_FLAGS);
                  CScriptCheck_run nd check }
        else Some (False, SCRIPT_ERR_UNKNOWN_ERROR));
     if fst relaxed
     then Some (Invalid REJECT_NONSTANDARD (''non-mandatory-script-verify-flag ('' @ ScriptErrorString (snd relaxed) @ '')''))
     else Some (Bad 100 (''mandatory-script-verify-flag-failed ('' @ ScriptErrorString err @ '')'')) }"

text \<open>
  The script checks are run on the spot, or, when the caller has a list for them, returned to be run by other threads.
\<close>

fun script_checks_loop ::
  "('pk, 'sig) node \<Rightarrow> 's CCoinsView \<Rightarrow> 's CCoinsViewCache \<Rightarrow> CTransaction \<Rightarrow> u32 \<Rightarrow> bool \<Rightarrow> nat list \<Rightarrow>
   ((refusal + CScriptCheck list) \<times> 's CCoinsViewCache) option" where
  "script_checks_loop nd ops c tx flags deferred [] = Some (Inr [], c)"
| "script_checks_loop nd ops c tx flags deferred (i # is') =
     (let (coins, c) = AccessCoins ops c (out_hash (prevout (vin tx ! i)))
      in case coins of None \<Rightarrow> None
         | Some coins \<Rightarrow> do {
             check \<leftarrow> CScriptCheck_of coins tx i flags;
             if deferred then do {
               (r, c) \<leftarrow> script_checks_loop nd ops c tx flags deferred is';
               Some (case r of Inl e \<Rightarrow> Inl e | Inr checks \<Rightarrow> Inr (check # checks), c) }
             else do {
               (ok, err) \<leftarrow> CScriptCheck_run nd check;
               if ok then script_checks_loop nd ops c tx flags deferred is'
               else do { e \<leftarrow> script_failure nd coins tx i flags err; Some (Inl e, c) } } })"

text \<open>
  \<open>GetSpendHeight\<close> finds the block the view stands on in \<^verbatim>\<open>mapBlockIndex\<close>, here a map from hashes to pointers.
\<close>

definition GetSpendHeight ::
  "(uint256 \<Rightarrow> block_ptr option) \<Rightarrow> block_store \<Rightarrow> 's CCoinsView \<Rightarrow> 's CCoinsViewCache \<Rightarrow> (int \<times> 's CCoinsViewCache) option" where
  "GetSpendHeight mapBlockIndex idx ops c =
     (let (h, c) = GetBestBlock ops c
      in do { p \<leftarrow> mapBlockIndex h; pindexPrev \<leftarrow> idx p; Some (bi_nHeight pindexPrev + 1, c) })"

definition ContextualCheckInputs ::
  "('pk, 'sig) node \<Rightarrow> (uint256 \<Rightarrow> block_ptr option) \<Rightarrow> block_store \<Rightarrow> 's CCoinsView \<Rightarrow> 's CCoinsViewCache \<Rightarrow> CTransaction \<Rightarrow>
   bool \<Rightarrow> u32 \<Rightarrow> bool \<Rightarrow> ((refusal + CScriptCheck list) \<times> 's CCoinsViewCache) option" where
  "ContextualCheckInputs nd mapBlockIndex idx ops c tx fScriptChecks flags deferred =
     (if IsCoinBase tx then Some (Inr [], c)
      else do {
        (nSpendHeight, c) \<leftarrow> GetSpendHeight mapBlockIndex idx ops c;
        (r, c) \<leftarrow> CheckTxInputs nd ops c tx nSpendHeight;
        case r of Inl e \<Rightarrow> Some (Inl e, c)
        | Inr _ \<Rightarrow> if fScriptChecks then script_checks_loop nd ops c tx flags deferred [0..<length (vin tx)]
                   else Some (Inr [], c) })"

section \<open>Spending\<close>

definition CTxInUndo_of :: "CTxOut \<Rightarrow> CTxInUndo" where
  "CTxInUndo_of txout = \<lparr>undo_txout = txout, undo_fCoinBase = False, undo_nHeight = 0, undo_nVersion = 0\<rparr>"

definition spend_output :: "u32 \<Rightarrow> CCoins \<Rightarrow> (CTxInUndo \<times> CCoins) option" where
  "spend_output nPos coins =
     (if unat nPos \<ge> length (cc_vout coins) \<or> CTxOut_IsNull (cc_vout coins ! unat nPos) then None
      else let undo = CTxInUndo_of (cc_vout coins ! unat nPos); coins = snd (Spend coins nPos)
           in Some (if length (cc_vout coins) = 0
                    then undo\<lparr>undo_nHeight := of_int (cc_nHeight coins), undo_fCoinBase := fCoinBase coins,
                              undo_nVersion := cc_nVersion coins\<rparr>
                    else undo, coins))"

fun spend_inputs ::
  "'s CCoinsView \<Rightarrow> 's CCoinsViewCache \<Rightarrow> CTxIn list \<Rightarrow> (CTxUndo \<times> 's CCoinsViewCache) option" where
  "spend_inputs ops c [] = Some ([], c)"
| "spend_inputs ops c (txin # ins) = do {
     (undo, c) \<leftarrow> with_coins ops c (out_hash (prevout txin)) (spend_output (out_n (prevout txin)));
     (undos, c) \<leftarrow> spend_inputs ops c ins;
     Some (undo # undos, c) }"

definition tx_nullifiers :: "'a CMutableTransaction_scheme \<Rightarrow> uint256 list" where
  "tx_nullifiers tx = concat (map nullifiers (vjoinsplit tx))"

definition UpdateCoins ::
  "'s CCoinsView \<Rightarrow> 's CCoinsViewCache \<Rightarrow> CTransaction \<Rightarrow> int \<Rightarrow> (CTxUndo \<times> 's CCoinsViewCache) option" where
  "UpdateCoins ops c tx nHeight = do {
     (txundo, c) \<leftarrow> (if IsCoinBase tx then Some ([], c) else spend_inputs ops c (vin tx));
     let c = foldl (\<lambda>c nf. SetNullifier c nf True) c (tx_nullifiers tx);
     (_, c) \<leftarrow> with_coins ops c (tx_hash tx) (\<lambda>_. Some ((), FromTx tx nHeight));
     Some (txundo, c) }"

section \<open>The signature cache\<close>

text \<open>
  \<^verbatim>\<open>setValid\<close> is an ordered set of triples of a signature hash, a signature and a key: here the ordered list of its members.
  The random hashes that choose the entry to evict are an argument, one for each round of the loop.
\<close>

type_synonym sigdata_type = "uint256 \<times> bytes \<times> CPubKey"

fun vch_less :: "bytes \<Rightarrow> bytes \<Rightarrow> bool" where
  "vch_less xs [] = False"
| "vch_less [] (y # ys) = True"
| "vch_less (x # xs) (y # ys) = (x < y \<or> x = y \<and> vch_less xs ys)"

definition CPubKey_less :: "CPubKey \<Rightarrow> CPubKey \<Rightarrow> bool" where
  "CPubKey_less a b \<longleftrightarrow> hd a < hd b \<or> hd a = hd b \<and> memcmp_less a b"

definition sigdata_less :: "sigdata_type \<Rightarrow> sigdata_type \<Rightarrow> bool" where
  "sigdata_less a b \<longleftrightarrow>
     (memcmp_less (fst a) (fst b) \<or> fst a = fst b \<and>
      (vch_less (fst (snd a)) (fst (snd b)) \<or> fst (snd a) = fst (snd b) \<and> CPubKey_less (snd (snd a)) (snd (snd b))))"

definition sigcache_Get :: "sigdata_type list \<Rightarrow> uint256 \<Rightarrow> bytes \<Rightarrow> CPubKey \<Rightarrow> bool" where
  "sigcache_Get setValid hash vchSig pubKey \<longleftrightarrow> (hash, vchSig, pubKey) \<in> set setValid"

fun set_insert :: "sigdata_type \<Rightarrow> sigdata_type list \<Rightarrow> sigdata_type list" where
  "set_insert k [] = [k]"
| "set_insert k (x # xs) = (if k = x then x # xs else if sigdata_less k x then k # x # xs else x # set_insert k xs)"

definition evict :: "uint256 \<Rightarrow> sigdata_type list \<Rightarrow> sigdata_type list" where
  "evict randomHash setValid =
     (let it = dropWhile (\<lambda>x. sigdata_less x (randomHash, [], CPubKey_invalid)) setValid
      in if it = [] then tl setValid else remove1 (hd it) setValid)"

function evict_loop :: "(nat \<Rightarrow> uint256) \<Rightarrow> nat \<Rightarrow> int \<Rightarrow> sigdata_type list \<Rightarrow> sigdata_type list" where
  "evict_loop rand i nMaxCacheSize setValid =
     (if int (length setValid) > nMaxCacheSize \<and> setValid \<noteq> []
      then evict_loop rand (Suc i) nMaxCacheSize (evict (rand i) setValid) else setValid)"
  by pat_completeness auto

lemma evict_shorter: "setValid \<noteq> [] \<Longrightarrow> length (evict r setValid) = length setValid - 1"
proof -
  have "hd (dropWhile P xs) \<in> set xs" if "dropWhile P xs \<noteq> []" for P and xs :: "sigdata_type list"
    using that by (metis hd_in_set set_dropWhileD)
  then show "setValid \<noteq> [] \<Longrightarrow> length (evict r setValid) = length setValid - 1"
    by (auto simp: evict_def Let_def length_remove1)
qed

termination evict_loop
  by (relation "measure (\<lambda>(rand, i, n, xs). length xs)") (auto simp: evict_shorter)

declare evict_loop.simps [simp del]

definition sigcache_Set ::
  "(nat \<Rightarrow> uint256) \<Rightarrow> int \<Rightarrow> sigdata_type list \<Rightarrow> uint256 \<Rightarrow> bytes \<Rightarrow> CPubKey \<Rightarrow> sigdata_type list" where
  "sigcache_Set rand nMaxCacheSize setValid hash vchSig pubKey =
     (if nMaxCacheSize \<le> 0 then setValid
      else set_insert (hash, vchSig, pubKey) (evict_loop rand 0 nMaxCacheSize setValid))"

definition caching_VerifySignature ::
  "('pk, 'sig) secp256k1 \<Rightarrow> (nat \<Rightarrow> uint256) \<Rightarrow> int \<Rightarrow> bool \<Rightarrow> sigdata_type list \<Rightarrow> bytes \<Rightarrow> CPubKey \<Rightarrow> uint256 \<Rightarrow>
   bool \<times> sigdata_type list" where
  "caching_VerifySignature secp rand nMaxCacheSize store signatureCache vchSig pubkey sighash =
     (if sigcache_Get signatureCache sighash vchSig pubkey then (True, signatureCache)
      else if \<not> CPubKey_Verify secp pubkey sighash vchSig then (False, signatureCache)
      else (True, if store then sigcache_Set rand nMaxCacheSize signatureCache sighash vchSig pubkey else signatureCache))"

section \<open>What the checks accept\<close>

lemma MoneyRange_iff: "MoneyRange v \<longleftrightarrow> 0 \<le> v \<and> v \<le> MAX_MONEY"
  by (simp add: MoneyRange_def)

lemma check_outputs_iff:
  "MoneyRange a \<Longrightarrow> check_outputs a outs = Inr t \<longleftrightarrow>
     (\<forall>txout\<in>set outs. 0 \<le> nValue txout) \<and> t = a + sum_list (map nValue outs) \<and> t \<le> MAX_MONEY"
proof (induction outs arbitrary: a)
  case (Cons txout outs)
  have "0 \<le> sum_list (map nValue outs)" if "\<forall>o'\<in>set outs. 0 \<le> nValue o'"
    using that by (intro sum_list_nonneg) auto
  with Cons show ?case by (auto simp: MoneyRange_iff)
qed (auto simp: MoneyRange_iff)

lemma check_joinsplits_iff:
  "MoneyRange a \<Longrightarrow> check_joinsplits a js = Inr t \<longleftrightarrow>
     (\<forall>j\<in>set js. 0 \<le> vpub_old j \<and> 0 \<le> vpub_new j \<and> vpub_new j \<le> MAX_MONEY \<and> (vpub_old j = 0 \<or> vpub_new j = 0)) \<and>
     t = a + sum_list (map vpub_old js) \<and> t \<le> MAX_MONEY"
proof (induction js arbitrary: a)
  case (Cons j js)
  have "0 \<le> sum_list (map vpub_old js)" if "\<forall>j\<in>set js. 0 \<le> vpub_old j"
    using that by (intro sum_list_nonneg) auto
  with Cons show ?case by (auto simp: MoneyRange_iff)
qed (auto simp: MoneyRange_iff)

lemma check_joinsplit_inputs_iff:
  "MoneyRange a \<Longrightarrow> \<forall>j\<in>set js. 0 \<le> vpub_new j \<Longrightarrow>
     check_joinsplit_inputs a js = Inr () \<longleftrightarrow> a + sum_list (map vpub_new js) \<le> MAX_MONEY"
proof (induction js arbitrary: a)
  case (Cons j js)
  have "0 \<le> sum_list (map vpub_new js)" using Cons.prems(2) by (intro sum_list_nonneg) auto
  with Cons show ?case by (auto simp: MoneyRange_iff Let_def)
qed (auto simp: MoneyRange_iff)

lemma check_distinct_iff: "check_distinct e seen xs = Inr () \<longleftrightarrow> distinct xs \<and> set xs \<inter> set seen = {}"
  by (induction xs arbitrary: seen) auto

lemma sum_values_iff:
  "MoneyRange a \<Longrightarrow> sum_values a vs = Some t \<longleftrightarrow> (\<forall>v\<in>set vs. 0 \<le> v) \<and> t = a + sum_list vs \<and> t \<le> MAX_MONEY"
proof (induction vs arbitrary: a)
  case (Cons v vs)
  have "0 \<le> sum_list vs" if "\<forall>v\<in>set vs. 0 \<le> v" using that by (intro sum_list_nonneg) auto
  with Cons show ?case by (auto simp: MoneyRange_iff Let_def)
qed (auto simp: MoneyRange_iff)

definition sum_out :: "'a CMutableTransaction_scheme \<Rightarrow> CAmount" where
  "sum_out tx = sum_list (map nValue (vout tx))"

definition sum_vpub_old :: "'a CMutableTransaction_scheme \<Rightarrow> CAmount" where
  "sum_vpub_old tx = sum_list (map vpub_old (vjoinsplit tx))"

definition sum_vpub_new :: "'a CMutableTransaction_scheme \<Rightarrow> CAmount" where
  "sum_vpub_new tx = sum_list (map vpub_new (vjoinsplit tx))"

lemma sum_case_Inr: "(case r of Inl e \<Rightarrow> Inl e | Inr x \<Rightarrow> f x) = Inr y \<longleftrightarrow> (\<exists>x. r = Inr x \<and> f x = Inr y)"
  by (cases r) auto

lemma if_Inl_Inr: "(if b then Inl e else r) = Inr y \<longleftrightarrow> \<not> b \<and> r = Inr y"
  by simp

lemma value_checks_iff:
  "(\<exists>t u. check_outputs 0 (vout tx) = Inr t \<and> check_joinsplits t (vjoinsplit tx) = Inr u \<and>
      check_joinsplit_inputs 0 (vjoinsplit tx) = Inr ()) \<longleftrightarrow>
     (\<forall>txout\<in>set (vout tx). 0 \<le> nValue txout) \<and>
     (\<forall>j\<in>set (vjoinsplit tx). 0 \<le> vpub_old j \<and> 0 \<le> vpub_new j \<and> (vpub_old j = 0 \<or> vpub_new j = 0)) \<and>
     sum_out tx + sum_vpub_old tx \<le> MAX_MONEY \<and> sum_vpub_new tx \<le> MAX_MONEY"
proof -
  have z: "MoneyRange 0" by (simp add: MoneyRange_def MAX_MONEY_def COIN_def)
  note outs = check_outputs_iff [OF z, of "vout tx", folded sum_out_def, simplified]
  note jsi = check_joinsplit_inputs_iff [OF z, of "vjoinsplit tx", folded sum_vpub_new_def, simplified]
  show ?thesis (is "?L \<longleftrightarrow> ?R")
  proof
    assume ?L
    then obtain t u where c: "check_outputs 0 (vout tx) = Inr t" "check_joinsplits t (vjoinsplit tx) = Inr u"
      "check_joinsplit_inputs 0 (vjoinsplit tx) = Inr ()" by blast
    have o: "\<forall>txout\<in>set (vout tx). 0 \<le> nValue txout" "t = sum_out tx" "t \<le> MAX_MONEY" using c(1) outs by auto
    have "MoneyRange t" using o by (auto simp: MoneyRange_iff sum_out_def intro!: sum_list_nonneg)
    from check_joinsplits_iff [OF this, of "vjoinsplit tx" u] c(2)
    have j: "\<forall>j\<in>set (vjoinsplit tx). 0 \<le> vpub_old j \<and> 0 \<le> vpub_new j \<and> (vpub_old j = 0 \<or> vpub_new j = 0)"
      "sum_out tx + sum_vpub_old tx \<le> MAX_MONEY" by (auto simp: sum_vpub_old_def o(2))
    show ?R using o(1) j c(3) jsi by auto
  next
    assume R: ?R
    then have n: "0 \<le> sum_out tx" "0 \<le> sum_vpub_old tx"
      by (auto simp: sum_out_def sum_vpub_old_def intro!: sum_list_nonneg)
    then have m: "MoneyRange (sum_out tx)" using R by (simp add: MoneyRange_iff)
    have new: "vpub_new j \<le> MAX_MONEY" if "j \<in> set (vjoinsplit tx)" for j
      using member_le_sum_list [of "vpub_new j" "map vpub_new (vjoinsplit tx)"] that R
      by (fastforce simp: sum_vpub_new_def)
    have "check_outputs 0 (vout tx) = Inr (sum_out tx)" using R n m outs by (simp add: MoneyRange_iff)
    moreover have "check_joinsplits (sum_out tx) (vjoinsplit tx) = Inr (sum_out tx + sum_vpub_old tx)"
      using R new unfolding check_joinsplits_iff [OF m] by (simp add: sum_vpub_old_def)
    moreover have "check_joinsplit_inputs 0 (vjoinsplit tx) = Inr ()" using R jsi by simp
    ultimately show ?L by blast
  qed
qed

lemma without_proofs_iff:
  "CheckTransactionWithoutProofVerification sodium_verify tx = Inr () \<longleftrightarrow>
     1 \<le> nVersion tx \<and> (vin tx \<noteq> [] \<and> vout tx \<noteq> [] \<or> vjoinsplit tx \<noteq> []) \<and> length (put_transaction tx) \<le> 100000 \<and>
     (\<exists>t u. check_outputs 0 (vout tx) = Inr t \<and> check_joinsplits t (vjoinsplit tx) = Inr u \<and>
        check_joinsplit_inputs 0 (vjoinsplit tx) = Inr ()) \<and>
     distinct (map prevout (vin tx)) \<and> distinct (concat (map nullifiers (vjoinsplit tx))) \<and>
     (if IsCoinBase tx then vjoinsplit tx = [] \<and> length (scriptSig (vin tx ! 0)) \<in> {2..100}
      else (\<forall>txin\<in>set (vin tx). \<not> COutPoint_IsNull (prevout txin)) \<and>
        (vjoinsplit tx \<noteq> [] \<longrightarrow> (\<exists>h. SignatureHash [] tx NOT_AN_INPUT 1 = Inr h \<and>
           sodium_verify (joinSplitSig tx) h (joinSplitPubKey tx))))"
proof -
  have signed: "(case SignatureHash [] tx NOT_AN_INPUT 1 of Inl _ \<Rightarrow> Inl e | Inr h \<Rightarrow>
      if \<not> sodium_verify (joinSplitSig tx) h (joinSplitPubKey tx) then Inl e' else Inr ()) = Inr () \<longleftrightarrow>
      (\<exists>h. SignatureHash [] tx NOT_AN_INPUT 1 = Inr h \<and> sodium_verify (joinSplitSig tx) h (joinSplitPubKey tx))" for e e' :: refusal
    by (cases "SignatureHash [] tx NOT_AN_INPUT 1") auto
  have unit: "(\<exists>x. r = Inr x \<and> P) \<longleftrightarrow> r = Inr () \<and> P" for r :: "refusal + unit" and P by auto
  have branch: "(if b then x else y) = z \<longleftrightarrow> (if b then x = z else y = z)" for b and x y z :: "refusal + unit" by simp
  have signed': "ucast SIGHASH_ALL = (1 :: u32)" by simp
  show ?thesis
    unfolding CheckTransactionWithoutProofVerification_def sum_case_Inr if_Inl_Inr unit check_distinct_iff branch signed' signed
      list_ex_iff MIN_TX_VERSION_def MAX_TX_SIZE_def
    by (cases "IsCoinBase tx"; cases "vjoinsplit tx = []") (simp_all add: not_less not_le, auto)
qed


definition sample_coinbase :: CTransaction where
  "sample_coinbase =
     \<lparr>nVersion = 1, vin = [\<lparr>prevout = COutPoint_null, scriptSig = [0x51, 0x51], nSequence = - 1\<rparr>],
      vout = [\<lparr>nValue = 50 * COIN, scriptPubKey = [0x51]\<rparr>], nLockTime = 0, vjoinsplit = [],
      joinSplitPubKey = uint256_null, joinSplitSig = replicate 64 0, tx_hash = replicate 32 7\<rparr>"


section \<open>The total of the subsidies\<close>

lemma halving_sum:
  fixes B :: nat
  shows "(\<Sum>k<Suc e. B div 2 ^ k) + B div 2 ^ e \<le> 2 * B"
proof (induction e)
  case (Suc e)
  have "B div 2 ^ Suc e = B div 2 ^ e div 2" by (simp add: div_mult2_eq [symmetric] mult.commute)
  then have "2 * (B div 2 ^ Suc e) \<le> B div 2 ^ e" by simp
  with Suc show ?case unfolding sum.lessThan_Suc by linarith
qed simp

lemma GetBlockSubsidy_eq:
  assumes "0 < I" "par_nSubsidyHalvingInterval p = int I"
  shows "GetBlockSubsidy (int h) p = int (5000000000 div 2 ^ (h div I))"
proof -
  have h: "int h sdiv int I = int (h div I)" by (simp add: signed_divide_int_def sgn_if zdiv_int)
  have z: "(5000000000 :: nat) div 2 ^ k = 0" if "64 \<le> k" for k
  proof -
    have "(5000000000 :: nat) < 2 ^ 64" by simp
    also have "\<dots> \<le> 2 ^ k" using that by (intro power_increasing) simp_all
    finally show ?thesis by simp
  qed
  show ?thesis
  proof (cases "64 \<le> h div I")
    case True
    then show ?thesis using z by (simp add: GetBlockSubsidy_def assms(2) h Let_def)
  next
    case False
    then have "GetBlockSubsidy (int h) p = drop_bit (h div I) (5000000000 :: int)"
      by (simp add: GetBlockSubsidy_def assms(2) h Let_def COIN_def)
    then show ?thesis by (simp add: drop_bit_eq_div zdiv_int)
  qed
qed

text \<open>
  The subsidies of all the blocks of a chain sum up to at most twice the first subsidy for each block of a
  halving interval, which on the main network is 84 million coins and a tenth of the money range.
\<close>

lemma subsidy_total_bound:
  assumes "0 < par_nSubsidyHalvingInterval p"
  shows "(\<Sum>h<n. GetBlockSubsidy (int h) p) \<le> 100 * COIN * par_nSubsidyHalvingInterval p"
proof -
  define I where "I = nat (par_nSubsidyHalvingInterval p)"
  have I: "0 < I" "par_nSubsidyHalvingInterval p = int I" using assms by (simp_all add: I_def)
  let ?s = "\<lambda>h. 5000000000 div 2 ^ (h div I) :: nat"
  define e where "e = n div I"
  have era: "(\<Sum>h=k * I..<k * I + I. ?s h) = I * (5000000000 div 2 ^ k)" for k
  proof -
    have "h div I = k" if "k * I \<le> h" "h < k * I + I" for h
      using that by (metis div_nat_eqI mult.commute mult_Suc add.commute)
    then have "(\<Sum>h=k * I..<k * I + I. ?s h) = (\<Sum>h=k * I..<k * I + I. 5000000000 div 2 ^ k)"
      by (intro sum.cong) auto
    then show ?thesis by simp
  qed
  have "n < Suc e * I" using I(1) by (simp add: e_def dividend_less_div_times)
  then have "(\<Sum>h<n. ?s h) \<le> (\<Sum>h<Suc e * I. ?s h)" by (intro sum_mono2) auto
  also have "\<dots> = (\<Sum>k<Suc e. \<Sum>h=k * I..<k * I + I. ?s h)" by (rule sum.nat_group [symmetric])
  also have "\<dots> = I * (\<Sum>k<Suc e. 5000000000 div 2 ^ k)" unfolding era sum_distrib_left ..
  also have "\<dots> \<le> I * (2 * 5000000000)" using halving_sum [of 5000000000 e] by (intro mult_le_mono2) linarith
  finally have "int (\<Sum>h<n. ?s h) \<le> int (I * (2 * 5000000000))" by (simp only: of_nat_le_iff)
  then show ?thesis
    unfolding GetBlockSubsidy_eq [OF I] I(2) by (simp add: COIN_def ac_simps)
qed

section \<open>The signature cache holds valid signatures only\<close>

lemma set_set_insert: "set (set_insert k xs) = insert k (set xs)"
  by (induction xs) auto

lemma length_set_insert: "length (set_insert k xs) \<le> Suc (length xs)"
  by (induction xs) auto

lemma set_evict: "set (evict r xs) \<subseteq> set xs"
  by (cases xs) (auto simp: evict_def Let_def dest: notin_set_remove1)

lemma evict_loop_props:
  "0 \<le> n \<Longrightarrow> set (evict_loop rand i n xs) \<subseteq> set xs \<and> int (length (evict_loop rand i n xs)) \<le> n"
proof (induction rand i n xs rule: evict_loop.induct)
  case (1 rand i n xs)
  show ?case
  proof (cases "int (length xs) > n \<and> xs \<noteq> []")
    case True
    then have "evict_loop rand i n xs = evict_loop rand (Suc i) n (evict (rand i) xs)" by (subst evict_loop.simps) simp
    with 1 True set_evict [of "rand i" xs] show ?thesis by auto
  next
    case False
    then have "evict_loop rand i n xs = xs" by (subst evict_loop.simps) (simp only: if_False)
    with False 1(2) show ?thesis by auto
  qed
qed

definition sigcache_ok :: "('pk, 'sig) secp256k1 \<Rightarrow> int \<Rightarrow> sigdata_type list \<Rightarrow> bool" where
  "sigcache_ok secp nMaxCacheSize cache \<longleftrightarrow>
     (\<forall>(sighash, vchSig, pubkey) \<in> set cache. CPubKey_Verify secp pubkey sighash vchSig) \<and>
     int (length cache) \<le> max 0 (nMaxCacheSize + 1)"

text \<open>
  C12: The signature cache never holds an entry whose signature does not verify and never more than one entry above its
  limit, whichever entries are evicted, and a check that goes through the cache gives the answer of the
  signature check itself.
\<close>

theorem signature_cache_invariant:
  assumes "sigcache_ok secp nMaxCacheSize cache"
    and "caching_VerifySignature secp rand nMaxCacheSize store cache vchSig pubkey sighash = (r, cache')"
  shows "sigcache_ok secp nMaxCacheSize cache' \<and> r = CPubKey_Verify secp pubkey sighash vchSig"
proof -
  have "sigcache_ok secp nMaxCacheSize (sigcache_Set rand nMaxCacheSize cache sighash vchSig pubkey)"
    if v: "CPubKey_Verify secp pubkey sighash vchSig"
  proof (cases "nMaxCacheSize \<le> 0")
    case False
    then have e: "set (evict_loop rand 0 nMaxCacheSize cache) \<subseteq> set cache"
      "int (length (evict_loop rand 0 nMaxCacheSize cache)) \<le> nMaxCacheSize"
      using evict_loop_props [of nMaxCacheSize rand 0 cache] by simp_all
    have "int (length (set_insert (sighash, vchSig, pubkey) (evict_loop rand 0 nMaxCacheSize cache))) \<le> nMaxCacheSize + 1"
      using length_set_insert [of "(sighash, vchSig, pubkey)" "evict_loop rand 0 nMaxCacheSize cache"] e(2) by linarith
    with e(1) v assms(1) False show ?thesis
      by (auto simp: sigcache_ok_def sigcache_Set_def set_set_insert)
  qed (use assms(1) in \<open>simp add: sigcache_Set_def\<close>)
  with assms show ?thesis
    by (auto simp: caching_VerifySignature_def sigcache_Get_def sigcache_ok_def split: if_splits)
qed

theorem signature_cache_invariant_witness:
  "sigcache_ok sample_secp 1 [] \<and>
   snd (caching_VerifySignature sample_secp (\<lambda>_. uint256_null) 1 True [] [] CPubKey_invalid uint256_null) = []"
  using signature_cache_invariant [of sample_secp 1 "[]" "\<lambda>_. uint256_null" True "[]" CPubKey_invalid uint256_null]
  by (simp add: sigcache_ok_def caching_VerifySignature_def sigcache_Get_def CPubKey_Verify_def CPubKey_IsValid_def CPubKey_invalid_def CPubKey_size_def GetLen_def)

section \<open>Spending in the abstract chain state\<close>

text \<open>
  The effect of a transaction on the abstract state: its inputs are spent one after the other, its nullifiers are
  entered, and its outputs are added. The operations on a cache over any view that fulfils the contract do just this.
\<close>

definition av_spend :: "COutPoint \<Rightarrow> chain_view \<Rightarrow> (CTxInUndo \<times> chain_view) option" where
  "av_spend out v = do {
     x \<leftarrow> cv_coins v (out_hash out);
     (undo, y) \<leftarrow> spend_output (out_n out) x;
     Some (undo, view_set_coins (out_hash out) y v) }"

fun av_spends :: "CTxIn list \<Rightarrow> chain_view \<Rightarrow> (CTxUndo \<times> chain_view) option" where
  "av_spends [] v = Some ([], v)"
| "av_spends (txin # ins) v = do {
     (undo, v) \<leftarrow> av_spend (prevout txin) v; (undos, v) \<leftarrow> av_spends ins v; Some (undo # undos, v) }"

definition av_nullifiers :: "bool \<Rightarrow> uint256 list \<Rightarrow> chain_view \<Rightarrow> chain_view" where
  "av_nullifiers b nfs v = v\<lparr>cv_nullifiers := (\<lambda>nf. if nf \<in> set nfs then b else cv_nullifiers v nf)\<rparr>"

definition av_update :: "CTransaction \<Rightarrow> int \<Rightarrow> chain_view \<Rightarrow> (CTxUndo \<times> chain_view) option" where
  "av_update tx nHeight v = do {
     (undos, v) \<leftarrow> (if IsCoinBase tx then Some ([], v) else av_spends (vin tx) v);
     Some (undos, view_set_coins (tx_hash tx) (FromTx tx nHeight) (av_nullifiers True (tx_nullifiers tx) v)) }"

text \<open>What the consensus checks ensure of a transaction whose outputs are stored.\<close>

definition storable_tx :: "'a CMutableTransaction_scheme \<Rightarrow> bool" where
  "storable_tx tx \<longleftrightarrow> (\<forall>txout\<in>set (vout tx). MoneyRange (nValue txout)) \<and> length (vout tx) \<le> unat MAX_SIZE \<and>
     0 \<le> nVersion tx \<and> nVersion tx < 2 ^ 31"

lemma FromTx_valid:
  assumes "storable_tx tx" "0 \<le> h" "h < 2 ^ 31"
  shows "valid_coins (FromTx tx h)"
proof -
  let ?f = "\<lambda>txout. if IsUnspendable (scriptPubKey txout) then CTxOut_null else txout"
  have ok: "o' = CTxOut_null \<or> valid_coin_out o'" if o': "o' \<in> set (trim_outs (map ?f (vout tx)))" for o'
  proof -
    from o' obtain t where t: "t \<in> set (vout tx)" "o' = ?f t" using set_trim_outs by fastforce
    with assms show ?thesis
      by (auto simp: storable_tx_def MoneyRange_def MAX_MONEY_def COIN_def valid_coin_out_def IsUnspendable_def)
  qed
  have "length (trim_outs (map ?f (vout tx))) \<le> unat MAX_SIZE"
    using trim_outs_length [of "map ?f (vout tx)"] assms by (simp add: storable_tx_def)
  with ok assms show ?thesis
    by (auto simp: valid_coins_def FromTx_def ClearUnspendable_def Cleanup_trim storable_tx_def)
qed

lemma Spend_valid:
  assumes "valid_coins x" "spend_output n x = Some (u, y)"
  shows "valid_coins y" "Cleanup y = y" "y = snd (Spend x n)" "undo_txout u = cc_vout x ! unat n" "IsAvailable x n"
proof -
  have y: "y = x\<lparr>cc_vout := trim_outs ((cc_vout x)[unat n := CTxOut_null])\<rparr>" and a: "IsAvailable x n"
    and s: "y = snd (Spend x n)" and u: "undo_txout u = cc_vout x ! unat n"
    using assms(2) by (auto simp: spend_output_def Spend_def Cleanup_trim Let_def CTxInUndo_of_def IsAvailable_def split: if_splits)
  then show "y = snd (Spend x n)" "undo_txout u = cc_vout x ! unat n" "IsAvailable x n" by blast+
  have "set ((cc_vout x)[unat n := CTxOut_null]) \<subseteq> insert CTxOut_null (set (cc_vout x))" by (rule set_update_subset_insert)
  then show v: "valid_coins y"
    using assms(1) set_trim_outs [of "(cc_vout x)[unat n := CTxOut_null]"]
      trim_outs_length [of "(cc_vout x)[unat n := CTxOut_null]"]
    by (auto simp: valid_coins_def y)
  then show "Cleanup y = y" by (rule Cleanup_valid)
qed

lemma spend_output_pruned: "IsPruned x \<Longrightarrow> spend_output n x = None"
  by (auto simp: spend_output_def IsPruned_def list_all_length)

context coins_view
begin

lemma spend_refines:
  assumes g: "cache_good good view held c"
  shows "case av_spend out (cache_view view c) of
      None \<Rightarrow> with_coins ops c (out_hash out) (spend_output (out_n out)) = None
    | Some (u, v) \<Rightarrow> \<exists>c'. with_coins ops c (out_hash out) (spend_output (out_n out)) = Some (u, c') \<and>
        cache_good good view held c' \<and> cache_view view c' = v"
proof -
  obtain x where x: "valid_coins x" "unspent (Some x) = cv_coins (cache_view view c) (out_hash out)"
    and f: "\<And>f::CCoins \<Rightarrow> (CTxInUndo \<times> CCoins) option. f x = None \<Longrightarrow> with_coins ops c (out_hash out) f = None"
      "\<And>(f::CCoins \<Rightarrow> (CTxInUndo \<times> CCoins) option) r y. f x = Some (r, y) \<Longrightarrow> valid_coins (Cleanup y) \<Longrightarrow>
        \<exists>c'. with_coins ops c (out_hash out) f = Some (r, c') \<and> cache_good good view held c' \<and>
          cache_view view c' = view_set_coins (out_hash out) y (cache_view view c)"
    by (rule with_coins_changes [OF g]) (rule that)
  show ?thesis
  proof (cases "spend_output (out_n out) x")
    case None
    then have "av_spend out (cache_view view c) = None"
      using x(2) by (cases "IsPruned x") (auto simp: av_spend_def unspent_def simp flip: x(2))
    with f(1) [of "spend_output (out_n out)", OF None] show ?thesis by simp
  next
    case (Some p)
    obtain u y where p: "p = (u, y)" by fastforce
    have "\<not> IsPruned x" using Some spend_output_pruned by force
    then have "cv_coins (cache_view view c) (out_hash out) = Some x" using x(2) by (simp add: unspent_def)
    moreover have "valid_coins (Cleanup y)" using Spend_valid [OF x(1) Some [unfolded p]] by simp
    ultimately show ?thesis using f(2) [of "spend_output (out_n out)", OF Some [unfolded p]] Some p by (auto simp: av_spend_def)
  qed
qed

lemma spends_refine:
  "cache_good good view held c \<Longrightarrow>
    (case av_spends ins (cache_view view c) of None \<Rightarrow> spend_inputs ops c ins = None
     | Some (us, v) \<Rightarrow> \<exists>c'. spend_inputs ops c ins = Some (us, c') \<and> cache_good good view held c' \<and> cache_view view c' = v)"
proof (induction ins arbitrary: c)
  case (Cons txin ins)
  show ?case
  proof (cases "av_spend (prevout txin) (cache_view view c)")
    case None
    with spend_refines [OF Cons.prems, of "prevout txin"] show ?thesis by simp
  next
    case (Some p)
    obtain u v where p: "p = (u, v)" by fastforce
    with spend_refines [OF Cons.prems, of "prevout txin"] Some obtain c1 where c1:
      "with_coins ops c (out_hash (prevout txin)) (spend_output (out_n (prevout txin))) = Some (u, c1)"
      "cache_good good view held c1" "cache_view view c1 = v" by auto
    from Cons.IH [OF c1(2)] show ?thesis
      using Some p c1 by (cases "av_spends ins v") (auto split: prod.splits)
  qed
qed simp

lemma nullifiers_refine:
  "cache_good good view held c \<Longrightarrow> cache_good good view held (foldl (\<lambda>c nf. SetNullifier c nf b) c nfs) \<and>
     cache_view view (foldl (\<lambda>c nf. SetNullifier c nf b) c nfs) = av_nullifiers b nfs (cache_view view c)"
proof (induction nfs arbitrary: c)
  case (Cons nf nfs)
  note s = SetNullifier_sets [OF Cons.prems, of nf b]
  from Cons.IH [OF s(1)] show ?case by (simp add: s(2) av_nullifiers_def fun_eq_iff)
qed (simp add: av_nullifiers_def)

lemma set_coins_refines:
  assumes g: "cache_good good view held c" and y: "valid_coins (Cleanup y)"
  shows "\<exists>c'. with_coins ops c k (\<lambda>_. Some ((), y)) = Some ((), c') \<and> cache_good good view held c' \<and>
    cache_view view c' = view_set_coins k y (cache_view view c)"
proof -
  obtain x where "\<And>(f::CCoins \<Rightarrow> (unit \<times> CCoins) option) r y. f x = Some (r, y) \<Longrightarrow> valid_coins (Cleanup y) \<Longrightarrow>
      \<exists>c'. with_coins ops c k f = Some (r, c') \<and> cache_good good view held c' \<and>
        cache_view view c' = view_set_coins k y (cache_view view c)"
    by (rule with_coins_changes [OF g]) (rule that)
  from this [of "\<lambda>_. Some ((), y)"] y show ?thesis by simp
qed

lemma UpdateCoins_refines:
  assumes g: "cache_good good view held c" and t: "storable_tx tx" "0 \<le> h" "h < 2 ^ 31"
  shows "case av_update tx h (cache_view view c) of None \<Rightarrow> UpdateCoins ops c tx h = None
    | Some (us, v) \<Rightarrow> \<exists>c'. UpdateCoins ops c tx h = Some (us, c') \<and> cache_good good view held c' \<and> cache_view view c' = v"
proof -
  note f = FromTx_valid [OF t]
  have rest: "\<exists>c'. with_coins ops (foldl (\<lambda>c nf. SetNullifier c nf True) c1 (tx_nullifiers tx)) (tx_hash tx)
        (\<lambda>_. Some ((), FromTx tx h)) = Some ((), c') \<and> cache_good good view held c' \<and>
      cache_view view c' = view_set_coins (tx_hash tx) (FromTx tx h) (av_nullifiers True (tx_nullifiers tx) (cache_view view c1))"
    if "cache_good good view held c1" for c1
  proof -
    let ?c = "foldl (\<lambda>c nf. SetNullifier c nf True) c1 (tx_nullifiers tx)"
    have "cache_good good view held ?c" "cache_view view ?c = av_nullifiers True (tx_nullifiers tx) (cache_view view c1)"
      using nullifiers_refine [OF that, of True "tx_nullifiers tx"] by blast+
    with set_coins_refines [of ?c "FromTx tx h" "tx_hash tx"] f Cleanup_valid [OF f] show ?thesis by simp
  qed
  show ?thesis
  proof (cases "IsCoinBase tx")
    case True
    with rest [OF g] show ?thesis by (auto simp: av_update_def UpdateCoins_def)
  next
    case False
    show ?thesis
    proof (cases "av_spends (vin tx) (cache_view view c)")
      case None
      with spends_refine [OF g, of "vin tx"] False show ?thesis by (simp add: av_update_def UpdateCoins_def)
    next
      case (Some q)
      obtain us v where q: "q = (us, v)" by fastforce
      with spends_refine [OF g, of "vin tx"] Some obtain c1 where c1:
        "spend_inputs ops c (vin tx) = Some (us, c1)" "cache_good good view held c1" "cache_view view c1 = v" by auto
      from rest [OF c1(2)] obtain c2 where "with_coins ops (foldl (\<lambda>c nf. SetNullifier c nf True) c1 (tx_nullifiers tx)) (tx_hash tx)
          (\<lambda>_. Some ((), FromTx tx h)) = Some ((), c2)" "cache_good good view held c2"
        "cache_view view c2 = view_set_coins (tx_hash tx) (FromTx tx h) (av_nullifiers True (tx_nullifiers tx) v)"
        unfolding c1(3) by blast
      with Some q c1(1) False show ?thesis by (simp add: av_update_def UpdateCoins_def)
    qed
  qed
qed

end

end
