(* ===== verification/Connect.thy ===== *)
theory Connect
  imports TxChecks
begin

text \<open>
  Connecting blocks to the chain and taking them off again, as in \<^verbatim>\<open>main.cpp\<close>: the checks of a block by itself
  (\<open>CheckBlock\<close>) and in its place (\<open>ContextualCheckBlock\<close>), the undo data on disk, \<open>ConnectBlock\<close> and \<open>DisconnectBlock\<close>.
  The view they work on is a cache over any view that fulfils the contract of \<open>coins_view\<close>.

  The lemmas follow the code upwards. Reading through the cache keeps the abstract state of the chain; a connected
  transaction spends only unspent, mature outputs and creates no value; a connected block creates no more than the
  subsidy; and a disconnected block leaves the state as it was before it was connected.
\<close>

unbundle bit_operations_syntax

section \<open>Checks of a block by itself\<close>

definition MIN_BLOCK_VERSION :: int where "MIN_BLOCK_VERSION = 4"

definition CheckBlockHeader :: "('pk, 'sig) node \<Rightarrow> 'a CBlockHeader_scheme \<Rightarrow> bool \<Rightarrow> (refusal + unit) option" where
  "CheckBlockHeader nd block fCheckPOW =
     (if bh_nVersion block < MIN_BLOCK_VERSION then Some (Inl (Bad 100 ''version-too-low''))
      else do {
        solution \<leftarrow> (if fCheckPOW then CheckEquihashSolution (nd_blake2b nd) block (nd_EquihashN nd) (nd_EquihashK nd) else Some True);
        if \<not> solution then Some (Inl (Bad 100 ''invalid-solution''))
        else if fCheckPOW \<and> \<not> CheckProofOfWork (CBlockHeader_GetHash block) (bh_nBits block) (nd_params nd)
        then Some (Inl (Bad 50 ''high-hash''))
        else if GetBlockTime block > nd_GetAdjustedTime nd + 2 * 60 * 60
        then Some (Inl (Invalid REJECT_INVALID ''time-too-new''))
        else Some (Inr ()) })"

fun check_transactions :: "('pk, 'sig) node \<Rightarrow> bool \<Rightarrow> CTransaction list \<Rightarrow> refusal + unit" where
  "check_transactions nd strict [] = Inr ()"
| "check_transactions nd strict (tx # txs) =
     (case CheckTransaction (nd_sodium nd) (nd_js_verify nd strict) tx of Inl e \<Rightarrow> Inl e
      | Inr _ \<Rightarrow> check_transactions nd strict txs)"

text \<open>The Merkle tree that \<open>BuildMerkleTree\<close> stores in the block is not read again here.\<close>

definition CheckBlock :: "('pk, 'sig) node \<Rightarrow> bool \<Rightarrow> CBlock \<Rightarrow> bool \<Rightarrow> bool \<Rightarrow> (refusal + unit) option" where
  "CheckBlock nd strict block fCheckPOW fCheckMerkleRoot = do {
     header \<leftarrow> CheckBlockHeader nd block fCheckPOW;
     Some (case header of Inl e \<Rightarrow> Inl e
       | Inr _ \<Rightarrow>
           (let (hashMerkleRoot2, mutated, _) = BuildMerkleTree block
            in if fCheckMerkleRoot \<and> bh_hashMerkleRoot block \<noteq> hashMerkleRoot2
               then Inl (DoS 100 REJECT_INVALID ''bad-txnmrklroot'' True)
               else if fCheckMerkleRoot \<and> mutated then Inl (DoS 100 REJECT_INVALID ''bad-txns-duplicate'' True)
               else if vtx block = [] \<or> length (vtx block) > unat MAX_BLOCK_SIZE \<or> length (put_CBlock block) > unat MAX_BLOCK_SIZE
               then Inl (Bad 100 ''bad-blk-length'')
               else if vtx block = [] \<or> \<not> IsCoinBase (vtx block ! 0) then Inl (Bad 100 ''bad-cb-missing'')
               else if list_ex IsCoinBase (tl (vtx block)) then Inl (Bad 100 ''bad-cb-multiple'')
               else case check_transactions nd strict (vtx block) of Inl e \<Rightarrow> Inl e
               | Inr _ \<Rightarrow>
                   if foldl (\<lambda>nSigOps tx. nSigOps + GetLegacySigOpCount tx) 0 (vtx block) > MAX_BLOCK_SIGOPS
                   then Inl (DoS 100 REJECT_INVALID ''bad-blk-sigops'' True) else Inr ())) }"

section \<open>Checks of a block in its place\<close>

fun last_checkpoint :: "(uint256 \<Rightarrow> block_ptr option) \<Rightarrow> (int \<times> uint256) list \<Rightarrow> block_ptr option" where
  "last_checkpoint mapBlockIndex [] = None"
| "last_checkpoint mapBlockIndex ((_, hash) # rest) =
     (case mapBlockIndex hash of Some t \<Rightarrow> Some t | None \<Rightarrow> last_checkpoint mapBlockIndex rest)"

definition GetLastCheckpoint :: "(uint256 \<Rightarrow> block_ptr option) \<Rightarrow> (int \<times> uint256) list \<Rightarrow> block_ptr option" where
  "GetLastCheckpoint mapBlockIndex checkpoints = last_checkpoint mapBlockIndex (rev checkpoints)"

definition ContextualCheckBlockHeader ::
  "('pk, 'sig) node \<Rightarrow> (uint256 \<Rightarrow> block_ptr option) \<Rightarrow> block_store \<Rightarrow> 'a CBlockHeader_scheme \<Rightarrow> block_ptr option \<Rightarrow>
   (refusal + unit) option" where
  "ContextualCheckBlockHeader nd mapBlockIndex idx block pindexPrev =
     (if CBlockHeader_GetHash block = par_hashGenesisBlock (nd_params nd) then Some (Inr ())
      else do {
        p \<leftarrow> pindexPrev;
        prev \<leftarrow> idx p;
        let nHeight = bi_nHeight prev + 1;
        bits \<leftarrow> GetNextWorkRequired idx pindexPrev (nd_params nd);
        if bh_nBits block \<noteq> bits then Some (Inl (Bad 100 ''bad-diffbits''))
        else do {
          median \<leftarrow> GetMedianTimePast idx p;
          if GetBlockTime block \<le> median then Some (Inl (Invalid REJECT_INVALID ''time-too-old''))
          else do {
            old \<leftarrow> (if nd_fCheckpointsEnabled nd
                   then (case GetLastCheckpoint mapBlockIndex (nd_mapCheckpoints nd) of None \<Rightarrow> Some False
                         | Some q \<Rightarrow> do { pcheckpoint \<leftarrow> idx q; Some (nHeight < bi_nHeight pcheckpoint) })
                   else Some False);
            if old then Some (Inl (DoS 100 0 [] False))
            else if bh_nVersion block < 4 then Some (Inl (Invalid REJECT_OBSOLETE ''bad-version''))
            else Some (Inr ()) } } })"

definition ContextualCheckBlock :: "block_store \<Rightarrow> CBlock \<Rightarrow> block_ptr option \<Rightarrow> (refusal + unit) option" where
  "ContextualCheckBlock idx block pindexPrev = do {
     nHeight \<leftarrow> (case pindexPrev of None \<Rightarrow> Some 0 | Some p \<Rightarrow> do { prev \<leftarrow> idx p; Some (bi_nHeight prev + 1) });
     if \<not> list_all (\<lambda>tx. IsFinalTx tx nHeight (GetBlockTime block)) (vtx block) then Some (Inl (Bad 10 ''bad-txns-nonfinal''))
     else if nHeight > 0
     then (if vtx block = [] \<or> vin (vtx block ! 0) = [] then None
           else let expect = push_int64 [] nHeight; script = scriptSig (vin (vtx block ! 0) ! 0)
                in if length script < length expect \<or> take (length expect) script \<noteq> expect
                   then Some (Inl (Bad 100 ''bad-cb-height'')) else Some (Inr ()))
     else Some (Inr ()) }"

section \<open>Undo data on disk\<close>

text \<open>
  The undo files are byte strings by number. Writing past the end of a file extends it; opening and writing succeed.
\<close>

definition file_write :: "bytes \<Rightarrow> nat \<Rightarrow> bytes \<Rightarrow> bytes" where
  "file_write content off data =
     take off (content @ replicate (off - length content) 0) @ data @ drop (off + length data) content"

definition undo_checksum :: "('pk, 'sig) secp256k1 \<Rightarrow> uint256 \<Rightarrow> CBlockUndo \<Rightarrow> uint256" where
  "undo_checksum secp hPrev blockundo = SerializeHash (put_blob hPrev @ put_CBlockUndo secp blockundo)"

definition UndoWriteToDisk ::
  "('pk, 'sig) node \<Rightarrow> (int \<Rightarrow> bytes) \<Rightarrow> CBlockUndo \<Rightarrow> CDiskBlockPos \<Rightarrow> uint256 \<Rightarrow> (int \<Rightarrow> bytes) \<times> CDiskBlockPos" where
  "UndoWriteToDisk nd files blockundo pos hPrev =
     (let undo = put_CBlockUndo (nd_secp nd) blockundo;
          header = nd_messageStart nd @ ser_writedata32 (of_nat (length undo));
          fileOutPos = unat (dp_nPos pos) + length header
      in (files(dp_nFile pos := file_write (files (dp_nFile pos)) (unat (dp_nPos pos))
            (header @ undo @ put_blob (undo_checksum (nd_secp nd) hPrev blockundo))),
          pos\<lparr>dp_nPos := of_nat fileOutPos\<rparr>))"

definition UndoReadFromDisk ::
  "('pk, 'sig) secp256k1 \<Rightarrow> (int \<Rightarrow> bytes) \<Rightarrow> CDiskBlockPos \<Rightarrow> uint256 \<Rightarrow> CBlockUndo option" where
  "UndoReadFromDisk secp files pos hPrev = do {
     (blockundo, s) \<leftarrow> get_CBlockUndo secp (drop (unat (dp_nPos pos)) (files (dp_nFile pos)));
     (hashChecksum, s) \<leftarrow> stream_read 32 s;
     if hashChecksum \<noteq> undo_checksum secp hPrev blockundo then None else Some blockundo }"

section \<open>Taking a block off the tip\<close>

definition apply_undo :: "u32 \<Rightarrow> CTxInUndo \<Rightarrow> CCoins \<Rightarrow> (bool \<times> CCoins) option" where
  "apply_undo n undo coins =
     (let (fClean, coins) =
        (if undo_nHeight undo \<noteq> 0
         then (IsPruned coins,
               CCoins_empty\<lparr>fCoinBase := undo_fCoinBase undo, cc_nHeight := uint (undo_nHeight undo), cc_nVersion := undo_nVersion undo\<rparr>)
         else (\<not> IsPruned coins, coins));
        fClean = (fClean \<and> \<not> IsAvailable coins n);
        outs = (if length (cc_vout coins) < unat (n + 1) then resize (unat (n + 1)) CTxOut_null (cc_vout coins) else cc_vout coins)
      in if unat n < length outs then Some (fClean, coins\<lparr>cc_vout := outs[unat n := undo_txout undo]\<rparr>) else None)"

definition ApplyTxInUndo ::
  "'s CCoinsView \<Rightarrow> 's CCoinsViewCache \<Rightarrow> CTxInUndo \<Rightarrow> COutPoint \<Rightarrow> (bool \<times> 's CCoinsViewCache) option" where
  "ApplyTxInUndo ops c undo out = with_coins ops c (out_hash out) (apply_undo (out_n out) undo)"

definition remove_outputs :: "CTransaction \<Rightarrow> int \<Rightarrow> CCoins \<Rightarrow> (bool \<times> CCoins) option" where
  "remove_outputs tx nHeight outs =
     (let outs = ClearUnspendable outs; outsBlock = FromTx tx nHeight;
          outs = (if cc_nVersion outsBlock < 0 then outs\<lparr>cc_nVersion := cc_nVersion outsBlock\<rparr> else outs)
      in Some (CCoins_eq outs outsBlock, CCoins_empty))"

fun restore_inputs ::
  "'s CCoinsView \<Rightarrow> 's CCoinsViewCache \<Rightarrow> bool \<Rightarrow> (CTxIn \<times> CTxInUndo) list \<Rightarrow> (bool \<times> 's CCoinsViewCache) option" where
  "restore_inputs ops c fClean [] = Some (fClean, c)"
| "restore_inputs ops c fClean ((txin, undo) # rest) = do {
     (ok, c) \<leftarrow> ApplyTxInUndo ops c undo (prevout txin);
     restore_inputs ops c (fClean \<and> ok) rest }"

text \<open>
  Undoing one transaction; the coinbase has no undo data. \<open>Inl\<close> is the early return when the data do not fit.
\<close>

definition disconnect_tx ::
  "'s CCoinsView \<Rightarrow> 's CCoinsViewCache \<Rightarrow> int \<Rightarrow> bool \<Rightarrow> CTransaction \<times> CTxUndo option \<Rightarrow>
   ((refusal + bool) \<times> 's CCoinsViewCache) option" where
  "disconnect_tx ops c nHeight fClean p = do {
     let (tx, undo) = p;
     (ok, c) \<leftarrow> with_coins ops c (tx_hash tx) (remove_outputs tx nHeight);
     let c = foldl (\<lambda>c nf. SetNullifier c nf False) c (tx_nullifiers tx);
     (case undo of None \<Rightarrow> Some (Inr (fClean \<and> ok), c)
      | Some txundo \<Rightarrow>
          if length txundo \<noteq> length (vin tx) then Some (Inl Failed, c)
          else do {
            (fClean, c) \<leftarrow> restore_inputs ops c (fClean \<and> ok) (rev (zip (vin tx) txundo));
            Some (Inr fClean, c) }) }"

fun disconnect_txs ::
  "'s CCoinsView \<Rightarrow> 's CCoinsViewCache \<Rightarrow> int \<Rightarrow> bool \<Rightarrow> (CTransaction \<times> CTxUndo option) list \<Rightarrow>
   ((refusal + bool) \<times> 's CCoinsViewCache) option" where
  "disconnect_txs ops c nHeight fClean [] = Some (Inr fClean, c)"
| "disconnect_txs ops c nHeight fClean (p # rest) = do {
     (r, c) \<leftarrow> disconnect_tx ops c nHeight fClean p;
     case r of Inl e \<Rightarrow> Some (Inl e, c) | Inr fClean \<Rightarrow> disconnect_txs ops c nHeight fClean rest }"

text \<open>
  The result is \<open>Inr fClean\<close>; the code stores it in \<open>pfClean\<close> and returns true when it is given that pointer, and returns it otherwise.
\<close>

definition DisconnectBlock ::
  "('pk, 'sig) node \<Rightarrow> block_store \<Rightarrow> (int \<Rightarrow> bytes) \<Rightarrow> 's CCoinsView \<Rightarrow> CBlock \<Rightarrow> block_ptr \<Rightarrow> 's CCoinsViewCache \<Rightarrow>
   ((refusal + bool) \<times> 's CCoinsViewCache) option" where
  "DisconnectBlock nd idx undo_files ops block p c = do {
     pindex \<leftarrow> idx p;
     let (best, c) = GetBestBlock ops c;
     if bi_hashBlock pindex \<noteq> best then None
     else if CDiskBlockPos_IsNull (GetUndoPos pindex) then Some (Inl Failed, c)
     else do {
       pp \<leftarrow> bi_pprev pindex;
       prev \<leftarrow> idx pp;
       (case UndoReadFromDisk (nd_secp nd) undo_files (GetUndoPos pindex) (bi_hashBlock prev) of
          None \<Rightarrow> Some (Inl Failed, c)
        | Some blockUndo \<Rightarrow>
            if length (vtxundo blockUndo) + 1 \<noteq> length (vtx block) then Some (Inl Failed, c)
            else do {
              (r, c) \<leftarrow> disconnect_txs ops c (bi_nHeight pindex) True
                (rev (zip (vtx block) (None # map Some (vtxundo blockUndo))));
              case r of Inl e \<Rightarrow> Some (Inl e, c)
              | Inr fClean \<Rightarrow> do {
                  c \<leftarrow> PopAnchor ops c (old_tree_root blockUndo);
                  Some (Inr fClean, SetBestBlock c (bi_hashBlock prev)) } }) } }"

section \<open>Putting a block on the tip\<close>

text \<open>
  What the loop over the transactions carries along: the signature operations and fees so far, the undo data of the
  transactions after the coinbase, the commitment tree, the script checks left to other threads, and the positions of the
  transactions in the block file.
\<close>

record CDiskTxPos = CDiskBlockPos +
  nTxOffset :: u32

record connect_state =
  cn_nSigOps :: u32
  cn_nFees :: CAmount
  cn_vtxundo :: "CTxUndo list"
  cn_tree :: ZCIncrementalMerkleTree
  cn_checks :: "CScriptCheck list"
  cn_vPos :: "(uint256 \<times> CDiskTxPos) list"
  cn_pos :: CDiskTxPos

definition connect_flags :: u32 where
  "connect_flags = SCRIPT_VERIFY_P2SH OR SCRIPT_VERIFY_CHECKLOCKTIMEVERIFY"

text \<open>The part for transactions that are not coinbases: the new count, the fee and the deferred checks.\<close>

definition connect_spend ::
  "('pk, 'sig) node \<Rightarrow> (uint256 \<Rightarrow> block_ptr option) \<Rightarrow> block_store \<Rightarrow> 's CCoinsView \<Rightarrow> 's CCoinsViewCache \<Rightarrow> bool \<Rightarrow> u32 \<Rightarrow>
   CTransaction \<Rightarrow> ((refusal + (u32 \<times> CAmount \<times> CScriptCheck list)) \<times> 's CCoinsViewCache) option" where
  "connect_spend nd mapBlockIndex idx ops c fExpensiveChecks nSigOps tx =
     (let (have, c) = HaveInputs ops c tx
      in if \<not> have then Some (Inl (Bad 100 ''bad-txns-inputs-missingorspent''), c)
      else do {
        (met, c) \<leftarrow> HaveJoinSplitRequirements ops c tx;
        if \<not> met then Some (Inl (Bad 100 ''bad-txns-joinsplit-requirements-not-met''), c)
        else do {
          (n, c) \<leftarrow> GetP2SHSigOpCount ops c tx;
          let nSigOps = nSigOps + n;
          if nSigOps > MAX_BLOCK_SIGOPS then Some (Inl (Bad 100 ''bad-blk-sigops''), c)
          else do {
            (valueIn, c) \<leftarrow> GetValueIn ops c tx;
            valueOut \<leftarrow> GetValueOut tx;
            (r, c) \<leftarrow> ContextualCheckInputs nd mapBlockIndex idx ops c tx fExpensiveChecks connect_flags (nd_nScriptCheckThreads nd);
            case r of Inl e \<Rightarrow> Some (Inl e, c)
            | Inr vChecks \<Rightarrow> Some (Inr (nSigOps, valueIn - valueOut, vChecks), c) } } })"

definition connect_tx ::
  "('pk, 'sig) node \<Rightarrow> (uint256 \<Rightarrow> block_ptr option) \<Rightarrow> block_store \<Rightarrow> 's CCoinsView \<Rightarrow> 's CCoinsViewCache \<Rightarrow> bool \<Rightarrow> int \<Rightarrow> bool \<Rightarrow>
   connect_state \<Rightarrow> CTransaction \<Rightarrow> ((refusal + connect_state) \<times> 's CCoinsViewCache) option" where
  "connect_tx nd mapBlockIndex idx ops c fExpensiveChecks nHeight first s tx =
     (let nSigOps = cn_nSigOps s + GetLegacySigOpCount tx
      in if nSigOps > MAX_BLOCK_SIGOPS then Some (Inl (Bad 100 ''bad-blk-sigops''), c)
      else do {
        (r, c) \<leftarrow> (if IsCoinBase tx then Some (Inr (nSigOps, 0, []), c)
                 else connect_spend nd mapBlockIndex idx ops c fExpensiveChecks nSigOps tx);
        case r of Inl e \<Rightarrow> Some (Inl e, c)
        | Inr (nSigOps, fee, vChecks) \<Rightarrow> do {
            (txundo, c) \<leftarrow> UpdateCoins ops c tx nHeight;
            tree \<leftarrow> ZCTree_appends (cn_tree s) (concat (map commitments (vjoinsplit tx)));
            Some (Inr \<lparr>cn_nSigOps = nSigOps, cn_nFees = cn_nFees s + fee,
              cn_vtxundo = (if first then cn_vtxundo s else cn_vtxundo s @ [txundo]),
              cn_tree = tree, cn_checks = cn_checks s @ vChecks,
              cn_vPos = cn_vPos s @ [(tx_hash tx, cn_pos s)],
              cn_pos = (cn_pos s)\<lparr>nTxOffset := nTxOffset (cn_pos s) + of_nat (length (put_transaction tx))\<rparr>\<rparr>, c) } })"

fun connect_txs ::
  "('pk, 'sig) node \<Rightarrow> (uint256 \<Rightarrow> block_ptr option) \<Rightarrow> block_store \<Rightarrow> 's CCoinsView \<Rightarrow> 's CCoinsViewCache \<Rightarrow> bool \<Rightarrow> int \<Rightarrow> bool \<Rightarrow>
   connect_state \<Rightarrow> CTransaction list \<Rightarrow> ((refusal + connect_state) \<times> 's CCoinsViewCache) option" where
  "connect_txs nd mapBlockIndex idx ops c fExpensiveChecks nHeight first s [] = Some (Inr s, c)"
| "connect_txs nd mapBlockIndex idx ops c fExpensiveChecks nHeight first s (tx # txs) = do {
     (r, c) \<leftarrow> connect_tx nd mapBlockIndex idx ops c fExpensiveChecks nHeight first s tx;
     case r of Inl e \<Rightarrow> Some (Inl e, c)
     | Inr s \<Rightarrow> connect_txs nd mapBlockIndex idx ops c fExpensiveChecks nHeight False s txs }"

fun overwrites :: "'s CCoinsView \<Rightarrow> 's CCoinsViewCache \<Rightarrow> CTransaction list \<Rightarrow> bool \<times> 's CCoinsViewCache" where
  "overwrites ops c [] = (False, c)"
| "overwrites ops c (tx # txs) =
     (let (coins, c) = AccessCoins ops c (tx_hash tx)
      in case coins of Some x \<Rightarrow> if \<not> IsPruned x then (True, c) else overwrites ops c txs
         | None \<Rightarrow> overwrites ops c txs)"

fun run_checks :: "('pk, 'sig) node \<Rightarrow> CScriptCheck list \<Rightarrow> bool option" where
  "run_checks nd [] = Some True"
| "run_checks nd (check # checks) = do { (ok, _) \<leftarrow> CScriptCheck_run nd check; rest \<leftarrow> run_checks nd checks; Some (ok \<and> rest) }"

text \<open>
  The state of the node that connecting a block changes besides the view: the block index with the set of entries to
  be written, the undo files with the sizes that \<^verbatim>\<open>vinfoBlockFile\<close> records and the set of records to be written, and the
  transaction index. The disk has space, and reserving file space ahead is left out.
\<close>

record chainstate =
  cs_blocks :: block_store
  cs_mapBlockIndex :: "uint256 \<Rightarrow> block_ptr option"
  cs_setDirtyBlockIndex :: "block_ptr set"
  cs_undo_files :: "int \<Rightarrow> bytes"
  cs_nUndoSize :: "int \<Rightarrow> u32"
  cs_setDirtyFileInfo :: "int set"
  cs_txindex :: "uint256 \<Rightarrow> CDiskTxPos option"

definition FindUndoPos :: "chainstate \<Rightarrow> int \<Rightarrow> u32 \<Rightarrow> CDiskBlockPos \<times> chainstate" where
  "FindUndoPos cs nFile nAddSize =
     (\<lparr>dp_nFile = nFile, dp_nPos = cs_nUndoSize cs nFile\<rparr>,
      cs\<lparr>cs_nUndoSize := (cs_nUndoSize cs)(nFile := cs_nUndoSize cs nFile + nAddSize),
         cs_setDirtyFileInfo := insert nFile (cs_setDirtyFileInfo cs)\<rparr>)"

definition update_index :: "block_ptr \<Rightarrow> (CBlockIndex \<Rightarrow> CBlockIndex) \<Rightarrow> chainstate \<Rightarrow> chainstate" where
  "update_index p f cs = cs\<lparr>cs_blocks := (cs_blocks cs)(p := map_option f (cs_blocks cs p))\<rparr>"

definition WriteTxIndex :: "chainstate \<Rightarrow> (uint256 \<times> CDiskTxPos) list \<Rightarrow> chainstate" where
  "WriteTxIndex cs vPos = cs\<lparr>cs_txindex := foldl (\<lambda>m (h, pos). m(h := Some pos)) (cs_txindex cs) vPos\<rparr>"

definition write_undo :: "('pk, 'sig) node \<Rightarrow> chainstate \<Rightarrow> block_ptr \<Rightarrow> CBlockUndo \<Rightarrow> chainstate option" where
  "write_undo nd cs p blockundo = do {
     pindex \<leftarrow> cs_blocks cs p;
     let undoNull = CDiskBlockPos_IsNull (GetUndoPos pindex);
     valid \<leftarrow> IsValid pindex BLOCK_VALID_SCRIPTS;
     if undoNull \<or> \<not> valid then do {
       cs \<leftarrow> (if undoNull then do {
                let (pos, cs) = FindUndoPos cs (bi_nFile pindex) (of_nat (length (put_CBlockUndo (nd_secp nd) blockundo)) + 40);
                pp \<leftarrow> bi_pprev pindex;
                prev \<leftarrow> cs_blocks cs pp;
                let (files, pos) = UndoWriteToDisk nd (cs_undo_files cs) blockundo pos (bi_hashBlock prev);
                Some (update_index p (\<lambda>bi. bi\<lparr>bi_nUndoPos := dp_nPos pos, bi_nStatus := bi_nStatus bi OR BLOCK_HAVE_UNDO\<rparr>)
                  (cs\<lparr>cs_undo_files := files\<rparr>)) }
              else Some cs);
       pindex \<leftarrow> cs_blocks cs p;
       (pindex, _) \<leftarrow> RaiseValidity pindex BLOCK_VALID_SCRIPTS;
       Some (update_index p (\<lambda>_. pindex) (cs\<lparr>cs_setDirtyBlockIndex := insert p (cs_setDirtyBlockIndex cs)\<rparr>)) }
     else Some cs }"

text \<open>Whether the scripts of the block are checked: not below the last checkpoint.\<close>

definition expensive_checks :: "('pk, 'sig) node \<Rightarrow> chainstate \<Rightarrow> block_ptr \<Rightarrow> CBlockIndex \<Rightarrow> bool option" where
  "expensive_checks nd cs p pindex =
     (if nd_fCheckpointsEnabled nd
      then (case GetLastCheckpoint (cs_mapBlockIndex cs) (nd_mapCheckpoints nd) of None \<Rightarrow> Some True
            | Some q \<Rightarrow> do { anc \<leftarrow> GetAncestor (cs_blocks cs) q (bi_nHeight pindex); Some (anc \<noteq> Some p) })
      else Some True)"

text \<open>
  The part after the loop over the transactions: the new anchor, the reward, the script checks left to other threads, the undo
  data and the transaction index. Bench logging and the signals to the wallet are left out.
\<close>

definition connect_finish ::
  "('pk, 'sig) node \<Rightarrow> chainstate \<Rightarrow> 's CCoinsView \<Rightarrow> 's CCoinsViewCache \<Rightarrow> CBlock \<Rightarrow> block_ptr \<Rightarrow> CBlockIndex \<Rightarrow> uint256 \<Rightarrow> bool \<Rightarrow>
   connect_state \<Rightarrow> ((refusal + unit) \<times> chainstate \<times> 's CCoinsViewCache) option" where
  "connect_finish nd cs ops c block p pindex oldRoot fJustCheck s = do {
     let c = PushAnchor ops c (cn_tree s);
     let cs = (if fJustCheck then cs else update_index p (\<lambda>bi. bi\<lparr>bi_hashAnchorEnd := ZCTree_root (cn_tree s)\<rparr>) cs);
     let blockReward = cn_nFees s + GetBlockSubsidy (bi_nHeight pindex) (nd_params nd);
     coinbase \<leftarrow> (if vtx block = [] then None else Some (vtx block ! 0));
     valueOut \<leftarrow> GetValueOut coinbase;
     if valueOut > blockReward then Some (Inl (Bad 100 ''bad-cb-amount''), cs, c)
     else do {
       scriptsOk \<leftarrow> run_checks nd (cn_checks s);
       if \<not> scriptsOk then Some (Inl (DoS 100 0 [] False), cs, c)
       else if fJustCheck then Some (Inr (), cs, c)
       else do {
         cs \<leftarrow> write_undo nd cs p \<lparr>vtxundo = cn_vtxundo s, old_tree_root = oldRoot\<rparr>;
         let cs = (if nd_fTxIndex nd then WriteTxIndex cs (cn_vPos s) else cs);
         Some (Inr (), cs, SetBestBlock c (bi_hashBlock pindex)) } } }"

text \<open>The part after the checks of the block itself and the special case of the genesis block.\<close>

definition connect_body ::
  "('pk, 'sig) node \<Rightarrow> chainstate \<Rightarrow> 's CCoinsView \<Rightarrow> 's CCoinsViewCache \<Rightarrow> CBlock \<Rightarrow> block_ptr \<Rightarrow> CBlockIndex \<Rightarrow> bool \<Rightarrow> bool \<Rightarrow>
   ((refusal + unit) \<times> chainstate \<times> 's CCoinsViewCache) option" where
  "connect_body nd cs ops c block p pindex fExpensiveChecks fJustCheck =
     (let (over, c) = overwrites ops c (vtx block)
      in if over then Some (Inl (Bad 100 ''bad-txns-BIP30''), cs, c)
      else do {
        let (oldRoot, c) = GetBestAnchor ops c;
        let cs = (if fJustCheck then cs else update_index p (\<lambda>bi. bi\<lparr>bi_hashAnchor := oldRoot\<rparr>) cs);
        let (tree, c) = GetAnchorAt ops c oldRoot;
        tree \<leftarrow> tree;
        if ZCTree_root tree \<noteq> oldRoot then None
        else do {
          (r, c) \<leftarrow> connect_txs nd (cs_mapBlockIndex cs) (cs_blocks cs) ops c fExpensiveChecks (bi_nHeight pindex) True
            \<lparr>cn_nSigOps = 0, cn_nFees = 0, cn_vtxundo = [], cn_tree = tree, cn_checks = [], cn_vPos = [],
             cn_pos = CDiskBlockPos.extend (GetBlockPos pindex)
               (CDiskTxPos.fields (of_nat (GetSizeOfCompactSize (of_nat (length (vtx block))))))\<rparr> (vtx block);
          case r of Inl e \<Rightarrow> Some (Inl e, cs, c)
          | Inr s \<Rightarrow> connect_finish nd cs ops c block p pindex oldRoot fJustCheck s } })"

definition ConnectBlock ::
  "('pk, 'sig) node \<Rightarrow> chainstate \<Rightarrow> 's CCoinsView \<Rightarrow> CBlock \<Rightarrow> block_ptr \<Rightarrow> 's CCoinsViewCache \<Rightarrow> bool \<Rightarrow>
   ((refusal + unit) \<times> chainstate \<times> 's CCoinsViewCache) option" where
  "ConnectBlock nd cs ops block p c fJustCheck = do {
     pindex \<leftarrow> cs_blocks cs p;
     fExpensiveChecks \<leftarrow> expensive_checks nd cs p pindex;
     checked \<leftarrow> CheckBlock nd fExpensiveChecks block (\<not> fJustCheck) (\<not> fJustCheck);
     case checked of Inl e \<Rightarrow> Some (Inl e, cs, c)
     | Inr _ \<Rightarrow> do {
         hashPrevBlock \<leftarrow> (case bi_pprev pindex of None \<Rightarrow> Some uint256_null | Some pp \<Rightarrow> map_option bi_hashBlock (cs_blocks cs pp));
         let (best, c) = GetBestBlock ops c;
         if hashPrevBlock \<noteq> best then None
         else if CBlockHeader_GetHash block = par_hashGenesisBlock (nd_params nd)
         then Some (Inr (),
           if fJustCheck then (cs, c)
           else (update_index p (\<lambda>bi. bi\<lparr>bi_hashAnchor := ZCTree_empty_root, bi_hashAnchorEnd := ZCTree_empty_root\<rparr>) cs,
                 SetBestBlock c (bi_hashBlock pindex)))
         else connect_body nd cs ops c block p pindex fExpensiveChecks fJustCheck } }"

section \<open>Reading does not change the chain state\<close>

text \<open>
  A block is connected through a cache over a view that fulfils the contract. The questions asked before the coins are
  updated keep the invariant and the abstract state of the cache.
\<close>

definition output_in :: "chain_view \<Rightarrow> COutPoint \<Rightarrow> CTxOut option" where
  "output_in v out = do {
     x \<leftarrow> cv_coins v (out_hash out);
     if IsAvailable x (out_n out) then Some (cc_vout x ! unat (out_n out)) else None }"

definition value_of :: "chain_view \<Rightarrow> CTxIn list \<Rightarrow> CAmount" where
  "value_of v ins = sum_list (map (\<lambda>txin. nValue (the (output_in v (prevout txin)))) ins)"

lemma output_in_pruned:
  assumes "unspent r = cv_coins v (out_hash out)"
  shows "output_in v out = (case r of None \<Rightarrow> None | Some x \<Rightarrow> if IsAvailable x (out_n out) then Some (cc_vout x ! unat (out_n out)) else None)"
  using assms [symmetric] by (cases r) (auto simp: output_in_def unspent_def IsPruned_def IsAvailable_def list_all_length split: if_splits)

context coins_view
begin

abbreviation "gd \<equiv> cache_good good view held"
abbreviation "vw \<equiv> cache_view view"

definition keeps :: "'s CCoinsViewCache \<Rightarrow> 's CCoinsViewCache \<Rightarrow> bool" where
  "keeps c c' \<longleftrightarrow> gd c' \<and> vw c' = vw c"

lemma keeps_refl [simp]: "gd c \<Longrightarrow> keeps c c"
  by (simp add: keeps_def)

lemma keeps_trans: "keeps c c' \<Longrightarrow> keeps c' c'' \<Longrightarrow> keeps c c''"
  by (simp add: keeps_def)

lemma AccessCoins_reads:
  assumes "gd c" "AccessCoins ops c k = (r, c')"
  shows "keeps c c'" "unspent r = cv_coins (vw c) k" "\<And>x. r = Some x \<Longrightarrow> valid_coins x"
proof -
  obtain e where e: "FetchCoins ops c k = (e, c')" "r = map_option ce_coins e"
    using assms(2) by (auto simp: AccessCoins_def Let_def split: prod.splits)
  note f = fetch_coins [OF assms(1) e(1)]
  show "keeps c c'" "unspent r = cv_coins (vw c) k" using f(1,2) e(2) by (simp_all add: keeps_def only_reads_def)
  show "\<And>x. r = Some x \<Longrightarrow> valid_coins x" using f(4) e(2) by auto
qed

lemma GetOutputFor_reads:
  assumes "gd c" "GetOutputFor ops c txin = Some (o', c')"
  shows "keeps c c'" "output_in (vw c) (prevout txin) = Some o'"
proof -
  obtain r x where r: "AccessCoins ops c (out_hash (prevout txin)) = (r, c')" "r = Some x" "IsAvailable x (out_n (prevout txin))"
    "o' = cc_vout x ! unat (out_n (prevout txin))"
    using assms(2) by (auto simp: GetOutputFor_def split: prod.splits option.splits if_splits)
  note a = AccessCoins_reads [OF assms(1) r(1)]
  show "keeps c c'" by (rule a(1))
  show "output_in (vw c) (prevout txin) = Some o'"
    unfolding output_in_pruned [OF a(2)] using r by simp
qed

lemma have_inputs_reads:
  "gd c \<Longrightarrow> have_inputs_loop ops c ins = (b, c') \<Longrightarrow>
    keeps c c' \<and> (b \<longleftrightarrow> (\<forall>txin\<in>set ins. output_in (vw c) (prevout txin) \<noteq> None))"
proof (induction ins arbitrary: c)
  case (Cons txin ins)
  obtain r c1 where r: "AccessCoins ops c (out_hash (prevout txin)) = (r, c1)" by fastforce
  note a = AccessCoins_reads [OF Cons.prems(1) r]
  note o = output_in_pruned [OF a(2)]
  have g1: "gd c1" "vw c1 = vw c" using a(1) by (simp_all add: keeps_def)
  show ?case
    using Cons.IH [OF g1(1)] Cons.prems r a(1) o g1 by (auto simp: keeps_def split: option.splits if_splits)
qed simp

lemma HaveInputs_reads:
  assumes "gd c" "HaveInputs ops c tx = (b, c')"
  shows "keeps c c'" "b \<Longrightarrow> \<not> IsCoinBase tx \<Longrightarrow> \<forall>txin\<in>set (vin tx). output_in (vw c) (prevout txin) \<noteq> None"
  using have_inputs_reads [OF assms(1), of "vin tx"] assms by (auto simp: HaveInputs_def split: if_splits)

lemma any_nullifier_reads:
  "gd c \<Longrightarrow> any_nullifier ops c nfs = (b, c') \<Longrightarrow> keeps c c' \<and> (b \<longleftrightarrow> (\<exists>nf\<in>set nfs. cv_nullifiers (vw c) nf))"
proof (induction nfs arbitrary: c)
  case (Cons nf nfs)
  obtain r c1 where r: "GetNullifier ops c nf = (r, c1)" by fastforce
  note a = cache_get_nullifier [OF Cons.prems(1) r]
  have g1: "gd c1" "vw c1 = vw c" using a(1) by (simp_all add: only_reads_def)
  show ?case using Cons.IH [OF g1(1)] Cons.prems r a(2) g1 by (auto simp: keeps_def split: if_splits)
qed simp

lemma joinsplit_reads:
  "gd c \<Longrightarrow> joinsplit_loop ops c im js = Some (b, c') \<Longrightarrow>
    keeps c c' \<and> (b \<longrightarrow> (\<forall>j\<in>set js. \<forall>nf\<in>set (nullifiers j). \<not> cv_nullifiers (vw c) nf))"
proof (induction js arbitrary: c im)
  case (Cons j js)
  obtain s c1 where s: "any_nullifier ops c (nullifiers j) = (s, c1)" by fastforce
  note a = any_nullifier_reads [OF Cons.prems(1) s]
  have g1: "gd c1" "vw c1 = vw c" using a by (simp_all add: keeps_def)
  show ?case
  proof (cases s)
    case True
    with Cons.prems s a show ?thesis by simp
  next
    case False
    obtain t c2 where t: "(case map_of im (anchor j) of Some t \<Rightarrow> (Some t, c1) | None \<Rightarrow> GetAnchorAt ops c1 (anchor j)) = (t, c2)"
      by fastforce
    have g2: "gd c2" "vw c2 = vw c"
      using t g1 cache_get_anchor(1) [OF g1(1)] by (auto simp: only_reads_def split: option.splits)
    have rest: "keeps c c' \<and> (b \<longrightarrow> (\<forall>j\<in>set js. \<forall>nf\<in>set (nullifiers j). \<not> cv_nullifiers (vw c) nf))"
      if "joinsplit_loop ops c2 im' js = Some (b, c')" for im'
      using Cons.IH [OF g2(1) that] g2 by (simp add: keeps_def)
    show ?thesis
      using Cons.prems(2) False s a t g2 rest
      by (cases t) (auto simp: keeps_def bind_eq_Some_conv)
  qed
qed simp

lemma HaveJoinSplitRequirements_reads:
  assumes "gd c" "HaveJoinSplitRequirements ops c tx = Some (b, c')"
  shows "keeps c c'" "b \<Longrightarrow> \<forall>nf\<in>set (tx_nullifiers tx). \<not> cv_nullifiers (vw c) nf"
  using joinsplit_reads [OF assms(1), of "[]" "vjoinsplit tx"] assms(2)
  by (auto simp: HaveJoinSplitRequirements_def tx_nullifiers_def)

lemma p2sh_sigops_reads: "gd c \<Longrightarrow> p2sh_sigops_loop ops c n ins = Some (r, c') \<Longrightarrow> keeps c c'"
proof (induction ins arbitrary: c n)
  case (Cons txin ins)
  obtain o' c1 where "GetOutputFor ops c txin = Some (o', c1)" using Cons.prems(2) by (auto simp: bind_eq_Some_conv)
  with Cons GetOutputFor_reads(1) [OF Cons.prems(1) this] show ?case by (auto simp: keeps_def)
qed simp

lemma GetP2SHSigOpCount_reads: "gd c \<Longrightarrow> GetP2SHSigOpCount ops c tx = Some (r, c') \<Longrightarrow> keeps c c'"
  using p2sh_sigops_reads by (auto simp: GetP2SHSigOpCount_def split: if_splits)

lemma value_in_reads:
  "gd c \<Longrightarrow> value_in_loop ops c a ins = Some (r, c') \<Longrightarrow> keeps c c' \<and> r = a + value_of (vw c) ins"
proof (induction ins arbitrary: c a)
  case (Cons txin ins)
  obtain o' c1 where o: "GetOutputFor ops c txin = Some (o', c1)" using Cons.prems(2) by (auto simp: bind_eq_Some_conv)
  note g = GetOutputFor_reads [OF Cons.prems(1) o]
  then have g1: "gd c1" "vw c1 = vw c" by (simp_all add: keeps_def)
  show ?case using Cons.IH [OF g1(1), of "a + nValue o'"] Cons.prems o g g1 by (auto simp: keeps_def value_of_def)
qed (simp add: value_of_def)

lemma GetValueIn_reads:
  assumes "gd c" "GetValueIn ops c tx = Some (r, c')" "\<not> IsCoinBase tx"
  shows "keeps c c'" "\<exists>j. GetJoinSplitValueIn tx = Some j \<and> r = value_of (vw c) (vin tx) + j"
  using assms value_in_reads [OF assms(1), of 0 "vin tx"] by (auto simp: GetValueIn_def bind_eq_Some_conv)

end

text \<open>A coinbase is mature when enough blocks are on top of it.\<close>

definition mature_in :: "chain_view \<Rightarrow> int \<Rightarrow> COutPoint \<Rightarrow> bool" where
  "mature_in v nSpendHeight out \<longleftrightarrow>
     (\<forall>x. cv_coins v (out_hash out) = Some x \<longrightarrow> fCoinBase x \<longrightarrow> COINBASE_MATURITY \<le> nSpendHeight - cc_nHeight x)"

definition input_check :: "chain_view \<Rightarrow> CTransaction \<Rightarrow> u32 \<Rightarrow> nat \<Rightarrow> CScriptCheck option" where
  "input_check v tx flags i = map_option
     (\<lambda>txout. \<lparr>sc_scriptPubKey = scriptPubKey txout, sc_txTo = tx, sc_nIn = i, sc_nFlags = flags\<rparr>) (output_in v (prevout (vin tx ! i)))"

definition script_passes :: "('pk, 'sig) node \<Rightarrow> CScriptCheck option \<Rightarrow> bool" where
  "script_passes nd check \<longleftrightarrow> (\<exists>x e. check = Some x \<and> CScriptCheck_run nd x = Some (True, e))"

lemma available_not_pruned: "unspent (Some x) = cv_coins v k \<Longrightarrow> IsAvailable x n \<Longrightarrow> cv_coins v k = Some x"
  by (auto simp: unspent_def IsPruned_def IsAvailable_def list_all_length split: if_splits)

context coins_view
begin

lemma check_inputs_reads:
  "gd c \<Longrightarrow> check_inputs_loop nd ops c tx h a ins = Some (r, c') \<Longrightarrow>
    \<forall>txin\<in>set ins. output_in (vw c) (prevout txin) \<noteq> None \<Longrightarrow>
    keeps c c' \<and> (\<forall>t. r = Inr t \<longrightarrow> t = a + value_of (vw c) ins \<and> (\<forall>txin\<in>set ins. mature_in (vw c) h (prevout txin)))"
proof (induction ins arbitrary: c a)
  case (Cons txin ins)
  let ?out = "prevout txin"
  obtain q c1 where q: "AccessCoins ops c (out_hash ?out) = (q, c1)" by fastforce
  note a = AccessCoins_reads [OF Cons.prems(1) q]
  have g1: "gd c1" "vw c1 = vw c" using a(1) by (simp_all add: keeps_def)
  obtain x where x: "q = Some x" "IsAvailable x (out_n ?out)" "output_in (vw c) ?out = Some (cc_vout x ! unat (out_n ?out))"
    using Cons.prems(3) output_in_pruned [OF a(2)] by (auto split: option.splits if_splits)
  have m: "mature_in (vw c) h ?out" if "\<not> (fCoinBase x \<and> h - cc_nHeight x < COINBASE_MATURITY)"
    using that available_not_pruned [OF a(2) [unfolded x(1)] x(2)] by (auto simp: mature_in_def)
  show ?case
    using Cons.IH [OF g1(1), of "a + nValue (cc_vout x ! unat (out_n ?out))"] Cons.prems q a(1) g1 x m
    by (auto simp: keeps_def value_of_def Let_def split: if_splits)
qed (auto simp: value_of_def)

lemma CheckTxInputs_reads:
  assumes g: "gd c" and r: "CheckTxInputs nd ops c tx h = Some (r, c')" and nc: "\<not> IsCoinBase tx"
  shows "keeps c c'"
    and "r = Inr () \<Longrightarrow> \<exists>j out. GetJoinSplitValueIn tx = Some j \<and> GetValueOut tx = Some out \<and>
      out \<le> value_of (vw c) (vin tx) + j \<and> (\<forall>txin\<in>set (vin tx). mature_in (vw c) h (prevout txin))"
proof -
  obtain b c1 where b: "HaveInputs ops c tx = (b, c1)" by fastforce
  note h = HaveInputs_reads [OF g b]
  have g1: "gd c1" "vw c1 = vw c" using h(1) by (simp_all add: keeps_def)
  have "keeps c c' \<and> (r = Inr () \<longrightarrow> (\<exists>j out. GetJoinSplitValueIn tx = Some j \<and> GetValueOut tx = Some out \<and>
      out \<le> value_of (vw c) (vin tx) + j \<and> (\<forall>txin\<in>set (vin tx). mature_in (vw c) h (prevout txin))))"
  proof (cases b)
    case False
    with r b h(1) show ?thesis by (auto simp: CheckTxInputs_def)
  next
    case True
    then obtain m c2 where m: "HaveJoinSplitRequirements ops c1 tx = Some (m, c2)"
      using r b by (auto simp: CheckTxInputs_def bind_eq_Some_conv)
    note h2 = HaveJoinSplitRequirements_reads [OF g1(1) m]
    have g2: "gd c2" "vw c2 = vw c" using h2(1) g1 by (simp_all add: keeps_def)
    show ?thesis
    proof (cases m)
      case False
      with r b True m g2 show ?thesis by (auto simp: CheckTxInputs_def keeps_def)
    next
      case mt: True
      then obtain t c3 where t: "check_inputs_loop nd ops c2 tx h 0 (vin tx) = Some (t, c3)"
        using r b True m by (auto simp: CheckTxInputs_def bind_eq_Some_conv)
      have "\<forall>txin\<in>set (vin tx). output_in (vw c2) (prevout txin) \<noteq> None" using h(2) True nc g2 by simp
      note h3 = check_inputs_reads [OF g2(1) t this]
      show ?thesis
        using r b True m mt t h3 g2
        by (cases t) (auto simp: CheckTxInputs_def keeps_def bind_eq_Some_conv Let_def split: if_splits)
    qed
  qed
  then show "keeps c c'" "r = Inr () \<Longrightarrow> \<exists>j out. GetJoinSplitValueIn tx = Some j \<and> GetValueOut tx = Some out \<and>
      out \<le> value_of (vw c) (vin tx) + j \<and> (\<forall>txin\<in>set (vin tx). mature_in (vw c) h (prevout txin))" by auto
qed

lemma script_checks_reads:
  "gd c \<Longrightarrow> script_checks_loop nd ops c tx flags deferred ix = Some (r, c') \<Longrightarrow>
    \<forall>i\<in>set ix. output_in (vw c) (prevout (vin tx ! i)) \<noteq> None \<Longrightarrow>
    keeps c c' \<and> (\<forall>checks. r = Inr checks \<longrightarrow>
      (if deferred then map Some checks = map (input_check (vw c) tx flags) ix
       else checks = [] \<and> (\<forall>i\<in>set ix. script_passes nd (input_check (vw c) tx flags i))))"
proof (induction ix arbitrary: c r)
  case (Cons i ix)
  let ?out = "prevout (vin tx ! i)"
  obtain q c1 where q: "AccessCoins ops c (out_hash ?out) = (q, c1)" by fastforce
  note a = AccessCoins_reads [OF Cons.prems(1) q]
  have g1: "gd c1" "vw c1 = vw c" using a(1) by (simp_all add: keeps_def)
  obtain x where x: "q = Some x" "IsAvailable x (out_n ?out)" "output_in (vw c) ?out = Some (cc_vout x ! unat (out_n ?out))"
    using Cons.prems(3) output_in_pruned [OF a(2)] by (auto split: option.splits if_splits)
  obtain check where k: "CScriptCheck_of x tx i flags = Some check"
    using Cons.prems(2) q x(1) by (auto simp: bind_eq_Some_conv)
  then have ic: "input_check (vw c) tx flags i = Some check"
    using x(3) by (auto simp: input_check_def CScriptCheck_of_def split: if_splits)
  have av: "\<forall>i\<in>set ix. output_in (vw c1) (prevout (vin tx ! i)) \<noteq> None" using Cons.prems(3) g1 by simp
  show ?case
  proof (cases deferred)
    case True
    then obtain r1 where r1: "script_checks_loop nd ops c1 tx flags True ix = Some (r1, c')"
      "r = (case r1 of Inl e \<Rightarrow> Inl e | Inr checks \<Rightarrow> Inr (check # checks))"
      using Cons.prems(2) q x(1) k by (auto simp: bind_eq_Some_conv)
    with Cons.IH [OF g1(1), of r1] av True g1 ic show ?thesis
      by (cases r1) (auto simp: keeps_def)
  next
    case False
    obtain ok err where run: "CScriptCheck_run nd check = Some (ok, err)"
      using Cons.prems(2) q x(1) k False by (auto simp: bind_eq_Some_conv)
    show ?thesis
    proof (cases ok)
      case True
      then have "script_checks_loop nd ops c1 tx flags False ix = Some (r, c')"
        using Cons.prems(2) q x(1) k False run by simp
      with Cons.IH [OF g1(1), of r] av False g1 ic run True show ?thesis
        by (auto simp: keeps_def script_passes_def)
    next
      case bad: False
      then show ?thesis
        using Cons.prems(2) q x(1) k False run a(1) by (auto simp: bind_eq_Some_conv)
    qed
  qed
qed simp

lemma GetSpendHeight_reads:
  assumes "gd c" "GetSpendHeight m st ops c = Some (h, c')"
  shows "keeps c c'" "\<exists>p bi. m (cv_best_block (vw c)) = Some p \<and> st p = Some bi \<and> h = bi_nHeight bi + 1"
proof -
  obtain b where b: "GetBestBlock ops c = (b, c')" using assms(2) by (auto simp: GetSpendHeight_def bind_eq_Some_conv split: prod.splits)
  note r = cache_get_best_block [OF assms(1) b]
  show "keeps c c'" using r(1) by (simp add: keeps_def only_reads_def)
  show "\<exists>p bi. m (cv_best_block (vw c)) = Some p \<and> st p = Some bi \<and> h = bi_nHeight bi + 1"
    using assms(2) b r(2) by (auto simp: GetSpendHeight_def bind_eq_Some_conv)
qed

end

section \<open>What connecting a transaction ensures\<close>

text \<open>
  A transaction that is not a coinbase is connected only if the outputs it spends are unspent and mature, its
  nullifiers are new, and what goes out does not exceed what comes in. \<open>tx_fee\<close> is the difference.
\<close>

definition tx_fee :: "chain_view \<Rightarrow> CTransaction \<Rightarrow> CAmount" where
  "tx_fee v tx = value_of v (vin tx) + sum_vpub_new tx - (sum_out tx + sum_vpub_old tx)"

definition spends_ok :: "chain_view \<Rightarrow> int \<Rightarrow> CTransaction \<Rightarrow> bool" where
  "spends_ok v h tx \<longleftrightarrow>
     (\<forall>txin\<in>set (vin tx). output_in v (prevout txin) \<noteq> None \<and> mature_in v h (prevout txin)) \<and>
     (\<forall>nf\<in>set (tx_nullifiers tx). \<not> cv_nullifiers v nf) \<and> 0 \<le> tx_fee v tx"

text \<open>The checks that are left for later, or have been passed.\<close>

definition scripts_done :: "('pk, 'sig) node \<Rightarrow> bool \<Rightarrow> chain_view \<Rightarrow> CTransaction \<Rightarrow> CScriptCheck list \<Rightarrow> bool" where
  "scripts_done nd fExpensiveChecks v tx checks \<longleftrightarrow> (fExpensiveChecks \<longrightarrow>
     (\<forall>i<length (vin tx). script_passes nd (input_check v tx connect_flags i) \<or>
        (\<exists>x\<in>set checks. input_check v tx connect_flags i = Some x)))"

definition spend_result :: "('pk, 'sig) node \<Rightarrow> (uint256 \<Rightarrow> block_ptr option) \<Rightarrow> block_store \<Rightarrow> bool \<Rightarrow> chain_view \<Rightarrow>
  CTransaction \<Rightarrow> refusal + (u32 \<times> CAmount \<times> CScriptCheck list) \<Rightarrow> bool" where
  "spend_result nd m st fExp v tx r \<longleftrightarrow> (\<forall>n fee checks. r = Inr (n, fee, checks) \<longrightarrow>
     fee = tx_fee v tx \<and> scripts_done nd fExp v tx checks \<and>
     (\<exists>p bi. m (cv_best_block v) = Some p \<and> st p = Some bi \<and> spends_ok v (bi_nHeight bi + 1) tx))"

lemma bind_SomeE:
  assumes "x \<bind> f = Some y"
  obtains a where "x = Some a" "f a = Some y"
  using assms by (auto simp: bind_eq_Some_conv)

lemma GetValueOut_sum:
  assumes "GetValueOut tx = Some t"
  shows "t = sum_out tx + sum_vpub_old tx"
proof -
  have z: "MoneyRange 0" by (simp add: MoneyRange_def MAX_MONEY_def COIN_def)
  from assms obtain a where a: "sum_values 0 (map nValue (vout tx)) = Some a" "sum_values a (map vpub_old (vjoinsplit tx)) = Some t"
    by (auto simp: GetValueOut_def bind_eq_Some_conv)
  have o: "\<forall>v\<in>set (map nValue (vout tx)). 0 \<le> v" "a = sum_out tx" "a \<le> MAX_MONEY"
    using a(1) unfolding sum_values_iff [OF z] by (auto simp: sum_out_def)
  then have m: "MoneyRange a" by (auto simp: MoneyRange_iff sum_out_def intro!: sum_list_nonneg)
  from a(2) show ?thesis unfolding sum_values_iff [OF m] by (simp add: o(2) sum_vpub_old_def)
qed

lemma GetJoinSplitValueIn_sum: "GetJoinSplitValueIn tx = Some t \<Longrightarrow> t = sum_vpub_new tx"
proof -
  have z: "MoneyRange 0" by (simp add: MoneyRange_def MAX_MONEY_def COIN_def)
  show "GetJoinSplitValueIn tx = Some t \<Longrightarrow> t = sum_vpub_new tx"
    unfolding GetJoinSplitValueIn_def sum_values_iff [OF z] by (simp add: sum_vpub_new_def)
qed

context coins_view
begin

lemma ContextualCheckInputs_reads:
  assumes g: "gd c" and nc: "\<not> IsCoinBase tx" and av: "\<forall>txin\<in>set (vin tx). output_in (vw c) (prevout txin) \<noteq> None"
    and r: "ContextualCheckInputs nd m st ops c tx fScript flags deferred = Some (r, c')"
  shows "keeps c c'"
    and "r = Inr checks \<Longrightarrow> \<exists>p bi. m (cv_best_block (vw c)) = Some p \<and> st p = Some bi \<and>
      (\<forall>txin\<in>set (vin tx). mature_in (vw c) (bi_nHeight bi + 1) (prevout txin)) \<and> 0 \<le> tx_fee (vw c) tx"
    and "r = Inr checks \<Longrightarrow> fScript \<Longrightarrow> i < length (vin tx) \<Longrightarrow>
      script_passes nd (input_check (vw c) tx flags i) \<or> (\<exists>x\<in>set checks. input_check (vw c) tx flags i = Some x)"
proof -
  obtain h c1 where h: "GetSpendHeight m st ops c = Some (h, c1)"
    using r nc by (auto simp: ContextualCheckInputs_def bind_eq_Some_conv)
  note s = GetSpendHeight_reads [OF g h]
  have g1: "gd c1" "vw c1 = vw c" using s(1) by (simp_all add: keeps_def)
  obtain q c2 where q: "CheckTxInputs nd ops c1 tx h = Some (q, c2)"
    using r nc h by (auto simp: ContextualCheckInputs_def bind_eq_Some_conv)
  note t = CheckTxInputs_reads [OF g1(1) q nc]
  have g2: "gd c2" "vw c2 = vw c" using t(1) g1 by (simp_all add: keeps_def)
  show k: "keeps c c'"
  proof (cases q)
    case (Inl e)
    with r nc h q g2 show ?thesis by (auto simp: ContextualCheckInputs_def keeps_def)
  next
    case (Inr u)
    show ?thesis
    proof (cases fScript)
      case True
      then have "script_checks_loop nd ops c2 tx flags deferred [0..<length (vin tx)] = Some (r, c')"
        using r nc h q Inr by (simp add: ContextualCheckInputs_def)
      from script_checks_reads [OF g2(1) this] av g2 show ?thesis by (auto simp: keeps_def)
    next
      case False
      with r nc h q Inr g2 show ?thesis by (auto simp: ContextualCheckInputs_def keeps_def)
    qed
  qed
  show "\<exists>p bi. m (cv_best_block (vw c)) = Some p \<and> st p = Some bi \<and>
      (\<forall>txin\<in>set (vin tx). mature_in (vw c) (bi_nHeight bi + 1) (prevout txin)) \<and> 0 \<le> tx_fee (vw c) tx" if "r = Inr checks"
  proof -
    have "q = Inr ()" using r nc h q that by (cases q) (auto simp: ContextualCheckInputs_def)
    from t(2) [OF this] s(2) g1 show ?thesis
      by (auto simp: tx_fee_def dest!: GetValueOut_sum GetJoinSplitValueIn_sum)
  qed
  show "script_passes nd (input_check (vw c) tx flags i) \<or> (\<exists>x\<in>set checks. input_check (vw c) tx flags i = Some x)"
    if "r = Inr checks" "fScript" "i < length (vin tx)"
  proof -
    have "q = Inr ()" using r nc h q that(1) by (cases q) (auto simp: ContextualCheckInputs_def)
    then have "script_checks_loop nd ops c2 tx flags deferred [0..<length (vin tx)] = Some (r, c')"
      using r nc h q that by (simp add: ContextualCheckInputs_def)
    from script_checks_reads [OF g2(1) this] av g2 that(1)
    have d: "if deferred then map Some checks = map (input_check (vw c) tx flags) [0..<length (vin tx)]
       else checks = [] \<and> (\<forall>i\<in>set [0..<length (vin tx)]. script_passes nd (input_check (vw c) tx flags i))" by auto
    show ?thesis
    proof (cases deferred)
      case True
      with d have e: "map Some checks = map (input_check (vw c) tx flags) [0..<length (vin tx)]" by simp
      have "input_check (vw c) tx flags i \<in> set (map Some checks)" unfolding e using that(3) by simp
      then show ?thesis by auto
    next
      case False
      with d that(3) show ?thesis by simp
    qed
  qed
qed

lemma connect_values_reads:
  assumes g: "gd c" and nc: "\<not> IsCoinBase tx"
    and av: "\<forall>txin\<in>set (vin tx). output_in (vw c) (prevout txin) \<noteq> None"
    and nf: "\<forall>nf\<in>set (tx_nullifiers tx). \<not> cv_nullifiers (vw c) nf"
    and r: "do { (vi, c) \<leftarrow> GetValueIn ops c tx; vo \<leftarrow> GetValueOut tx;
        (q, c) \<leftarrow> ContextualCheckInputs nd m st ops c tx fExp connect_flags (nd_nScriptCheckThreads nd);
        case q of Inl e \<Rightarrow> Some (Inl e, c) | Inr vChecks \<Rightarrow> Some (Inr (k, vi - vo, vChecks), c) } = Some (r, c')"
  shows "keeps c c' \<and> spend_result nd m st fExp (vw c) tx r"
proof -
  from r obtain vi c4 vo q c5 where q: "GetValueIn ops c tx = Some (vi, c4)" "GetValueOut tx = Some vo"
    "ContextualCheckInputs nd m st ops c4 tx fExp connect_flags (nd_nScriptCheckThreads nd) = Some (q, c5)"
    "(case q of Inl e \<Rightarrow> Some (Inl e, c5) | Inr vChecks \<Rightarrow> Some (Inr (k, vi - vo, vChecks), c5)) = Some (r, c')"
    by (elim bind_SomeE) (auto elim!: bind_SomeE)
  note h4 = GetValueIn_reads [OF g q(1) nc]
  have g4: "gd c4" "vw c4 = vw c" using h4(1) by (simp_all add: keeps_def)
  note h5 = ContextualCheckInputs_reads [OF g4(1) nc _ q(3), unfolded g4(2), OF av]
  have k: "keeps c c5" using h5(1) g4 by (simp add: keeps_def)
  show ?thesis
  proof (cases q)
    case (Inl e)
    with q(4) k show ?thesis by (auto simp: spend_result_def)
  next
    case (Inr checks)
    have "vi - vo = tx_fee (vw c) tx"
      using h4(2) GetValueOut_sum [OF q(2)] GetJoinSplitValueIn_sum [of tx] by (auto simp: tx_fee_def)
    moreover have "scripts_done nd fExp (vw c) tx checks"
      using h5(3) [OF Inr] by (simp add: scripts_done_def)
    moreover have "\<exists>p bi. m (cv_best_block (vw c)) = Some p \<and> st p = Some bi \<and> spends_ok (vw c) (bi_nHeight bi + 1) tx"
      using h5(2) [OF Inr] av nf by (auto simp: spends_ok_def)
    ultimately show ?thesis using q(4) k Inr by (auto simp: spend_result_def)
  qed
qed

lemma connect_spend_reads:
  assumes g: "gd c" and nc: "\<not> IsCoinBase tx"
    and r: "connect_spend nd m st ops c fExp n tx = Some (r, c')"
  shows "keeps c c' \<and> spend_result nd m st fExp (vw c) tx r"
proof -
  obtain b c1 where b: "HaveInputs ops c tx = (b, c1)" by fastforce
  note h1 = HaveInputs_reads [OF g b]
  have g1: "gd c1" "vw c1 = vw c" using h1(1) by (simp_all add: keeps_def)
  show ?thesis
  proof (cases b)
    case False
    with r b h1(1) show ?thesis by (auto simp: connect_spend_def spend_result_def)
  next
    case bt: True
    then obtain j c2 where j: "HaveJoinSplitRequirements ops c1 tx = Some (j, c2)"
      using r b by (auto simp: connect_spend_def bind_eq_Some_conv)
    note h2 = HaveJoinSplitRequirements_reads [OF g1(1) j]
    have g2: "gd c2" "vw c2 = vw c" using h2(1) g1 by (simp_all add: keeps_def)
    show ?thesis
    proof (cases j)
      case False
      with r b bt j g2 show ?thesis by (auto simp: connect_spend_def keeps_def spend_result_def)
    next
      case jt: True
      then obtain k c3 where k: "GetP2SHSigOpCount ops c2 tx = Some (k, c3)"
        using r b bt j by (auto simp: connect_spend_def bind_eq_Some_conv)
      have g3: "gd c3" "vw c3 = vw c" using GetP2SHSigOpCount_reads [OF g2(1) k] g2 by (simp_all add: keeps_def)
      show ?thesis
      proof (cases "n + k > MAX_BLOCK_SIGOPS")
        case True
        with r b bt j jt k g3 show ?thesis by (auto simp: connect_spend_def keeps_def spend_result_def)
      next
        case False
        then show ?thesis
          using connect_values_reads [OF g3(1) nc, of nd m st fExp "n + k" r c'] r b bt j jt k h1(2) h2(2) g1 g3 nc
          by (simp add: connect_spend_def keeps_def)
      qed
    qed
  qed
qed

end

section \<open>Connecting the transactions of a block\<close>

text \<open>
  The transactions of a block take the state from \<open>v\<close> to \<open>v'\<close> with the given undo data and fees. Every transaction that is not
  a coinbase spends properly in the state it meets, and \<open>P\<close> holds of it there.
\<close>

inductive connects ::
  "(chain_view \<Rightarrow> CTransaction \<Rightarrow> bool) \<Rightarrow> int \<Rightarrow> chain_view \<Rightarrow> CTransaction list \<Rightarrow> CTxUndo list \<Rightarrow> CAmount \<Rightarrow> chain_view \<Rightarrow> bool"
  for P :: "chain_view \<Rightarrow> CTransaction \<Rightarrow> bool" and h :: int where
  connects_none: "connects P h v [] [] 0 v"
| connects_coinbase: "IsCoinBase tx \<Longrightarrow> av_update tx h v = Some (u, v1) \<Longrightarrow> connects P h v1 txs us fees v2 \<Longrightarrow>
    connects P h v (tx # txs) (u # us) fees v2"
| connects_spend: "\<not> IsCoinBase tx \<Longrightarrow> spends_ok v h tx \<Longrightarrow> P v tx \<Longrightarrow> av_update tx h v = Some (u, v1) \<Longrightarrow>
    connects P h v1 txs us fees v2 \<Longrightarrow> connects P h v (tx # txs) (u # us) (tx_fee v tx + fees) v2"

inductive_cases connects_NilE: "connects P h v [] us fees v'"
inductive_cases connects_ConsE: "connects P h v (tx # txs) us fees v'"

lemma connects_mono:
  "connects P h v txs us fees v' \<Longrightarrow> (\<And>v tx. P v tx \<Longrightarrow> Q v tx) \<Longrightarrow> connects Q h v txs us fees v'"
  by (induction rule: connects.induct) (auto intro: connects.intros)

lemma av_spends_frame:
  "av_spends ins v = Some (us, v') \<Longrightarrow> cv_best_block v' = cv_best_block v \<and> cv_best_anchor v' = cv_best_anchor v \<and>
    cv_anchors v' = cv_anchors v \<and> cv_nullifiers v' = cv_nullifiers v \<and> length us = length ins"
  by (induction ins arbitrary: v us) (auto simp: av_spend_def view_set_coins_def elim!: bind_SomeE)

lemma av_update_frame:
  "av_update tx h v = Some (u, v') \<Longrightarrow> cv_best_block v' = cv_best_block v \<and> cv_best_anchor v' = cv_best_anchor v \<and>
    cv_anchors v' = cv_anchors v"
  by (auto simp: av_update_def view_set_coins_def av_nullifiers_def elim!: bind_SomeE dest: av_spends_frame split: if_splits)

lemma scripts_done_mono:
  "scripts_done nd fExp v tx checks \<Longrightarrow> set checks \<subseteq> set checks' \<Longrightarrow> scripts_done nd fExp v tx checks'"
  by (auto simp: scripts_done_def)

definition height_of :: "(uint256 \<Rightarrow> block_ptr option) \<Rightarrow> block_store \<Rightarrow> chain_view \<Rightarrow> int \<Rightarrow> bool" where
  "height_of m st v h \<longleftrightarrow> (\<forall>p bi. m (cv_best_block v) = Some p \<longrightarrow> st p = Some bi \<longrightarrow> bi_nHeight bi + 1 = h)"

definition tx_commitments :: "CTransaction \<Rightarrow> uint256 list" where
  "tx_commitments tx = concat (map commitments (vjoinsplit tx))"

lemma ZCTree_appends_append:
  "ZCTree_appends t (xs @ ys) = ZCTree_appends t xs \<bind> (\<lambda>t. ZCTree_appends t ys)"
  by (induction xs arbitrary: t) auto

context coins_view
begin

lemma connect_tx_reads:
  assumes g: "gd c" and t: "storable_tx tx" "0 \<le> h" "h < 2 ^ 31" and hh: "height_of m st (vw c) h"
    and r: "connect_tx nd m st ops c fExp h first s tx = Some (Inr s', c')"
  obtains u fee checks where "gd c'" "av_update tx h (vw c) = Some (u, vw c')"
    "if IsCoinBase tx then fee = 0
     else fee = tx_fee (vw c) tx \<and> spends_ok (vw c) h tx \<and> scripts_done nd fExp (vw c) tx checks"
    "cn_nFees s' = cn_nFees s + fee" "cn_checks s' = cn_checks s @ checks"
    "cn_vtxundo s' = (if first then cn_vtxundo s else cn_vtxundo s @ [u])"
    "ZCTree_appends (cn_tree s) (tx_commitments tx) = Some (cn_tree s')"
proof -
  let ?n = "cn_nSigOps s + GetLegacySigOpCount tx"
  let ?spend = "if IsCoinBase tx then Some (Inr (?n, 0, []), c) else connect_spend nd m st ops c fExp ?n tx"
  obtain n fee checks c1 where sp: "?spend = Some (Inr (n, fee, checks), c1)"
    using r by (auto simp: connect_tx_def Let_def elim!: bind_SomeE split: if_splits sum.splits)
  then obtain u c2 tree where u: "UpdateCoins ops c1 tx h = Some (u, c2)"
      "ZCTree_appends (cn_tree s) (concat (map commitments (vjoinsplit tx))) = Some tree"
    and s': "c' = c2" "cn_nFees s' = cn_nFees s + fee" "cn_checks s' = cn_checks s @ checks" "cn_tree s' = tree"
      "cn_vtxundo s' = (if first then cn_vtxundo s else cn_vtxundo s @ [u])"
    using r by (auto simp: connect_tx_def Let_def elim!: bind_SomeE split: if_splits)
  have c1: "gd c1" "vw c1 = vw c" and ok: "if IsCoinBase tx then fee = 0
     else fee = tx_fee (vw c) tx \<and> spends_ok (vw c) h tx \<and> scripts_done nd fExp (vw c) tx checks"
    using sp g connect_spend_reads [OF g, of tx nd m st fExp ?n "Inr (n, fee, checks)" c1] hh
    by (auto simp: keeps_def spend_result_def height_of_def split: if_splits)
  have "av_update tx h (vw c) = Some (u, vw c2)" "gd c2"
    using UpdateCoins_refines [OF c1(1) t] u(1) c1(2) by (auto split: option.splits)
  with that ok s' u(2) show ?thesis by (simp add: tx_commitments_def)
qed

lemma connect_txs_reads:
  "gd c \<Longrightarrow> \<forall>tx\<in>set txs. storable_tx tx \<Longrightarrow> 0 \<le> h \<Longrightarrow> h < 2 ^ 31 \<Longrightarrow> height_of m st (vw c) h \<Longrightarrow>
    connect_txs nd m st ops c fExp h first s txs = Some (Inr s', c') \<Longrightarrow>
    \<exists>us fees. gd c' \<and> connects (\<lambda>v tx. scripts_done nd fExp v tx (cn_checks s')) h (vw c) txs us fees (vw c') \<and>
      cn_nFees s' = cn_nFees s + fees \<and> cn_vtxundo s' = cn_vtxundo s @ (if first then tl us else us) \<and>
      ZCTree_appends (cn_tree s) (concat (map tx_commitments txs)) = Some (cn_tree s') \<and>
      set (cn_checks s) \<subseteq> set (cn_checks s')"
proof (induction txs arbitrary: c s first)
  case Nil
  then show ?case by (auto intro: connects_none)
next
  case (Cons tx txs)
  obtain s1 c1 where r: "connect_tx nd m st ops c fExp h first s tx = Some (Inr s1, c1)"
    "connect_txs nd m st ops c1 fExp h False s1 txs = Some (Inr s', c')"
    using Cons.prems(6) by (auto elim!: bind_SomeE split: sum.splits)
  obtain u fee checks where u: "gd c1" "av_update tx h (vw c) = Some (u, vw c1)"
    "if IsCoinBase tx then fee = 0
     else fee = tx_fee (vw c) tx \<and> spends_ok (vw c) h tx \<and> scripts_done nd fExp (vw c) tx checks"
    "cn_nFees s1 = cn_nFees s + fee" "cn_checks s1 = cn_checks s @ checks"
    "cn_vtxundo s1 = (if first then cn_vtxundo s else cn_vtxundo s @ [u])"
    "ZCTree_appends (cn_tree s) (tx_commitments tx) = Some (cn_tree s1)"
    by (rule connect_tx_reads [OF Cons.prems(1) _ Cons.prems(3-5) r(1)]) (use Cons.prems(2) in auto)
  have h1: "height_of m st (vw c1) h" using Cons.prems(5) av_update_frame [OF u(2)] by (simp add: height_of_def)
  obtain us fees where i: "gd c'" "connects (\<lambda>v tx. scripts_done nd fExp v tx (cn_checks s')) h (vw c1) txs us fees (vw c')"
      "cn_nFees s' = cn_nFees s1 + fees" "cn_vtxundo s' = cn_vtxundo s1 @ us"
      "ZCTree_appends (cn_tree s1) (concat (map tx_commitments txs)) = Some (cn_tree s')" "set (cn_checks s1) \<subseteq> set (cn_checks s')"
    using Cons.IH [OF u(1) _ Cons.prems(3,4) h1 r(2)] Cons.prems(2) by auto
  have "set checks \<subseteq> set (cn_checks s')" using i(6) u(5) by auto
  then have "connects (\<lambda>v tx. scripts_done nd fExp v tx (cn_checks s')) h (vw c) (tx # txs) (u # us) (fee + fees) (vw c')"
    using u(2,3) i(2) by (auto intro: connects.intros scripts_done_mono split: if_splits)
  with i u show ?case by (intro exI [of _ "u # us"] exI [of _ "fee + fees"]) (auto simp: ZCTree_appends_append)
qed

end

section \<open>What the checks of a block ensure\<close>

lemma checked_tx:
  assumes "CheckTransaction sodium_verify js_verify tx = Inr ()" "valid_transaction tx"
  shows "storable_tx tx" "IsCoinBase tx \<Longrightarrow> vjoinsplit tx = []"
    "distinct (map prevout (vin tx))" "distinct (tx_nullifiers tx)"
proof -
  have w: "CheckTransactionWithoutProofVerification sodium_verify tx = Inr ()"
    using assms(1) by (auto simp: CheckTransaction_def split: sum.splits)
  then have v: "\<forall>txout\<in>set (vout tx). 0 \<le> nValue txout" "sum_out tx + sum_vpub_old tx \<le> MAX_MONEY"
      "\<forall>j\<in>set (vjoinsplit tx). 0 \<le> vpub_old j"
    and n: "1 \<le> nVersion tx" and j: "IsCoinBase tx \<longrightarrow> vjoinsplit tx = []"
    and d: "distinct (map prevout (vin tx))" "distinct (concat (map nullifiers (vjoinsplit tx)))"
    unfolding without_proofs_iff value_checks_iff by auto
  have "nValue o' \<le> sum_out tx" if "o' \<in> set (vout tx)" for o'
    using member_le_sum_list [of "nValue o'" "map nValue (vout tx)"] that v(1) by (fastforce simp: sum_out_def)
  moreover have "0 \<le> sum_vpub_old tx" using v(3) by (auto simp: sum_vpub_old_def intro!: sum_list_nonneg)
  ultimately have "\<forall>txout\<in>set (vout tx). MoneyRange (nValue txout)" using v by (fastforce simp: MoneyRange_iff)
  then show "storable_tx tx"
    using assms(2) n by (auto simp: storable_tx_def valid_transaction_def valid_vector_def int32_range_def)
  show "IsCoinBase tx \<Longrightarrow> vjoinsplit tx = []" using j by blast
  show "distinct (map prevout (vin tx))" "distinct (tx_nullifiers tx)" using d by (simp_all add: tx_nullifiers_def)
qed

lemma check_transactions_all:
  "check_transactions nd strict txs = Inr () \<Longrightarrow> tx \<in> set txs \<Longrightarrow>
    CheckTransaction (nd_sodium nd) (nd_js_verify nd strict) tx = Inr ()"
  by (induction txs) (auto split: sum.splits)

lemma CheckBlock_ensures:
  assumes "CheckBlock nd strict block fPOW fMerkle = Some (Inr ())"
  shows "check_transactions nd strict (vtx block) = Inr ()"
    and "\<exists>cb txs. vtx block = cb # txs \<and> IsCoinBase cb \<and> (\<forall>tx\<in>set txs. \<not> IsCoinBase tx)"
  using assms
  by (auto simp: CheckBlock_def Let_def list_ex_iff neq_Nil_conv elim!: bind_SomeE split: sum.splits prod.splits if_splits)

section \<open>No value out of nothing\<close>

text \<open>The value of all unspent outputs.\<close>

definition out_value :: "CTxOut \<Rightarrow> CAmount" where
  "out_value txout = (if CTxOut_IsNull txout then 0 else nValue txout)"

definition coins_value :: "CCoins \<Rightarrow> CAmount" where
  "coins_value x = sum_list (map out_value (cc_vout x))"

definition value_at :: "chain_view \<Rightarrow> uint256 \<Rightarrow> CAmount" where
  "value_at v k = (case cv_coins v k of None \<Rightarrow> 0 | Some x \<Rightarrow> coins_value x)"

definition total_value :: "chain_view \<Rightarrow> CAmount" where
  "total_value v = (\<Sum>k\<in>dom (cv_coins v). value_at v k)"

definition view_ok :: "chain_view \<Rightarrow> bool" where
  "view_ok v \<longleftrightarrow> finite (dom (cv_coins v)) \<and> (\<forall>k x. cv_coins v k = Some x \<longrightarrow> valid_coins x)"

lemma coins_value_trim: "coins_value (x\<lparr>cc_vout := trim_outs outs\<rparr>) = coins_value (x\<lparr>cc_vout := outs\<rparr>)"
proof -
  have "sum_list (map out_value (dropWhile CTxOut_IsNull os)) = sum_list (map out_value os)" for os
    by (induction os) (auto simp: out_value_def)
  from this [of "rev outs"] show ?thesis
    by (simp add: coins_value_def trim_outs_def flip: rev_map)
qed

lemma coins_value_pruned: "IsPruned x \<Longrightarrow> coins_value x = 0"
  unfolding coins_value_def IsPruned_def list_all_iff by (simp add: out_value_def cong: map_cong)

lemma coins_value_nonneg: "valid_coins x \<Longrightarrow> 0 \<le> coins_value x"
  unfolding coins_value_def valid_coins_def
  by (intro sum_list_nonneg) (auto simp: out_value_def valid_coin_out_def CTxOut_null_def CTxOut_IsNull_def)

lemma total_value_set:
  assumes "finite (dom (cv_coins v))"
  shows "total_value (view_set_coins k y v) = total_value v - value_at v k + coins_value y"
proof -
  let ?v = "view_set_coins k y v" and ?D = "dom (cv_coins v) - {k}"
  have sum: "total_value w = (\<Sum>j\<in>?D. value_at w j) + value_at w k"
    if "cv_coins w = (cv_coins v)(k := z)" for w z
  proof (cases z)
    case None
    then show ?thesis using that by (simp add: total_value_def value_at_def)
  next
    case (Some x)
    have "dom (cv_coins w) = insert k ?D" using that Some by auto
    then show ?thesis using assms sum.insert_remove [of "dom (cv_coins v)" "value_at w" k]
      by (simp add: total_value_def)
  qed
  have "(\<Sum>j\<in>?D. value_at ?v j) = (\<Sum>j\<in>?D. value_at v j)"
    by (intro sum.cong) (auto simp: value_at_def view_set_coins_def)
  moreover have "value_at ?v k = coins_value y"
    using coins_value_pruned [of "Cleanup y"] coins_value_trim [where x = y and outs = "cc_vout y"]
    by (auto simp: value_at_def view_set_coins_def unspent_def Cleanup_trim)
  ultimately show ?thesis
    using sum [of v "cv_coins v k"] sum [of ?v "unspent (Some (Cleanup y))"] by (simp add: view_set_coins_def)
qed

lemma view_ok_set: "view_ok v \<Longrightarrow> valid_coins (Cleanup y) \<Longrightarrow> view_ok (view_set_coins k y v)"
  by (auto simp: view_ok_def view_set_coins_def unspent_def split: if_splits)

lemma sum_list_update_int: "i < length xs \<Longrightarrow> sum_list (xs[i := y]) = sum_list xs - xs ! i + (y :: int)"
  by (induction xs arbitrary: i) (auto split: nat.split)


definition out_at :: "CTxOut list \<Rightarrow> nat \<Rightarrow> CTxOut option" where
  "out_at outs i = (if out_bit outs i then Some (outs ! i) else None)"

lemma out_at_trim [simp]: "out_at (trim_outs outs) i = out_at outs i"
proof -
  obtain zs where zs: "outs = trim_outs outs @ zs" by (rule trim_outs_prefix)
  have "outs ! i = trim_outs outs ! i" if "out_bit outs i"
  proof -
    have "out_bit (trim_outs outs) i" using that by simp
    then have "i < length (trim_outs outs)" unfolding out_bit_def by blast
    then show ?thesis using zs by (metis nth_append)
  qed
  then show ?thesis by (simp add: out_at_def)
qed

lemma out_at_null: "i < length outs \<Longrightarrow> out_at (outs[i := CTxOut_null]) j = (if j = i then None else out_at outs j)"
  by (auto simp: out_at_def out_bit_def CTxOut_null_def CTxOut_IsNull_def)

lemma output_in_out_at: "output_in v out = cv_coins v (out_hash out) \<bind> (\<lambda>x. out_at (cc_vout x) (unat (out_n out)))"
  by (cases "cv_coins v (out_hash out)") (auto simp: output_in_def out_at_def out_bit_def IsAvailable_def)

lemma output_in_set:
  "output_in (view_set_coins k y v) out = (if out_hash out = k then out_at (cc_vout y) (unat (out_n out)) else output_in v out)"
proof -
  have "IsPruned (Cleanup y) \<Longrightarrow> out_at (cc_vout y) i = None" for i
    using out_at_trim [of "cc_vout y" i, symmetric]
    by (auto simp: IsPruned_def Cleanup_trim out_at_def out_bit_def list_all_length)
  then show ?thesis by (auto simp: output_in_out_at view_set_coins_def unspent_def Cleanup_trim)
qed

lemma av_spend_spends:
  assumes "av_spend out v = Some (u, v1)"
  obtains txout where "output_in v out = Some txout" "undo_txout u = txout"
    "\<And>out'. output_in v1 out' = (if out' = out then None else output_in v out')"
    "finite (dom (cv_coins v)) \<Longrightarrow> total_value v1 = total_value v - nValue txout"
    "view_ok v \<Longrightarrow> view_ok v1"
proof -
  obtain x y where x: "cv_coins v (out_hash out) = Some x" "spend_output (out_n out) x = Some (u, y)"
    and v1: "v1 = view_set_coins (out_hash out) y v"
    using assms by (auto simp: av_spend_def elim!: bind_SomeE)
  let ?n = "unat (out_n out)" let ?o = "cc_vout x ! ?n"
  have n: "?n < length (cc_vout x)" "\<not> CTxOut_IsNull ?o"
    and y: "y = x\<lparr>cc_vout := trim_outs ((cc_vout x)[?n := CTxOut_null])\<rparr>" and u: "undo_txout u = ?o"
    using x(2) by (auto simp: spend_output_def Spend_def Cleanup_trim Let_def CTxInUndo_of_def split: if_splits)
  have out: "(out_hash out' = out_hash out \<and> unat (out_n out') = ?n) = (out' = out)" for out'
    by (cases out; cases out') (auto simp: word_unat_eq_iff)
  have "sum_list (map out_value ((cc_vout x)[?n := CTxOut_null])) = sum_list (map out_value (cc_vout x)) - nValue ?o"
    using n sum_list_update_int [of ?n "map out_value (cc_vout x)" 0]
    by (simp add: map_update out_value_def CTxOut_null_def CTxOut_IsNull_def)
  then have c: "coins_value y = coins_value x - nValue ?o" unfolding y coins_value_trim by (simp add: coins_value_def)
  show ?thesis
  proof (rule that)
    show "output_in v out = Some ?o" using n x(1) by (simp add: output_in_out_at out_at_def out_bit_def)
    show "undo_txout u = ?o" by (rule u)
    show "output_in v1 out' = (if out' = out then None else output_in v out')" for out'
      using out [of out'] x(1) n(1) unfolding v1 output_in_set y by (auto simp: out_at_null output_in_out_at)
    show "total_value v1 = total_value v - nValue ?o" if "finite (dom (cv_coins v))"
      unfolding v1 total_value_set [OF that] c by (simp add: value_at_def x(1))
    show "view_ok v1" if "view_ok v"
      unfolding v1 using that x Spend_valid(1,2) [OF _ x(2)] by (intro view_ok_set) (auto simp: view_ok_def)
  qed
qed

lemma av_spends_value:
  "av_spends ins v = Some (us, v') \<Longrightarrow> view_ok v \<Longrightarrow>
    view_ok v' \<and> total_value v' = total_value v - value_of v ins \<and> (\<forall>txin\<in>set ins. output_in v (prevout txin) \<noteq> None)"
proof (induction ins arbitrary: v us)
  case (Cons txin ins)
  obtain u v1 us1 where s: "av_spend (prevout txin) v = Some (u, v1)" "av_spends ins v1 = Some (us1, v')"
    using Cons.prems(1) by (auto elim!: bind_SomeE)
  obtain txout where t: "output_in v (prevout txin) = Some txout"
    "\<And>out'. output_in v1 out' = (if out' = prevout txin then None else output_in v out')"
    "total_value v1 = total_value v - nValue txout" "view_ok v1"
    by (rule av_spend_spends [OF s(1)]) (use Cons.prems(2) in \<open>auto simp: view_ok_def\<close>)
  note i = Cons.IH [OF s(2) t(4)]
  have "value_of v1 ins = value_of v ins"
    using i t(2) unfolding value_of_def by (intro arg_cong [where f = sum_list] map_cong) auto
  with i t show ?case by (auto simp: value_of_def split: if_splits)
qed (auto simp: value_of_def)

lemma FromTx_value:
  assumes "\<forall>txout\<in>set (vout tx). 0 \<le> nValue txout"
  shows "coins_value (FromTx tx h) \<le> sum_out tx"
proof -
  let ?f = "\<lambda>txout. if IsUnspendable (scriptPubKey txout) then CTxOut_null else txout"
  have "coins_value (FromTx tx h) = sum_list (map (out_value \<circ> ?f) (vout tx))"
    using coins_value_trim [where x = "FromTx tx h" and outs = "map ?f (vout tx)"]
    by (simp add: FromTx_def ClearUnspendable_def Cleanup_trim coins_value_def)
  also have "\<dots> \<le> sum_out tx"
    using assms unfolding sum_out_def by (intro sum_list_mono) (auto simp: out_value_def CTxOut_null_def CTxOut_IsNull_def)
  finally show ?thesis .
qed

lemma total_value_nullifiers [simp]: "total_value (av_nullifiers b nfs v) = total_value v" "view_ok (av_nullifiers b nfs v) = view_ok v"
  by (simp_all add: total_value_def value_at_def av_nullifiers_def view_ok_def)

lemma value_at_nonneg: "view_ok v \<Longrightarrow> 0 \<le> value_at v k"
  by (auto simp: value_at_def view_ok_def intro!: coins_value_nonneg split: option.splits)

lemma av_update_value:
  assumes "av_update tx h v = Some (u, v')" "view_ok v" "storable_tx tx" "0 \<le> h" "h < 2 ^ 31"
  shows "view_ok v'"
    and "total_value v' \<le> total_value v + sum_out tx - (if IsCoinBase tx then 0 else value_of v (vin tx))"
proof -
  obtain v1 where s: "if IsCoinBase tx then v1 = v else av_spends (vin tx) v = Some (u, v1)"
    and v': "v' = view_set_coins (tx_hash tx) (FromTx tx h) (av_nullifiers True (tx_nullifiers tx) v1)"
    using assms(1) by (auto simp: av_update_def elim!: bind_SomeE split: if_splits)
  have o: "view_ok v1" "total_value v1 = total_value v - (if IsCoinBase tx then 0 else value_of v (vin tx))"
    using s assms(2) av_spends_value [of "vin tx" v u v1] by (auto split: if_splits)
  then have o': "view_ok (av_nullifiers True (tx_nullifiers tx) v1)" by simp
  have f: "valid_coins (FromTx tx h)" by (rule FromTx_valid [OF assms(3-5)])
  show "view_ok v'" unfolding v' using o' f Cleanup_valid [OF f] by (intro view_ok_set) simp_all
  have fin: "finite (dom (cv_coins (av_nullifiers True (tx_nullifiers tx) v1)))" using o' by (simp add: view_ok_def)
  have "coins_value (FromTx tx h) \<le> sum_out tx"
    using assms(3) by (intro FromTx_value) (auto simp: storable_tx_def MoneyRange_iff)
  then show "total_value v' \<le> total_value v + sum_out tx - (if IsCoinBase tx then 0 else value_of v (vin tx))"
    unfolding v' total_value_set [OF fin] total_value_nullifiers o(2) using value_at_nonneg [OF o', of "tx_hash tx"] by linarith
qed

section \<open>The commitment tree stays well formed\<close>

lemma append_loop_shape:
  "length ps < n \<Longrightarrow> ps = [] \<or> last ps \<noteq> None \<Longrightarrow>
    append_loop cb n x ps \<noteq> [] \<and> last (append_loop cb n x ps) \<noteq> None \<and> length (append_loop cb n x ps) \<le> length ps + 1 \<and>
    (None \<in> set ps \<longrightarrow> length (append_loop cb n x ps) = length ps)"
  by (induction cb n x ps rule: append_loop.induct) (auto split: if_splits)

lemma append_loop_lengths:
  "\<forall>p\<in>set ps. valid_optional (\<lambda>v. length v = 32) p \<Longrightarrow> length x = 32 \<Longrightarrow>
    \<forall>p\<in>set (append_loop SHA256Compress_combine n x ps). valid_optional (\<lambda>v. length v = 32) p"
  by (induction SHA256Compress_combine n x ps rule: append_loop.induct)
    (auto simp: valid_optional_def length_SHA256Compress_combine)

lemma ZCTree_append_valid:
  assumes "valid_tree INCREMENTAL_MERKLE_TREE_DEPTH t" "length x = 32" "ZCTree_append t x = Some t'"
  shows "valid_tree INCREMENTAL_MERKLE_TREE_DEPTH t'"
proof (cases "tr_left t = None \<or> tr_right t = None")
  case True
  with assms show ?thesis
    by (auto simp: ZCTree_append_def tree_append_def valid_tree_def valid_optional_def wfcheck_def split: if_splits option.splits)
next
  case False
  then obtain l r where lr: "tr_left t = Some l" "tr_right t = Some r" by auto
  let ?D = "INCREMENTAL_MERKLE_TREE_DEPTH" and ?ps = "tr_parents t"
  let ?qs = "append_loop SHA256Compress_combine ?D (SHA256Compress_combine l r) ?ps"
  have t': "t' = \<lparr>tr_left = Some x, tr_right = None, tr_parents = ?qs\<rparr>" and nc: "\<not> is_complete t ?D"
    using assms(3) lr by (auto simp: ZCTree_append_def tree_append_def split: if_splits)
  have p: "length ?ps < ?D" "?ps = [] \<or> last ?ps \<noteq> None" "\<forall>p\<in>set ?ps. valid_optional (\<lambda>v. length v = 32) p"
    using assms(1) by (auto simp: valid_tree_def wfcheck_def valid_vector_def split: if_splits)
  note s = append_loop_shape [OF p(1,2), of SHA256Compress_combine "SHA256Compress_combine l r"]
  have "length ?ps = ?D - 1 \<longrightarrow> None \<in> set ?ps"
    using nc lr by (auto simp: is_complete_def list_all_iff INCREMENTAL_MERKLE_TREE_DEPTH_def)
  then have "length ?qs < ?D" using s p(1) by (auto simp: INCREMENTAL_MERKLE_TREE_DEPTH_def)
  moreover have "?D \<le> unat MAX_SIZE" by (simp add: INCREMENTAL_MERKLE_TREE_DEPTH_def MAX_SIZE_def)
  moreover have "\<forall>p\<in>set ?qs. valid_optional (\<lambda>v. length v = 32) p"
    by (rule append_loop_lengths [OF p(3) length_SHA256Compress_combine])
  ultimately show ?thesis
    using s assms(2) by (auto simp: t' valid_tree_def wfcheck_def valid_optional_def valid_vector_def)
qed

lemma ZCTree_appends_valid:
  "valid_tree INCREMENTAL_MERKLE_TREE_DEPTH t \<Longrightarrow> \<forall>x\<in>set xs. length x = 32 \<Longrightarrow> ZCTree_appends t xs = Some t' \<Longrightarrow>
    valid_tree INCREMENTAL_MERKLE_TREE_DEPTH t'"
  by (induction xs arbitrary: t) (auto elim!: bind_SomeE intro: ZCTree_append_valid)

lemma root_parents_length:
  "length r = 32 \<Longrightarrow> length (fst (snd (root_parents SHA256Compress_combine e d ps r q))) = 32"
  by (induction SHA256Compress_combine e d ps r q rule: root_parents.induct)
    (auto simp: length_SHA256Compress_combine split: prod.splits)

lemma root_fill_length: "length r = 32 \<Longrightarrow> length (root_fill SHA256Compress_combine e n d r q) = 32"
  by (induction SHA256Compress_combine e n d r q rule: root_fill.induct)
    (auto simp: length_SHA256Compress_combine split: prod.splits)

lemma ZCTree_root_length: "length (ZCTree_root t) = 32"
  unfolding ZCTree_root_def tree_root_def Let_def
  by (auto split: prod.splits intro!: root_fill_length)
    (metis fst_conv length_SHA256Compress_combine root_parents_length snd_conv)+

lemma tx_commitments_length:
  "valid_transaction tx \<Longrightarrow> x \<in> set (tx_commitments tx) \<Longrightarrow> length x = 32"
  by (auto simp: valid_transaction_def valid_vector_def valid_joinsplit_def valid_array_def tx_commitments_def)

section \<open>What connecting a block does\<close>

definition scripts_verified :: "('pk, 'sig) node \<Rightarrow> bool \<Rightarrow> chain_view \<Rightarrow> CTransaction \<Rightarrow> bool" where
  "scripts_verified nd fExpensiveChecks v tx \<longleftrightarrow>
     (fExpensiveChecks \<longrightarrow> (\<forall>i<length (vin tx). script_passes nd (input_check v tx connect_flags i)))"

definition view_push :: "uint256 \<Rightarrow> chain_view \<Rightarrow> chain_view" where
  "view_push rt v = (if cv_best_anchor v = rt then v
     else v\<lparr>cv_anchors := (cv_anchors v)(rt := True), cv_best_anchor := rt\<rparr>)"

lemma run_checks_all:
  "run_checks nd checks = Some True \<Longrightarrow> x \<in> set checks \<Longrightarrow> \<exists>e. CScriptCheck_run nd x = Some (True, e)"
  by (induction checks) (auto elim!: bind_SomeE)

lemma scripts_done_verified:
  "scripts_done nd fExp v tx checks \<Longrightarrow> run_checks nd checks = Some True \<Longrightarrow> scripts_verified nd fExp v tx"
  unfolding scripts_done_def scripts_verified_def script_passes_def using run_checks_all by metis

lemma height_of_update_index:
  assumes "\<And>bi. bi_nHeight (f bi) = bi_nHeight bi"
  shows "height_of m (cs_blocks (update_index p f cs)) v h = height_of m (cs_blocks cs) v h"
  using assms by (auto simp: height_of_def update_index_def)

lemma connect_finish_result:
  assumes "connect_finish nd cs ops c block p pindex oldRoot fJustCheck s = Some (Inr (), cs', c')"
  obtains vo cs1 where "vtx block \<noteq> []" "GetValueOut (vtx block ! 0) = Some vo"
    "vo \<le> cn_nFees s + GetBlockSubsidy (bi_nHeight pindex) (nd_params nd)" "run_checks nd (cn_checks s) = Some True"
    "c' = (if fJustCheck then PushAnchor ops c (cn_tree s) else SetBestBlock (PushAnchor ops c (cn_tree s)) (bi_hashBlock pindex))"
    "if fJustCheck then cs' = cs
     else write_undo nd (update_index p (\<lambda>bi. bi\<lparr>bi_hashAnchorEnd := ZCTree_root (cn_tree s)\<rparr>) cs) p
         \<lparr>vtxundo = cn_vtxundo s, old_tree_root = oldRoot\<rparr> = Some cs1 \<and> cs' = (if nd_fTxIndex nd then WriteTxIndex cs1 (cn_vPos s) else cs1)"
  using assms by (auto simp: connect_finish_def Let_def elim!: bind_SomeE split: if_splits)

context coins_view
begin

lemma overwrites_reads:
  "gd c \<Longrightarrow> overwrites ops c txs = (b, c') \<Longrightarrow>
    keeps c c' \<and> (b \<longleftrightarrow> (\<exists>tx\<in>set txs. cv_coins (vw c) (tx_hash tx) \<noteq> None))"
proof (induction txs arbitrary: c)
  case (Cons tx txs)
  obtain r c1 where r: "AccessCoins ops c (tx_hash tx) = (r, c1)" by fastforce
  note a = AccessCoins_reads [OF Cons.prems(1) r]
  have g1: "gd c1" "vw c1 = vw c" using a(1) by (simp_all add: keeps_def)
  show ?case
    using Cons.IH [OF g1(1)] Cons.prems(2) r a(1) a(2) [symmetric] g1
    by (cases r) (auto simp: keeps_def unspent_def split: if_splits)
qed simp

lemma PushAnchor_frame:
  assumes g: "gd c" and t: "valid_tree INCREMENTAL_MERKLE_TREE_DEPTH t"
  shows "gd (PushAnchor ops c t)"
    and "\<not> IsNull (ZCTree_root t) \<or> ZCTree_root t = cv_best_anchor (vw c) \<Longrightarrow>
      vw (PushAnchor ops c t) = view_push (ZCTree_root t) (vw c)"
    and "cv_coins (vw (PushAnchor ops c t)) = cv_coins (vw c)" "cv_nullifiers (vw (PushAnchor ops c t)) = cv_nullifiers (vw c)"
      "cv_best_block (vw (PushAnchor ops c t)) = cv_best_block (vw c)"
proof -
  let ?rt = "ZCTree_root t"
  obtain a c1 where h: "GetBestAnchor ops c = (a, c1)" by fastforce
  note b = cache_get_best_anchor [OF g h]
  let ?e = "\<lparr>ae_entered = True, ae_tree = t, ae_dirty = True\<rparr>"
  have c1: "gd c1" "vw c1 = vw c" using b(1) by (simp_all add: only_reads_def)
  have e: "anchor_ok (view (base c1)) ?rt ?e" using t by (simp add: anchor_ok_def tree_at_def)
  note p = cache_put_anchor [OF c1(1) e] and q = cache_put_best_anchor [OF cache_put_anchor(1) [OF c1(1) e] ZCTree_root_length]
  show "gd (PushAnchor ops c t)" using q(1) [of t] c1(1) h by (simp add: PushAnchor_def Let_def)
  show "\<not> IsNull ?rt \<or> ?rt = cv_best_anchor (vw c) \<Longrightarrow> vw (PushAnchor ops c t) = view_push ?rt (vw c)"
    using p(2) q(2) [of t] c1 h b(2) by (auto simp: PushAnchor_def view_push_def Let_def)
  show "cv_coins (vw (PushAnchor ops c t)) = cv_coins (vw c)" "cv_nullifiers (vw (PushAnchor ops c t)) = cv_nullifiers (vw c)"
      "cv_best_block (vw (PushAnchor ops c t)) = cv_best_block (vw c)"
    using p(2) q(2) [of t] c1 h by (auto simp: PushAnchor_def Let_def)
qed

lemma connect_body_reads:
  assumes g: "gd c" and t: "\<forall>tx\<in>set (vtx block). storable_tx tx \<and> valid_transaction tx"
    and h: "h = bi_nHeight pindex" "0 \<le> h" "h < 2 ^ 31" "height_of (cs_mapBlockIndex cs) (cs_blocks cs) (vw c) h"
    and r: "connect_body nd cs ops c block p pindex fExp fJustCheck = Some (Inr (), cs', c')"
  obtains us fees c1 tree0 tree cs1 vPos where "gd c1" "connects (scripts_verified nd fExp) h (vw c) (vtx block) us fees (vw c1)"
    "\<forall>tx\<in>set (vtx block). cv_coins (vw c) (tx_hash tx) = None"
    "vtx block \<noteq> []" "sum_out (vtx block ! 0) + sum_vpub_old (vtx block ! 0) \<le> fees + GetBlockSubsidy h (nd_params nd)"
    "tree_at (cv_best_anchor (vw c)) tree0" "ZCTree_appends tree0 (concat (map tx_commitments (vtx block))) = Some tree"
    "c' = (if fJustCheck then PushAnchor ops c1 tree else SetBestBlock (PushAnchor ops c1 tree) (bi_hashBlock pindex))"
    "if fJustCheck then cs' = cs
     else write_undo nd (update_index p (\<lambda>bi. bi\<lparr>bi_hashAnchorEnd := ZCTree_root tree\<rparr>)
         (update_index p (\<lambda>bi. bi\<lparr>bi_hashAnchor := cv_best_anchor (vw c)\<rparr>) cs)) p
         \<lparr>vtxundo = tl us, old_tree_root = cv_best_anchor (vw c)\<rparr> = Some cs1 \<and>
       cs' = (if nd_fTxIndex nd then WriteTxIndex cs1 vPos else cs1)"
proof -
  obtain over c0 where o: "overwrites ops c (vtx block) = (over, c0)" by fastforce
  obtain a c2 where a: "GetBestAnchor ops c0 = (a, c2)" by fastforce
  obtain tr c3 where tr: "GetAnchorAt ops c2 a = (tr, c3)" by fastforce
  let ?cs0 = "if fJustCheck then cs else update_index p (\<lambda>bi. bi\<lparr>bi_hashAnchor := a\<rparr>) cs"
  obtain tree0 where t0: "tr = Some tree0" using r o a tr by (auto simp: connect_body_def Let_def elim!: bind_SomeE split: if_splits)
  obtain s0 s c4 where s: "connect_txs nd (cs_mapBlockIndex ?cs0) (cs_blocks ?cs0) ops c3 fExp (bi_nHeight pindex) True s0 (vtx block) = Some (Inr s, c4)"
    "cn_nFees s0 = 0" "cn_vtxundo s0 = []" "cn_tree s0 = tree0" and ov: "\<not> over"
    and f: "connect_finish nd ?cs0 ops c4 block p pindex a fJustCheck s = Some (Inr (), cs', c')"
    using r o a tr t0 by (auto simp: connect_body_def Let_def elim!: bind_SomeE split: if_splits sum.splits)
  obtain vo cs1 where vo: "vtx block \<noteq> []" "GetValueOut (vtx block ! 0) = Some vo"
      "vo \<le> cn_nFees s + GetBlockSubsidy (bi_nHeight pindex) (nd_params nd)" and rc: "run_checks nd (cn_checks s) = Some True"
    and c': "c' = (if fJustCheck then PushAnchor ops c4 (cn_tree s) else SetBestBlock (PushAnchor ops c4 (cn_tree s)) (bi_hashBlock pindex))"
    and cs': "if fJustCheck then cs' = ?cs0
     else write_undo nd (update_index p (\<lambda>bi. bi\<lparr>bi_hashAnchorEnd := ZCTree_root (cn_tree s)\<rparr>) ?cs0) p
         \<lparr>vtxundo = cn_vtxundo s, old_tree_root = a\<rparr> = Some cs1 \<and> cs' = (if nd_fTxIndex nd then WriteTxIndex cs1 (cn_vPos s) else cs1)"
    by (rule connect_finish_result [OF f])
  note ow = overwrites_reads [OF g o]
  have g0: "gd c0" "vw c0 = vw c" using ow by (simp_all add: keeps_def)
  note ba = cache_get_best_anchor [OF g0(1) a]
  have g2: "gd c2" "vw c2 = vw c" using ba(1) g0 by (simp_all add: only_reads_def)
  note ga = cache_get_anchor [OF g2(1) tr]
  have g3: "gd c3" "vw c3 = vw c" using ga(1) g2 by (simp_all add: only_reads_def)
  have av: "a = cv_best_anchor (vw c)" using ba(2) g0 by simp
  have h3: "height_of (cs_mapBlockIndex ?cs0) (cs_blocks ?cs0) (vw c3) h"
    using h(4) g3(2) height_of_update_index [of "\<lambda>bi. bi\<lparr>bi_hashAnchor := a\<rparr>"] by (simp add: update_index_def)
  obtain us fees where n: "gd c4" "connects (\<lambda>v tx. scripts_done nd fExp v tx (cn_checks s)) h (vw c) (vtx block) us fees (vw c4)"
    "cn_nFees s = fees" "cn_vtxundo s = tl us" "ZCTree_appends tree0 (concat (map tx_commitments (vtx block))) = Some (cn_tree s)"
    using connect_txs_reads [OF g3(1) _ h(2,3) h3 s(1) [folded h(1)]] t s(2-4) g3(2) by auto
  show ?thesis
  proof (rule that)
    show "connects (scripts_verified nd fExp) h (vw c) (vtx block) us fees (vw c4)"
      using n(2) by (rule connects_mono) (rule scripts_done_verified [OF _ rc])
    show "sum_out (vtx block ! 0) + sum_vpub_old (vtx block ! 0) \<le> fees + GetBlockSubsidy h (nd_params nd)"
      using vo(3) GetValueOut_sum [OF vo(2)] n(3) h(1) by simp
    show "tree_at (cv_best_anchor (vw c)) tree0" using ga(3) [of tree0] t0 av by simp
    show "ZCTree_appends tree0 (concat (map tx_commitments (vtx block))) = Some (cn_tree s)" by (rule n(5))
    show "c' = (if fJustCheck then PushAnchor ops c4 (cn_tree s) else SetBestBlock (PushAnchor ops c4 (cn_tree s)) (bi_hashBlock pindex))"
      by (rule c')
    show "if fJustCheck then cs' = cs
     else write_undo nd (update_index p (\<lambda>bi. bi\<lparr>bi_hashAnchorEnd := ZCTree_root (cn_tree s)\<rparr>)
         (update_index p (\<lambda>bi. bi\<lparr>bi_hashAnchor := cv_best_anchor (vw c)\<rparr>) cs)) p
         \<lparr>vtxundo = tl us, old_tree_root = cv_best_anchor (vw c)\<rparr> = Some cs1 \<and>
       cs' = (if nd_fTxIndex nd then WriteTxIndex cs1 (cn_vPos s) else cs1)"
      using cs' n(4) av by (simp split: if_splits)
  qed (use n(1) ow ov vo(1) in auto)
qed

end

section \<open>A connected block\<close>

text \<open>The entry of a block in the index, with the entry of its predecessor.\<close>

definition index_linked :: "chainstate \<Rightarrow> block_ptr \<Rightarrow> CBlockIndex \<Rightarrow> CBlockIndex \<Rightarrow> bool" where
  "index_linked cs p pindex prev \<longleftrightarrow>
     (\<exists>pp. cs_blocks cs p = Some pindex \<and> bi_pprev pindex = Some pp \<and> pp \<noteq> p \<and> cs_blocks cs pp = Some prev \<and>
       cs_mapBlockIndex cs (bi_hashBlock prev) = Some pp \<and> bi_nHeight pindex = bi_nHeight prev + 1 \<and>
       0 \<le> bi_nHeight prev \<and> bi_nHeight pindex < 2 ^ 31 \<and>
       length (bi_hashBlock pindex) = 32 \<and> \<not> IsNull (bi_hashBlock pindex))"

text \<open>What a block moves out of the private pool, and what its transactions create.\<close>

definition unshielded :: "CBlock \<Rightarrow> CAmount" where
  "unshielded block = sum_list (map (\<lambda>tx. sum_vpub_new tx - sum_vpub_old tx) (vtx block))"

definition tx_created :: "CTransaction \<Rightarrow> CAmount" where
  "tx_created tx = (if IsCoinBase tx then sum_out tx else sum_vpub_new tx - sum_vpub_old tx)"

lemma connects_value:
  "connects P h v txs us fees v' \<Longrightarrow> view_ok v \<Longrightarrow> \<forall>tx\<in>set txs. storable_tx tx \<Longrightarrow> 0 \<le> h \<Longrightarrow> h < 2 ^ 31 \<Longrightarrow>
    view_ok v' \<and> total_value v' \<le> total_value v + sum_list (map tx_created txs) - fees"
proof (induction rule: connects.induct)
  case (connects_coinbase tx v u v1 txs us fees v2)
  note a = av_update_value [OF connects_coinbase(2,5) _ connects_coinbase(7,8)]
  from connects_coinbase a show ?case by (auto simp: tx_created_def)
next
  case (connects_spend tx v u v1 txs us fees v2)
  note a = av_update_value [OF connects_spend(4,7) _ connects_spend(9,10)]
  from connects_spend a show ?case by (auto simp: tx_created_def tx_fee_def)
qed simp

context coins_view
begin

lemma cache_view_ok: "gd c \<Longrightarrow> finite (dom (cv_coins (vw c))) \<Longrightarrow> view_ok (vw c)"
proof -
  assume g: "gd c" and f: "finite (dom (cv_coins (vw c)))"
  have "valid_coins x" if x: "cv_coins (vw c) k = Some x" for k x
  proof -
    obtain r c' where r: "AccessCoins ops c k = (r, c')" by fastforce
    from AccessCoins_reads [OF g r] x have "r = Some x" by (cases r) (auto simp: unspent_def split: if_splits)
    with AccessCoins_reads(3) [OF g r] show ?thesis by blast
  qed
  with f show ?thesis by (auto simp: view_ok_def)
qed

lemma ConnectBlock_steps:
  assumes g: "gd c" and i: "index_linked cs p pindex prev" and t: "\<forall>tx\<in>set (vtx block). valid_transaction tx"
    and ng: "CBlockHeader_GetHash block \<noteq> par_hashGenesisBlock (nd_params nd)"
    and r: "ConnectBlock nd cs ops block p c fJustCheck = Some (Inr (), cs', c')"
  obtains fExp c0 where "expensive_checks nd cs p pindex = Some fExp" "gd c0" "vw c0 = vw c"
    "CheckBlock nd fExp block (\<not> fJustCheck) (\<not> fJustCheck) = Some (Inr ())" "cv_best_block (vw c) = bi_hashBlock prev"
    "height_of (cs_mapBlockIndex cs) (cs_blocks cs) (vw c) (bi_nHeight pindex)"
    "connect_body nd cs ops c0 block p pindex fExp fJustCheck = Some (Inr (), cs', c')"
    "\<forall>tx\<in>set (vtx block). storable_tx tx \<and> valid_transaction tx"
    "\<exists>cb txs. vtx block = cb # txs \<and> IsCoinBase cb \<and> vjoinsplit cb = [] \<and> (\<forall>tx\<in>set txs. \<not> IsCoinBase tx)"
proof -
  obtain b c0 where b: "GetBestBlock ops c = (b, c0)" by fastforce
  note gb = cache_get_best_block [OF g b]
  have g0: "gd c0" "vw c0 = vw c" using gb(1) by (simp_all add: only_reads_def)
  obtain fExp where f: "expensive_checks nd cs p pindex = Some fExp"
    "CheckBlock nd fExp block (\<not> fJustCheck) (\<not> fJustCheck) = Some (Inr ())" "bi_hashBlock prev = b"
    "connect_body nd cs ops c0 block p pindex fExp fJustCheck = Some (Inr (), cs', c')"
    using r i b ng by (auto simp: ConnectBlock_def index_linked_def elim!: bind_SomeE split: sum.splits if_splits)
  have "height_of (cs_mapBlockIndex cs) (cs_blocks cs) (vw c) (bi_nHeight pindex)"
    using i f(3) gb(2) by (auto simp: height_of_def index_linked_def)
  moreover have s: "storable_tx tx \<and> valid_transaction tx \<and> (IsCoinBase tx \<longrightarrow> vjoinsplit tx = [])" if "tx \<in> set (vtx block)" for tx
    using checked_tx [OF check_transactions_all [OF CheckBlock_ensures(1) [OF f(2)] that]] t that by blast
  moreover obtain cb txs where "vtx block = cb # txs" "IsCoinBase cb" "\<forall>tx\<in>set txs. \<not> IsCoinBase tx"
    using CheckBlock_ensures(2) [OF f(2)] by blast
  ultimately show ?thesis using that [OF f(1) g0 f(2) _ _ f(4)] f(3) gb(2) by auto
qed

lemma ConnectBlock_reads:
  assumes g: "gd c" and i: "index_linked cs p pindex prev" and t: "\<forall>tx\<in>set (vtx block). valid_transaction tx"
    and ng: "CBlockHeader_GetHash block \<noteq> par_hashGenesisBlock (nd_params nd)"
    and r: "ConnectBlock nd cs ops block p c fJustCheck = Some (Inr (), cs', c')"
  obtains fExp us fees v1 cb txs where "expensive_checks nd cs p pindex = Some fExp" "gd c'"
    "connects (scripts_verified nd fExp) (bi_nHeight pindex) (vw c) (vtx block) us fees v1"
    "vtx block = cb # txs" "IsCoinBase cb" "vjoinsplit cb = []" "\<forall>tx\<in>set txs. \<not> IsCoinBase tx"
    "sum_out cb \<le> fees + GetBlockSubsidy (bi_nHeight pindex) (nd_params nd)"
    "\<forall>tx\<in>set (vtx block). cv_coins (vw c) (tx_hash tx) = None" "\<forall>tx\<in>set (vtx block). storable_tx tx"
    "cv_coins (vw c') = cv_coins v1" "cv_nullifiers (vw c') = cv_nullifiers v1"
    "\<not> fJustCheck \<Longrightarrow> cv_best_block (vw c') = bi_hashBlock pindex"
proof -
  let ?h = "bi_nHeight pindex"
  obtain fExp c0 where s: "expensive_checks nd cs p pindex = Some fExp" "gd c0" "vw c0 = vw c"
    "CheckBlock nd fExp block (\<not> fJustCheck) (\<not> fJustCheck) = Some (Inr ())" "cv_best_block (vw c) = bi_hashBlock prev"
    "height_of (cs_mapBlockIndex cs) (cs_blocks cs) (vw c) ?h"
    "connect_body nd cs ops c0 block p pindex fExp fJustCheck = Some (Inr (), cs', c')"
    "\<forall>tx\<in>set (vtx block). storable_tx tx \<and> valid_transaction tx"
    "\<exists>cb txs. vtx block = cb # txs \<and> IsCoinBase cb \<and> vjoinsplit cb = [] \<and> (\<forall>tx\<in>set txs. \<not> IsCoinBase tx)"
    by (rule ConnectBlock_steps [OF g i t ng r])
  have h: "0 \<le> ?h" "?h < 2 ^ 31" and l: "length (bi_hashBlock pindex) = 32" "\<not> IsNull (bi_hashBlock pindex)"
    using i by (auto simp: index_linked_def)
  obtain us fees c1 tree0 tree where b: "gd c1" "connects (scripts_verified nd fExp) ?h (vw c) (vtx block) us fees (vw c1)"
    "\<forall>tx\<in>set (vtx block). cv_coins (vw c) (tx_hash tx) = None"
    "sum_out (vtx block ! 0) + sum_vpub_old (vtx block ! 0) \<le> fees + GetBlockSubsidy ?h (nd_params nd)"
    "tree_at (cv_best_anchor (vw c)) tree0" "ZCTree_appends tree0 (concat (map tx_commitments (vtx block))) = Some tree"
    "c' = (if fJustCheck then PushAnchor ops c1 tree else SetBestBlock (PushAnchor ops c1 tree) (bi_hashBlock pindex))"
    by (rule connect_body_reads [OF s(2) s(8) refl h _ s(7)]) (use s(3,6) in auto)
  have "valid_tree INCREMENTAL_MERKLE_TREE_DEPTH tree"
    by (rule ZCTree_appends_valid [OF _ _ b(6)]) (use b(5) t tx_commitments_length in \<open>auto simp: tree_at_def\<close>)
  note p = PushAnchor_frame [OF b(1) this]
  note q = SetBestBlock_sets [OF p(1) l]
  obtain cb txs where cb: "vtx block = cb # txs" "IsCoinBase cb" "vjoinsplit cb = []" "\<forall>tx\<in>set txs. \<not> IsCoinBase tx"
    using s(9) by blast
  show ?thesis
    by (rule that [OF s(1) _ b(2) cb _ b(3)]) (use b(4,7) s(8) cb p q in \<open>auto simp: sum_vpub_old_def\<close>)
qed

lemma ConnectBlock_value:
  assumes g: "gd c" and i: "index_linked cs p pindex prev" and t: "\<forall>tx\<in>set (vtx block). valid_transaction tx"
    and ng: "CBlockHeader_GetHash block \<noteq> par_hashGenesisBlock (nd_params nd)"
    and r: "ConnectBlock nd cs ops block p c fJustCheck = Some (Inr (), cs', c')" and f: "finite (dom (cv_coins (vw c)))"
  shows "finite (dom (cv_coins (vw c')))"
    and "total_value (vw c') \<le> total_value (vw c) + GetBlockSubsidy (bi_nHeight pindex) (nd_params nd) + unshielded block"
proof -
  have h: "0 \<le> bi_nHeight pindex" "bi_nHeight pindex < 2 ^ 31" using i by (auto simp: index_linked_def)
  obtain fExp us fees v1 cb txs where b: "connects (scripts_verified nd fExp) (bi_nHeight pindex) (vw c) (vtx block) us fees v1"
    "vtx block = cb # txs" "IsCoinBase cb" "vjoinsplit cb = []" "\<forall>tx\<in>set txs. \<not> IsCoinBase tx"
    "sum_out cb \<le> fees + GetBlockSubsidy (bi_nHeight pindex) (nd_params nd)" "\<forall>tx\<in>set (vtx block). storable_tx tx"
    "cv_coins (vw c') = cv_coins v1"
    by (rule ConnectBlock_reads [OF g i t ng r]) (rule that)
  note v = connects_value [OF b(1) cache_view_ok [OF g f] b(7) h]
  have "sum_list (map tx_created txs) = sum_list (map (\<lambda>tx. sum_vpub_new tx - sum_vpub_old tx) txs)"
    using b(5) by (intro arg_cong [where f = sum_list] map_cong) (auto simp: tx_created_def)
  then have "sum_list (map tx_created (vtx block)) = sum_out cb + unshielded block"
    using b(2-4) by (simp add: unshielded_def tx_created_def sum_vpub_new_def sum_vpub_old_def)
  moreover have "total_value (vw c') = total_value v1" using b(8) by (simp add: total_value_def value_at_def)
  ultimately show "total_value (vw c') \<le> total_value (vw c) + GetBlockSubsidy (bi_nHeight pindex) (nd_params nd) + unshielded block"
    using v b(6) by linarith
  show "finite (dom (cv_coins (vw c')))" using v b(8) by (simp add: view_ok_def)
qed

end

section \<open>A block with only a coinbase\<close>

lemma write_undo_succeeds:
  assumes "cs_blocks cs p = Some bi" "bi_pprev bi = Some pp" "cs_blocks cs pp = Some prev"
  shows "write_undo nd cs p u \<noteq> None"
proof -
  have ok: "BLOCK_VALID_SCRIPTS AND NOT BLOCK_VALID_MASK = 0" by (simp add: BLOCK_VALID_MASK_def BLOCK_VALID_HEADER_def BLOCK_VALID_TREE_def BLOCK_VALID_TRANSACTIONS_def
      BLOCK_VALID_CHAIN_def BLOCK_VALID_SCRIPTS_def)
  show ?thesis
    using assms
    by (simp add: write_undo_def IsValid_def RaiseValidity_def ok FindUndoPos_def UndoWriteToDisk_def update_index_def Let_def)
qed

lemma CheckBlock_sigops:
  "CheckBlock nd strict block fPOW fMerkle = Some (Inr ()) \<Longrightarrow>
    foldl (\<lambda>n tx. n + GetLegacySigOpCount tx) 0 (vtx block) \<le> MAX_BLOCK_SIGOPS"
  by (auto simp: CheckBlock_def Let_def not_less elim!: bind_SomeE split: sum.splits prod.splits if_splits)

lemma checked_value_out:
  assumes "CheckTransaction sodium_verify js_verify tx = Inr ()"
  shows "GetValueOut tx = Some (sum_out tx + sum_vpub_old tx)"
proof -
  have z: "MoneyRange 0" by (simp add: MoneyRange_def MAX_MONEY_def COIN_def)
  have "CheckTransactionWithoutProofVerification sodium_verify tx = Inr ()"
    using assms by (auto simp: CheckTransaction_def split: sum.splits)
  then have v: "\<forall>txout\<in>set (vout tx). 0 \<le> nValue txout" "sum_out tx + sum_vpub_old tx \<le> MAX_MONEY"
      "\<forall>j\<in>set (vjoinsplit tx). 0 \<le> vpub_old j"
    unfolding without_proofs_iff value_checks_iff by auto
  then have n: "0 \<le> sum_out tx" "0 \<le> sum_vpub_old tx"
    by (auto simp: sum_out_def sum_vpub_old_def intro!: sum_list_nonneg)
  then have m: "MoneyRange (sum_out tx)" using v by (simp add: MoneyRange_iff)
  have "sum_values 0 (map nValue (vout tx)) = Some (sum_out tx)"
    using v n unfolding sum_values_iff [OF z] by (auto simp: sum_out_def)
  moreover have "sum_values (sum_out tx) (map vpub_old (vjoinsplit tx)) = Some (sum_out tx + sum_vpub_old tx)"
    using v unfolding sum_values_iff [OF m] by (auto simp: sum_vpub_old_def)
  ultimately show ?thesis by (simp add: GetValueOut_def)
qed

context coins_view
begin

lemma connect_coinbase:
  assumes g: "gd c" and cb: "IsCoinBase cb" "vjoinsplit cb = []" "storable_tx cb" and h: "0 \<le> h" "h < 2 ^ 31"
    and n: "GetLegacySigOpCount cb \<le> MAX_BLOCK_SIGOPS" and s: "cn_nSigOps s = 0"
  shows "\<exists>s' c'. connect_txs nd m st ops c fExp h True s [cb] = Some (Inr s', c') \<and> cn_nFees s' = cn_nFees s \<and> cn_checks s' = cn_checks s"
proof -
  have "av_update cb h (vw c) \<noteq> None" using cb(1) by (simp add: av_update_def)
  then obtain us v where "av_update cb h (vw c) = Some (us, v)" by auto
  with UpdateCoins_refines [OF g cb(3) h] obtain c' where "UpdateCoins ops c cb h = Some (us, c')" by auto
  then show ?thesis using cb n s by (auto simp: connect_tx_def Let_def not_less)
qed

lemma coinbase_block_body:
  assumes g: "gd c" and i: "index_linked cs p pindex prev"
    and b: "vtx block = [cb]" "IsCoinBase cb" "vjoinsplit cb = []" "storable_tx cb"
    and n: "GetLegacySigOpCount cb \<le> MAX_BLOCK_SIGOPS" and fresh: "cv_coins (vw c) (tx_hash cb) = None"
    and a: "cv_anchors (vw c) (cv_best_anchor (vw c))"
    and v: "GetValueOut cb = Some vo" "vo \<le> GetBlockSubsidy (bi_nHeight pindex) (nd_params nd)"
  shows "\<exists>cs' c'. connect_body nd cs ops c block p pindex fExp fJustCheck = Some (Inr (), cs', c')"
proof -
  have h: "0 \<le> bi_nHeight pindex" "bi_nHeight pindex < 2 ^ 31" using i by (auto simp: index_linked_def)
  obtain over c0 where o: "overwrites ops c (vtx block) = (over, c0)" by fastforce
  note ow = overwrites_reads [OF g o]
  have g0: "gd c0" "vw c0 = vw c" "\<not> over" using ow b(1) fresh by (simp_all add: keeps_def)
  obtain rt c2 where rt: "GetBestAnchor ops c0 = (rt, c2)" by fastforce
  note ba = cache_get_best_anchor [OF g0(1) rt]
  have g2: "gd c2" "vw c2 = vw c" using ba(1) g0 by (simp_all add: only_reads_def)
  obtain tr c3 where tr: "GetAnchorAt ops c2 rt = (tr, c3)" by fastforce
  note ga = cache_get_anchor [OF g2(1) tr]
  have g3: "gd c3" using ga(1) by (simp add: only_reads_def)
  obtain tree where t: "tr = Some tree" "ZCTree_root tree = rt"
    using ga(2,3) a ba(2) g0 g2 by (auto simp: tree_at_def)
  have wu: "write_undo nd (update_index p f (update_index p f' cs)) p u \<noteq> None"
    if "\<And>bi. bi_pprev (f bi) = bi_pprev bi" "\<And>bi. bi_pprev (f' bi) = bi_pprev bi" for f f' u
  proof -
    obtain pp where "cs_blocks cs p = Some pindex" "bi_pprev pindex = Some pp" "pp \<noteq> p" "cs_blocks cs pp = Some prev"
      using i by (auto simp: index_linked_def)
    with that show ?thesis by (intro write_undo_succeeds [of _ _ "f (f' pindex)" pp prev]) (simp_all add: update_index_def)
  qed
  let ?cs0 = "if fJustCheck then cs else update_index p (\<lambda>bi. bi\<lparr>bi_hashAnchor := rt\<rparr>) cs"
  let ?s0 = "\<lparr>cn_nSigOps = 0, cn_nFees = 0, cn_vtxundo = [], cn_tree = tree, cn_checks = [], cn_vPos = [],
    cn_pos = CDiskBlockPos.extend (GetBlockPos pindex) (CDiskTxPos.fields (of_nat (GetSizeOfCompactSize (of_nat (length (vtx block))))))\<rparr>"
  obtain s' c4 where s': "connect_txs nd (cs_mapBlockIndex ?cs0) (cs_blocks ?cs0) ops c3 fExp (bi_nHeight pindex) True ?s0 (vtx block) =
      Some (Inr s', c4)" "cn_nFees s' = 0" "cn_checks s' = []"
    using connect_coinbase [OF g3 b(2-4) h n, of ?s0 nd "cs_mapBlockIndex ?cs0" "cs_blocks ?cs0" fExp] b(1)
    by (auto simp del: connect_txs.simps)
  have "connect_body nd cs ops c block p pindex fExp fJustCheck = connect_finish nd ?cs0 ops c4 block p pindex rt fJustCheck s'"
    using s'(1) by (simp add: connect_body_def o g0(3) rt tr t Let_def)
  also have "\<exists>cs' c'. \<dots> = Some (Inr (), cs', c')"
    using wu [of "\<lambda>bi. bi\<lparr>bi_hashAnchorEnd := ZCTree_root (cn_tree s')\<rparr>" "\<lambda>bi. bi\<lparr>bi_hashAnchor := rt\<rparr>"
      "\<lparr>vtxundo = cn_vtxundo s', old_tree_root = rt\<rparr>"] v s'(2,3)
    by (auto simp: connect_finish_def b(1) Let_def)
  finally show ?thesis .
qed

lemma coinbase_block_accepted:
  assumes g: "gd c" and i: "index_linked cs p pindex prev" and best: "cv_best_block (vw c) = bi_hashBlock prev"
    and ch: "expensive_checks nd cs p pindex = Some fExp" "CheckBlock nd fExp block (\<not> fJustCheck) (\<not> fJustCheck) = Some (Inr ())"
    and b: "vtx block = [cb]" "valid_transaction cb" and fresh: "cv_coins (vw c) (tx_hash cb) = None"
    and a: "cv_anchors (vw c) (cv_best_anchor (vw c))"
    and v: "sum_out cb \<le> GetBlockSubsidy (bi_nHeight pindex) (nd_params nd)"
  shows "\<exists>cs' c'. ConnectBlock nd cs ops block p c fJustCheck = Some (Inr (), cs', c')"
proof -
  obtain bb c0 where bb: "GetBestBlock ops c = (bb, c0)" by fastforce
  note gb = cache_get_best_block [OF g bb]
  have g0: "gd c0" "vw c0 = vw c" using gb(1) by (simp_all add: only_reads_def)
  have t: "CheckTransaction (nd_sodium nd) (nd_js_verify nd fExp) cb = Inr ()"
    using check_transactions_all [OF CheckBlock_ensures(1) [OF ch(2)], of cb] b(1) by simp
  have cb: "IsCoinBase cb" using CheckBlock_ensures(2) [OF ch(2)] b(1) by auto
  have j: "vjoinsplit cb = []" "storable_tx cb" using checked_tx [OF t b(2)] cb by auto
  have n: "GetLegacySigOpCount cb \<le> MAX_BLOCK_SIGOPS" using CheckBlock_sigops [OF ch(2)] b(1) by simp
  have vo: "GetValueOut cb = Some (sum_out cb)" using checked_value_out [OF t] j(1) by (simp add: sum_vpub_old_def)
  obtain cs' c' where "connect_body nd cs ops c0 block p pindex fExp fJustCheck = Some (Inr (), cs', c')"
    using coinbase_block_body [OF g0(1) i b(1) cb j n _ _ vo v, of fExp fJustCheck] fresh a g0(2) by auto
  then show ?thesis
    using i ch bb gb(2) best
    by (cases "CBlockHeader_GetHash block = par_hashGenesisBlock (nd_params nd)"; cases fJustCheck)
      (auto simp: ConnectBlock_def index_linked_def)
qed

end

section \<open>A sample block\<close>

definition sample_node where
  "sample_node = \<lparr>nd_params = CMainParams\<lparr>par_hashGenesisBlock := []\<rparr>, nd_EquihashN = 48, nd_EquihashK = 5, nd_messageStart = [1, 2, 3, 4],
     nd_fCheckpointsEnabled = False, nd_mapCheckpoints = [], nd_protection = True, nd_nScriptCheckThreads = False,
     nd_fTxIndex = False, nd_GetAdjustedTime = 0, nd_secp = sample_secp, nd_blake2b = (\<lambda>n _ _. replicate n 0),
     nd_sodium = (\<lambda>_ _ _. False), nd_js_verify = (\<lambda>_ _ _. False)\<rparr>"

definition sample_tip_db :: leveldb where
  "sample_tip_db = (\<lambda>_. None)(ser_writedata8 DB_BEST_BLOCK := Some (replicate 32 2))"

definition sample_cache where
  "sample_cache = CCoinsViewCache_new (CCoinsViewCache_new sample_tip_db)"

definition sample_prev :: CBlockIndex where
  "sample_prev = CBlockIndex_SetNull\<lparr>bi_hashBlock := replicate 32 2\<rparr>"

definition sample_pindex :: CBlockIndex where
  "sample_pindex = CBlockIndex_SetNull\<lparr>bi_hashBlock := replicate 32 3, bi_pprev := Some 0, bi_nHeight := 1\<rparr>"

definition sample_chainstate :: chainstate where
  "sample_chainstate = \<lparr>cs_blocks = [0 \<mapsto> sample_prev, 1 \<mapsto> sample_pindex], cs_mapBlockIndex = [replicate 32 2 \<mapsto> 0],
     cs_setDirtyBlockIndex = {}, cs_undo_files = (\<lambda>_. []), cs_nUndoSize = (\<lambda>_. 0), cs_setDirtyFileInfo = {}, cs_txindex = (\<lambda>_. None)\<rparr>"

definition sample_coinbase_block :: CBlock where
  "sample_coinbase_block = CBlock_of CBlockHeader_SetNull [sample_coinbase] []"

lemma sample_linked: "index_linked sample_chainstate 1 sample_pindex sample_prev"
  by (simp add: index_linked_def sample_chainstate_def sample_pindex_def sample_prev_def CBlockIndex_SetNull_def IsNull_def list_all_iff)

lemma sample_cache_view:
  "block_good sample_secp sample_cache" "cv_best_block (block_view sample_secp sample_cache) = replicate 32 2"
  "cv_coins (block_view sample_secp sample_cache) k = None"
  "cv_anchors (block_view sample_secp sample_cache) (cv_best_anchor (block_view sample_secp sample_cache))"
proof -
  have g: "db_good sample_secp sample_tip_db" using db_key_distinct by (simp add: db_good_def sample_tip_db_def)
  have v: "block_view sample_secp sample_cache = db_view sample_secp sample_tip_db" by (simp add: sample_cache_def cache_new_good(2))
  show "block_good sample_secp sample_cache" unfolding sample_cache_def by (intro cache_new_good(1) g)
  show "cv_best_block (block_view sample_secp sample_cache) = replicate 32 2" "cv_coins (block_view sample_secp sample_cache) k = None"
    "cv_anchors (block_view sample_secp sample_cache) (cv_best_anchor (block_view sample_secp sample_cache))"
    unfolding v using db_key_distinct
    by (simp_all add: sample_tip_db_def db_view_def db_GetBestBlock_def db_GetBestAnchor_def db_Read_def stream_read_def db_key_defs)
qed

lemma sample_coinbase_valid: "valid_transaction sample_coinbase" "IsCoinBase sample_coinbase" "vjoinsplit sample_coinbase = []"
  "sum_out sample_coinbase = 50 * COIN"
  by (simp_all add: sample_coinbase_def valid_transaction_def int32_range_def valid_vector_def valid_txin_def valid_txout_def
      IsCoinBase_def COutPoint_null_def COutPoint_IsNull_def uint256_null_def IsNull_def list_all_iff MAX_SIZE_def valid_bytes_def
      int64_range_def COIN_def sum_out_def)

lemma sample_coinbase_checked: "CheckTransaction sodium_verify js_verify sample_coinbase = Inr ()"
proof -
  have "length (put_transaction sample_coinbase) \<le> 100000"
    by (simp add: sample_coinbase_def put_transaction_def put_vector_def put_CTxIn_def put_CTxOut_def put_COutPoint_def
        WriteCompactSize_def put_byte_vector_def put_int32_def put_int64_def ser_writedata8_def ser_writedata32_def
        ser_writedata64_def put_blob_def COutPoint_null_def uint256_null_def)
  then have "CheckTransactionWithoutProofVerification sodium_verify sample_coinbase = Inr ()"
    using sample_coinbase_valid(2) unfolding without_proofs_iff value_checks_iff
    by (simp add: sample_coinbase_def sum_out_def sum_vpub_old_def sum_vpub_new_def MAX_MONEY_def COIN_def)
  then show ?thesis using sample_coinbase_valid(3) by (simp add: CheckTransaction_def)
qed

lemma sample_sigops: "GetLegacySigOpCount sample_coinbase \<le> MAX_BLOCK_SIGOPS"
  by code_simp

lemma sample_block_checked: "CheckBlock sample_node True sample_coinbase_block False False = Some (Inr ())"
proof -
  have l: "length (put_CBlock sample_coinbase_block) \<le> unat MAX_BLOCK_SIZE"
    by (simp add: sample_coinbase_block_def put_CBlock_def put_CBlockHeader_def sample_coinbase_def put_transaction_def put_vector_def
        put_CTxIn_def put_CTxOut_def put_COutPoint_def WriteCompactSize_def put_byte_vector_def put_int32_def put_int64_def
        ser_writedata8_def ser_writedata32_def ser_writedata64_def put_blob_def COutPoint_null_def uint256_null_def
        CBlock_of_def CBlockHeader_SetNull_def CBlockHeader.defs CBlock.defs MAX_BLOCK_SIZE_def)
  have t: "vtx sample_coinbase_block = [sample_coinbase]"
    by (simp add: sample_coinbase_block_def CBlock_of_def CBlockHeader.defs CBlock.defs)
  have h: "CheckBlockHeader sample_node sample_coinbase_block False = Some (Inr ())"
    by (simp add: CheckBlockHeader_def sample_coinbase_block_def sample_node_def CBlock_of_def CBlockHeader_SetNull_def
        CBlockHeader.defs CBlock.defs CURRENT_VERSION_def MIN_BLOCK_VERSION_def GetBlockTime_def)
  show ?thesis
    using l sample_sigops sample_coinbase_valid(2) sample_coinbase_checked
    by (simp add: CheckBlock_def h t Let_def not_le MAX_BLOCK_SIZE_def not_less split: prod.split)
qed

lemma sample_subsidy: "GetBlockSubsidy 1 (nd_params sample_node) = 50 * COIN"
  by (simp add: GetBlockSubsidy_def sample_node_def CMainParams_def signed_divide_int_def)

lemma sample_block_txs: "vtx sample_coinbase_block = [sample_coinbase]"
  by (simp add: sample_coinbase_block_def CBlock_of_def CBlockHeader.defs CBlock.defs)

lemma sample_block_not_genesis: "CBlockHeader_GetHash (sample_coinbase_block :: CBlock) \<noteq> par_hashGenesisBlock (nd_params sample_node)"
proof -
  have "length (CBlockHeader_GetHash sample_coinbase_block) = 32"
    using length_Hash(1) by (simp add: CBlockHeader_GetHash_def SerializeHash_def Hash_def)
  then show ?thesis by (auto simp: sample_node_def)
qed

lemma sample_block_connects:
  "\<exists>cs' c'. ConnectBlock sample_node sample_chainstate (tip_ops sample_secp) sample_coinbase_block 1 sample_cache True = Some (Inr (), cs', c')"
  by (rule sample.tip.coinbase_block_accepted [OF sample_cache_view(1) sample_linked, of sample_node True _ True sample_coinbase])
    (use sample_cache_view sample_block_checked sample_coinbase_valid sample_subsidy in
      \<open>simp_all add: sample_prev_def expensive_checks_def sample_node_def sample_block_txs sample_pindex_def\<close>)

section \<open>Blocks on the tip of the node\<close>

lemma tip_contract: "secp_decompresses secp \<Longrightarrow> coins_view (tip_ops secp) (tip_good secp) (tip_view secp) cache_held"
  by (rule cache_fulfils_contract [OF db_fulfils_contract])




text \<open>
  C6: Connecting a block creates no value but the subsidy. The total value of the unspent outputs grows by at most the subsidy of
  the height and what the JoinSplits of the block take out of the private pool, net of what they put into it.
\<close>

theorem connect_creates_subsidy:
  assumes "secp_decompresses secp" "block_good secp c" "index_linked cs p pindex prev"
    and "\<forall>tx\<in>set (vtx block). valid_transaction tx" "CBlockHeader_GetHash block \<noteq> par_hashGenesisBlock (nd_params nd)"
    and "ConnectBlock nd cs (tip_ops secp) block p c fJustCheck = Some (Inr (), cs', c')"
    and "finite (dom (cv_coins (block_view secp c)))"
  shows "finite (dom (cv_coins (block_view secp c'))) \<and> total_value (block_view secp c') \<le>
    total_value (block_view secp c) + GetBlockSubsidy (bi_nHeight pindex) (nd_params nd) + unshielded block"
  using coins_view.ConnectBlock_value [OF tip_contract [OF assms(1)] assms(2-7)] by blast


theorem connect_creates_subsidy_witness:
  "\<exists>cs' c'. ConnectBlock sample_node sample_chainstate (tip_ops sample_secp) sample_coinbase_block 1 sample_cache True = Some (Inr (), cs', c') \<and>
     total_value (block_view sample_secp c') \<le> 50 * COIN"
proof -
  obtain cs' c' where r: "ConnectBlock sample_node sample_chainstate (tip_ops sample_secp) sample_coinbase_block 1 sample_cache True = Some (Inr (), cs', c')"
    using sample_block_connects by blast
  have t: "\<forall>tx\<in>set (vtx sample_coinbase_block). valid_transaction tx" by (simp add: sample_block_txs sample_coinbase_valid)
  have e: "cv_coins (block_view sample_secp sample_cache) = Map.empty" using sample_cache_view(3) by (simp add: fun_eq_iff)
  have z: "unshielded sample_coinbase_block = 0" "bi_nHeight sample_pindex = 1"
    by (simp_all add: unshielded_def sample_block_txs sum_vpub_new_def sum_vpub_old_def sample_coinbase_valid sample_pindex_def)
  from connect_creates_subsidy [OF sample_secp_decompresses sample_cache_view(1) sample_linked t sample_block_not_genesis r] r e z
  show ?thesis by (auto simp: sample_subsidy total_value_def)
qed

section \<open>The money supply\<close>

text \<open>
  The states a chain goes through as it grows block by block from a state without coins: its height, the abstract
  chain state, and the value in the private pool. Between two blocks the caches may be flushed or replaced, as long as they show
  the same state.
\<close>

inductive chain_grows :: "('pk, 'sig) node \<Rightarrow> nat \<Rightarrow> chain_view \<Rightarrow> CAmount \<Rightarrow> bool" for nd :: "('pk, 'sig) node" where
  chain_start: "cv_coins v = Map.empty \<Longrightarrow> chain_grows nd 0 v 0"
| chain_block: "chain_grows nd n (block_view (nd_secp nd) c) pool \<Longrightarrow> block_good (nd_secp nd) c \<Longrightarrow>
    index_linked cs p pindex prev \<Longrightarrow> bi_nHeight pindex = int (Suc n) \<Longrightarrow> \<forall>tx\<in>set (vtx block). valid_transaction tx \<Longrightarrow>
    CBlockHeader_GetHash block \<noteq> par_hashGenesisBlock (nd_params nd) \<Longrightarrow>
    ConnectBlock nd cs (tip_ops (nd_secp nd)) block p c fJustCheck = Some (Inr (), cs', c') \<Longrightarrow>
    chain_grows nd (Suc n) (block_view (nd_secp nd) c') (pool - unshielded block)"

lemma supply_invariant:
  assumes "chain_grows nd n v pool" "secp_decompresses (nd_secp nd)"
  shows "finite (dom (cv_coins v)) \<and> total_value v + pool \<le> (\<Sum>h<n. GetBlockSubsidy (int (Suc h)) (nd_params nd))"
  using assms(1)
proof induction
  case (chain_block n c pool cs p pindex prev block fJustCheck cs' c')
  from coins_view.ConnectBlock_value [OF tip_contract [OF assms(2)] chain_block(2,3,5-7)] chain_block.IH chain_block(4)
  show ?case by auto
qed (simp add: total_value_def)

lemma GetBlockSubsidy_nonneg:
  assumes "0 < par_nSubsidyHalvingInterval p"
  shows "0 \<le> GetBlockSubsidy (int h) p"
  using GetBlockSubsidy_eq [of "nat (par_nSubsidyHalvingInterval p)" p h] assms by simp

text \<open>
  C4: The money supply is bounded. However a chain grows, the value of all unspent outputs together with the value that is in the
  private pool is at most twice the first subsidy for each block of a halving interval: 84 million coins on the main
  network, a tenth of the largest amount the node accepts.
\<close>

theorem money_supply_bounded:
  assumes "chain_grows nd n v pool" "secp_decompresses (nd_secp nd)" "0 < par_nSubsidyHalvingInterval (nd_params nd)"
  shows "total_value v + pool \<le> 100 * COIN * par_nSubsidyHalvingInterval (nd_params nd)"
proof -
  let ?s = "\<lambda>h. GetBlockSubsidy (int h) (nd_params nd)"
  have "total_value v + pool \<le> (\<Sum>h<n. ?s (Suc h))" using supply_invariant [OF assms(1,2)] by simp
  also have "\<dots> \<le> (\<Sum>h<Suc n. ?s h)"
    using GetBlockSubsidy_nonneg [OF assms(3), of 0] unfolding sum.lessThan_Suc_shift by simp
  also have "\<dots> \<le> 100 * COIN * par_nSubsidyHalvingInterval (nd_params nd)" by (rule subsidy_total_bound [OF assms(3)])
  finally show ?thesis .
qed

theorem money_supply_bounded_witness:
  "\<exists>v. chain_grows sample_node 1 v 0 \<and> total_value v + 0 \<le> 84000000 * COIN"
proof -
  obtain cs' c' where r: "ConnectBlock sample_node sample_chainstate (tip_ops sample_secp) sample_coinbase_block 1 sample_cache True = Some (Inr (), cs', c')"
    using sample_block_connects by blast
  have s: "nd_secp sample_node = sample_secp" "par_nSubsidyHalvingInterval (nd_params sample_node) = 840000"
    by (simp_all add: sample_node_def CMainParams_def)
  have e: "cv_coins (block_view sample_secp sample_cache) = Map.empty" using sample_cache_view(3) by (simp add: fun_eq_iff)
  have z: "unshielded sample_coinbase_block = 0" "bi_nHeight sample_pindex = int (Suc 0)"
    by (simp_all add: unshielded_def sample_block_txs sum_vpub_new_def sum_vpub_old_def sample_coinbase_valid sample_pindex_def)
  have "chain_grows sample_node (Suc 0) (block_view (nd_secp sample_node) c') (0 - unshielded sample_coinbase_block)"
    by (rule chain_block [OF chain_start _ sample_linked z(2) _ sample_block_not_genesis])
      (use r e s sample_cache_view(1) sample_coinbase_valid in \<open>simp_all add: sample_block_txs\<close>)
  then have g: "chain_grows sample_node 1 (block_view sample_secp c') 0" using z s by simp
  with money_supply_bounded [OF g] s sample_secp_decompresses show ?thesis by (auto simp: COIN_def)
qed

end
