(* ===== verification/Spec2Isabelle.thy ===== *)
theory Spec2Isabelle
  imports Connect
begin

text \<open>
  A verification development of the consensus side of the LitecoinZ node (the C++ sources under
  \<^verbatim>\<open>src/src\<close>; paths below are relative to that directory).

  \<^bold>\<open>The program.\<close> The node keeps a tree of block headers, chooses the branch with the most work, and
  maintains for that branch a database of unspent transparent outputs, of the anchors of the note
  commitment tree and of the spent nullifiers. Blocks carry transactions; a transaction spends
  transparent outputs under the control of scripts and private notes under the control of JoinSplit proofs.

  \<^bold>\<open>The theories\<close>, from the bottom up; each opens with the correspondence between its definitions and the code.

  \<^item> \<^verbatim>\<open>Prelude\<close>: machine types and the facts about words and byte lists that the components share.
  \<^item> \<^verbatim>\<open>Arith256\<close> (\<^verbatim>\<open>arith_uint256.*\<close>): the 256-bit integers limb by limb; every operator computes arithmetic
    modulo \<open>2 ^ 256\<close>, division is Euclidean, and the compact target form is characterised.
  \<^item> \<^verbatim>\<open>Uint256\<close> (\<^verbatim>\<open>uint256.*\<close>, \<^verbatim>\<open>crypto/common.h\<close>): opaque blobs, their order and hexadecimal text.
  \<^item> \<^verbatim>\<open>Chain\<close> (\<^verbatim>\<open>chain.*\<close>): the block index over an explicit pointer store; skip pointers find the ancestor that
    walking back finds, the active chain, forks, locators and median times.
  \<^item> \<^verbatim>\<open>Pow\<close> (\<^verbatim>\<open>pow.cpp\<close>, \<^verbatim>\<open>chainparams.cpp\<close>): retargeting, the target check and the work of a block, through an interface
    of 256-bit arithmetic that \<^verbatim>\<open>Arith256\<close> implements.
  \<^item> \<^verbatim>\<open>Script\<close>, \<^verbatim>\<open>Interpreter\<close> (\<^verbatim>\<open>script/\<close>): scripts, script numbers and the stack machine with all its error codes.
  \<^item> \<^verbatim>\<open>Hashing\<close> (\<^verbatim>\<open>crypto/\<close>, \<^verbatim>\<open>hash.*\<close>): the streaming hashers; feeding a message in pieces does not matter.
  \<^item> \<^verbatim>\<open>Serialize\<close>, \<^verbatim>\<open>Transaction\<close>, \<^verbatim>\<open>SigHash\<close> (\<^verbatim>\<open>serialize.h\<close>, \<^verbatim>\<open>amount.*\<close>, \<^verbatim>\<open>primitives/transaction.*\<close>, \<^verbatim>\<open>pubkey.*\<close>): encodings as
    codecs whose readers undo their writers, transactions, and what a signature commits to.
  \<^item> \<^verbatim>\<open>IncMerkle\<close> (\<^verbatim>\<open>zcash/IncrementalMerkleTree.*\<close>): the note commitment tree refines the full binary tree.
  \<^item> \<^verbatim>\<open>Compressor\<close>, \<^verbatim>\<open>Coins\<close>, \<^verbatim>\<open>CoinsView\<close> (\<^verbatim>\<open>compressor.*\<close>, \<^verbatim>\<open>coins.*\<close>, \<^verbatim>\<open>undo.h\<close>, \<^verbatim>\<open>txdb.cpp\<close>): unspent outputs, their encoding,
    and the stack of caches over the database, every layer of which fulfils one contract.
  \<^item> \<^verbatim>\<open>Equihash\<close> (\<^verbatim>\<open>crypto/equihash.*\<close>, \<^verbatim>\<open>pow.cpp\<close>): the proof of work; the check accepts exactly the packed trees of colliding hashes.
  \<^item> \<^verbatim>\<open>TxChecks\<close> (\<^verbatim>\<open>main.cpp\<close>, \<^verbatim>\<open>script/sigcache.cpp\<close>): the checks of a transaction, the subsidy, the update of the coins and the
    cache of verified signatures.
  \<^item> \<^verbatim>\<open>Connect\<close> (\<^verbatim>\<open>main.cpp\<close>, \<^verbatim>\<open>checkpoints.cpp\<close>): the checks of a block, connecting it to the tip and taking it off; a connected
    block spends properly and creates no value but the subsidy, so that the money supply is bounded.
  \<^item> \<^verbatim>\<open>Block\<close> (\<^verbatim>\<open>primitives/block.*\<close>, \<^verbatim>\<open>merkleblock.*\<close>): headers, Merkle roots, branches and partial trees.

  \<^bold>\<open>Conventions.\<close> Stateful code passes its state explicitly. A failed assertion, an uncaught exception or
  an access outside a container is \<open>None\<close>; errors the code reports are values of a sum type. Loops are
  structural recursions or have a termination proof; no definition needs fuel.
  Code of other projects (libsecp256k1, libsodium, libsnark, LevelDB) is an argument of the definitions, and
  what is relied on is a named hypothesis or the assumption of a locale.

  \<^bold>\<open>Not modelled.\<close> Sockets, threads, files, logging, the RPC commands, the wallet's storage and the tests are input and
  output. Memory accounting, floating-point priorities and the textual dumps of objects are left out.
\<close>

end
